(* ===== verification/Prelude.thy ===== *)
theory Prelude
  imports Main "HOL-Library.Word"
begin

unbundle bit_operations_syntax

text \<open>
  The base of the development: machine types, the C library primitives the components use
  (\<open>memcmp\<close>, byte order conversion, alignment), and the lemmas on bytes, lists and words that
  carry the proofs of the component theories.

  Byte strings (\<open>chunk_t\<close>) are lists of bytes.  A \<open>uintN_t\<close> is an \<open>N word\<close>, so arithmetic wraps
  as in C; \<open>u_int\<close> is 32 bits wide.  A \<open>size_t\<close> that only counts bytes of an object in memory is
  a \<open>nat\<close>.
\<close>

type_synonym byte = "8 word"
type_synonym u16 = "16 word"
type_synonym u32 = "32 word"
type_synonym u64 = "64 word"
type_synonym chunk = "byte list"

named_theorems byteorder_defs \<open>definitions of the byte order conversions\<close>

section \<open>Return codes\<close>

datatype status_t = SUCCESS | FAILED | OUT_OF_RES | ALREADY_DONE | NOT_SUPPORTED | INVALID_ARG
  | NOT_FOUND | PARSE_ERROR | VERIFY_ERROR | INVALID_STATE | DESTROY_ME | NEED_MORE

section \<open>Byte strings as numbers\<close>

text \<open>The number a byte string denotes in network byte order, and back.\<close>

primrec nat_of_be :: "chunk \<Rightarrow> nat" where
  "nat_of_be [] = 0"
| "nat_of_be (b # bs) = unat b * 256 ^ length bs + nat_of_be bs"

primrec be_of_nat :: "nat \<Rightarrow> nat \<Rightarrow> chunk" where
  "be_of_nat 0 x = []"
| "be_of_nat (Suc n) x = of_nat (x div 256 ^ n) # be_of_nat n x"

lemma length_be_of_nat [simp]: "length (be_of_nat n x) = n"
  by (induction n) auto

lemma be_of_nat_2: "be_of_nat 2 x = [of_nat (x div 256), of_nat x]"
  by (simp add: numeral_2_eq_2)

lemma be_of_nat_4:
  "be_of_nat 4 x = [of_nat (x div 256 ^ 3), of_nat (x div 256 ^ 2), of_nat (x div 256), of_nat x]"
proof -
  have "be_of_nat (Suc (Suc (Suc (Suc 0)))) x =
      [of_nat (x div 256 ^ 3), of_nat (x div 256 ^ 2), of_nat (x div 256), of_nat x]"
    unfolding be_of_nat.simps by (simp add: numeral_3_eq_3 power2_eq_square)
  moreover have "Suc (Suc (Suc (Suc 0))) = 4" by simp
  ultimately show ?thesis by (simp only:)
qed

lemma unat_byte_less [simp]: "unat (b :: byte) < 256"
  using unsigned_less [of b, where ?'a = nat] by simp

lemma unat_of_nat_byte [simp]: "unat (of_nat x :: byte) = x mod 256"
  by (simp add: unat_of_nat)

lemma of_nat_byte_eq_iff: "(of_nat x :: byte) = of_nat y \<longleftrightarrow> x mod 256 = y mod 256"
  by (simp add: word_unat_eq_iff)

lemma nat_of_be_less: "nat_of_be bs < 256 ^ length bs"
proof (induction bs)
  case (Cons b bs)
  have "unat b + 1 \<le> 256" using unat_byte_less [of b] by linarith
  then have "(unat b + 1) * 256 ^ length bs \<le> 256 * 256 ^ length bs"
    by (rule mult_right_mono) simp
  moreover have "(unat b + 1) * 256 ^ length bs = unat b * 256 ^ length bs + 256 ^ length bs"
    by simp
  ultimately have "unat b * 256 ^ length bs + nat_of_be bs < 256 * 256 ^ length bs"
    using Cons by linarith
  then show ?case by simp
qed simp

lemma nat_of_be_append [simp]:
  "nat_of_be (xs @ ys) = nat_of_be xs * 256 ^ length ys + nat_of_be ys"
  by (induction xs) (simp_all add: algebra_simps power_add)

lemma nat_of_be_of_nat [simp]: "nat_of_be (be_of_nat n x) = x mod 256 ^ n"
proof (induction n)
  case (Suc n)
  have "x mod (256 ^ n * 256) = 256 ^ n * (x div 256 ^ n mod 256) + x mod 256 ^ n"
    by (rule mod_mult2_eq)
  with Suc show ?case by (simp add: algebra_simps)
qed simp

lemma be_of_nat_mod: "m \<le> n \<Longrightarrow> be_of_nat m (x mod 256 ^ n) = be_of_nat m x"
proof (induction m)
  case (Suc m)
  define k where "k = n - Suc m"
  with Suc.prems have n: "(256::nat) ^ n = 256 ^ m * (256 * 256 ^ k)"
    by (simp flip: power_add power_Suc)
  have "x mod 256 ^ n div 256 ^ m = x div 256 ^ m mod (256 * 256 ^ k)"
    unfolding n mod_mult2_eq by simp
  then have "x mod 256 ^ n div 256 ^ m mod 256 = x div 256 ^ m mod 256"
    by (simp add: mod_mult2_eq)
  then have "(of_nat (x mod 256 ^ n div 256 ^ m) :: byte) = of_nat (x div 256 ^ m)"
    by (simp only: of_nat_byte_eq_iff)
  with Suc show ?case by simp
qed simp

lemma be_of_nat_of_be [simp]: "be_of_nat (length bs) (nat_of_be bs) = bs"
proof (induction bs)
  case (Cons b bs)
  have "be_of_nat (length bs) (nat_of_be (b # bs)) = be_of_nat (length bs) (nat_of_be (b # bs) mod 256 ^ length bs)"
    by (rule be_of_nat_mod [symmetric]) simp
  also have "nat_of_be (b # bs) mod 256 ^ length bs = nat_of_be bs"
    using nat_of_be_less [of bs] by simp
  finally have "be_of_nat (length bs) (nat_of_be (b # bs)) = bs" using Cons by simp
  moreover have "nat_of_be (b # bs) div 256 ^ length bs = unat b"
    using nat_of_be_less [of bs] by simp
  ultimately show ?case by simp
qed simp

lemma nat_of_be_inject:
  "length xs = length ys \<Longrightarrow> nat_of_be xs = nat_of_be ys \<longleftrightarrow> xs = ys"
  by (metis be_of_nat_of_be)

text \<open>The bits of the number are the bits of the bytes.\<close>

lemma bit_nat_add_shift:
  fixes x y :: nat
  assumes "y < 2 ^ m"
  shows "bit (x * 2 ^ m + y) k = (if k < m then bit y k else bit x (k - m))"
proof (cases "k < m")
  case True
  then have "x * 2 ^ m + y = y + (x * 2 ^ (m - k)) * 2 ^ k"
    by (simp flip: power_add)
  then have "(x * 2 ^ m + y) div 2 ^ k = x * 2 ^ (m - k) + y div 2 ^ k"
    by (simp only: div_mult_self1 power_eq_0_iff) simp
  with True show ?thesis by (simp add: bit_iff_odd)
next
  case False
  then have "(2 :: nat) ^ k = 2 ^ m * 2 ^ (k - m)" by (simp flip: power_add)
  then have "(x * 2 ^ m + y) div 2 ^ k = (x * 2 ^ m + y) div 2 ^ m div 2 ^ (k - m)"
    by (simp only: div_mult2_eq)
  with False assms show ?thesis by (simp add: bit_iff_odd)
qed

lemma bit_nat_of_be:
  "bit (nat_of_be bs) k \<longleftrightarrow> k < 8 * length bs \<and> bit (bs ! (length bs - 1 - k div 8)) (k mod 8)"
proof (induction bs)
  case (Cons b bs)
  have p: "(256 :: nat) ^ length bs = 2 ^ (8 * length bs)" by (simp add: power_mult)
  have *: "bit (nat_of_be (b # bs)) k =
      (if k < 8 * length bs then bit (nat_of_be bs) k else bit b (k - 8 * length bs))"
    using bit_nat_add_shift [of "nat_of_be bs" "8 * length bs" "unat b" k] nat_of_be_less [of bs]
    by (simp add: p bit_unsigned_iff)
  show ?case
  proof (cases "k < 8 * length bs")
    case True
    then have "length bs - k div 8 = Suc (length bs - 1 - k div 8)"
      by (simp add: Suc_diff_Suc div_less_iff_less_mult)
    with True Cons * show ?thesis by simp
  next
    case False
    show ?thesis
    proof (cases "k < 8 * length bs + 8")
      case True
      then obtain j where "k = 8 * length bs + j" "j < 8"
        using False by (metis le_Suc_ex nat_add_left_cancel_less not_less)
      then have "k div 8 = length bs" "k mod 8 = k - 8 * length bs" by simp_all
      with * False True show ?thesis by simp
    next
      case outside: False
      then have "8 \<le> k - 8 * length bs" by simp
      then have "\<not> bit b (k - 8 * length bs)" by (auto dest: bit_imp_le_length)
      with * False outside show ?thesis by simp
    qed
  qed
qed simp

section \<open>Byte order\<close>

text \<open>
  Reading and writing unaligned integers (\<open>utils/utils/byteorder.h\<close>): \<open>untohN\<close> and \<open>htounN\<close> use
  network order, \<open>uletohN\<close> and \<open>htouleN\<close> little-endian order.  Readers take the bytes at the
  address; they look at the first bytes only.  \<open>htonl\<close> and \<open>htons\<close> are the swaps of a little-endian
  host, as all Android targets are.
\<close>

definition untoh16 :: "chunk \<Rightarrow> u16" where
  "untoh16 p = of_nat (nat_of_be (take 2 p))"

definition untoh32 :: "chunk \<Rightarrow> u32" where
  "untoh32 p = of_nat (nat_of_be (take 4 p))"

definition untoh64 :: "chunk \<Rightarrow> u64" where
  "untoh64 p = of_nat (nat_of_be (take 8 p))"

definition htoun16 :: "u16 \<Rightarrow> chunk" where
  "htoun16 v = be_of_nat 2 (unat v)"

definition htoun32 :: "u32 \<Rightarrow> chunk" where
  "htoun32 v = be_of_nat 4 (unat v)"

definition htoun64 :: "u64 \<Rightarrow> chunk" where
  "htoun64 v = be_of_nat 8 (unat v)"

definition uletoh32 :: "chunk \<Rightarrow> u32" where
  "uletoh32 p = of_nat (nat_of_be (rev (take 4 p)))"

definition htoule32 :: "u32 \<Rightarrow> chunk" where
  "htoule32 v = rev (be_of_nat 4 (unat v))"

definition htole64_bytes :: "u64 \<Rightarrow> chunk" where
  "htole64_bytes v = rev (be_of_nat 8 (unat v))"

definition htonl :: "u32 \<Rightarrow> u32" where
  "htonl v = uletoh32 (htoun32 v)"

definition ntohl :: "u32 \<Rightarrow> u32" where
  "ntohl v = htonl v"

definition htons :: "u16 \<Rightarrow> u16" where
  "htons v = of_nat (nat_of_be (rev (htoun16 v)))"

definition ntohs :: "u16 \<Rightarrow> u16" where
  "ntohs v = htons v"

declare untoh16_def [byteorder_defs] untoh32_def [byteorder_defs] untoh64_def [byteorder_defs]
  htoun16_def [byteorder_defs] htoun32_def [byteorder_defs] htoun64_def [byteorder_defs]
  uletoh32_def [byteorder_defs] htoule32_def [byteorder_defs] htole64_bytes_def [byteorder_defs]
  htonl_def [byteorder_defs] ntohl_def [byteorder_defs] htons_def [byteorder_defs]
  ntohs_def [byteorder_defs]

lemma length_htoun [simp]:
  "length (htoun16 x) = 2" "length (htoun32 y) = 4" "length (htoun64 z) = 8"
  "length (htoule32 y) = 4" "length (htole64_bytes z) = 8"
  by (simp_all add: byteorder_defs)

lemma unat_word_less:
  "unat (x :: u16) < 65536" "unat (y :: u32) < 4294967296" "unat (z :: u64) < 18446744073709551616"
  using unsigned_less [of x, where ?'a = nat] unsigned_less [of y, where ?'a = nat]
    unsigned_less [of z, where ?'a = nat] by simp_all

lemma untoh16_htoun16 [simp]: "untoh16 (htoun16 x @ ys) = x"
  using unat_word_less(1) [of x] by (simp add: byteorder_defs)

lemma untoh32_htoun32 [simp]: "untoh32 (htoun32 x @ ys) = x"
  using unat_word_less(2) [of x] by (simp add: byteorder_defs)

lemma untoh64_htoun64 [simp]: "untoh64 (htoun64 x @ ys) = x"
  using unat_word_less(3) [of x] by (simp add: byteorder_defs)

lemma uletoh32_htoule32 [simp]: "uletoh32 (htoule32 x @ ys) = x"
  using unat_word_less(2) [of x] by (simp add: byteorder_defs)

lemma unat_of_nat_small:
  "n < 65536 \<Longrightarrow> unat (of_nat n :: u16) = n"
  "n < 4294967296 \<Longrightarrow> unat (of_nat n :: u32) = n"
  "n < 18446744073709551616 \<Longrightarrow> unat (of_nat n :: u64) = n"
  by (simp_all add: unat_of_nat)

lemma htoun16_untoh16: "length bs = 2 \<Longrightarrow> htoun16 (untoh16 bs) = bs"
  using nat_of_be_less [of bs] be_of_nat_of_be [of bs]
  by (simp add: byteorder_defs unat_of_nat_small)

lemma htoun32_untoh32: "length bs = 4 \<Longrightarrow> htoun32 (untoh32 bs) = bs"
  using nat_of_be_less [of bs] be_of_nat_of_be [of bs]
  by (simp add: byteorder_defs unat_of_nat_small)

lemma htoun32_of_le: "length bs = 4 \<Longrightarrow> htoun32 (uletoh32 bs) = rev bs"
  using nat_of_be_less [of "rev bs"] be_of_nat_of_be [of "rev bs"]
  by (simp add: byteorder_defs unat_of_nat_small)

lemma htoule32_uletoh32: "length bs = 4 \<Longrightarrow> htoule32 (uletoh32 bs) = bs"
  using nat_of_be_less [of "rev bs"] be_of_nat_of_be [of "rev bs"]
  by (simp add: byteorder_defs unat_of_nat_small)

lemma htonl_htonl [simp]: "htonl (htonl v) = v"
proof -
  have "htoun32 (htonl v) = rev (htoun32 v)"
    unfolding htonl_def by (rule htoun32_of_le) simp
  then have "htonl (htonl v) = uletoh32 (htoule32 v)"
    by (simp add: htonl_def htoule32_def htoun32_def)
  then show ?thesis using uletoh32_htoule32 [of v "[]"] by simp
qed

lemma ntohl_htonl [simp]: "ntohl (htonl v) = v" "htonl (ntohl v) = v"
  by (simp_all add: ntohl_def)

lemma htonl_bytes: "htoule32 (htonl v) = htoun32 v"
proof -
  have "htonl v = uletoh32 (htoun32 v)" by (rule htonl_def)
  then show ?thesis by (simp add: htoule32_uletoh32)
qed

lemma unat_inj: "unat x = unat y \<Longrightarrow> x = (y :: 'a::len word)"
  by (simp add: word_unat_eq_iff)

lemma unat_ucast_up:
  fixes w :: "'a::len word"
  assumes "LENGTH('a) \<le> LENGTH('b::len)"
  shows "unat (ucast w :: 'b word) = unat w"
proof -
  have "unat w < 2 ^ LENGTH('a)" by (rule unsigned_less)
  also have "\<dots> \<le> 2 ^ LENGTH('b)" using assms by simp
  finally show ?thesis by (simp add: unsigned_ucast_eq take_bit_nat_eq_self)
qed

lemma unat_drop_bit_div: "unat (drop_bit n w) = unat w div 2 ^ n"
  by (metis unat_drop_bit_eq drop_bit_eq_div)

lemma unat_add_small: "unat a + unat b < 2 ^ LENGTH('a) \<Longrightarrow> unat (a + b) = unat a + unat (b :: 'a::len word)"
  by (simp add: unat_word_ariths)

lemma unat_mult_small: "unat a * unat b < 2 ^ LENGTH('a) \<Longrightarrow> unat (a * b) = unat a * unat (b :: 'a::len word)"
  by (simp add: unat_word_ariths)

lemma unat_or_push:
  fixes a b :: "'a::len word"
  assumes "unat a < 2 ^ n" "n \<le> LENGTH('a)"
  shows "unat (a OR push_bit n b) = unat a + 2 ^ n * unat b mod 2 ^ LENGTH('a)"
proof -
  have "take_bit n a = a"
    using assms by (metis take_bit_nat_eq_self unsigned_take_bit_eq unat_inj)
  then have "a AND push_bit n b = 0"
    by (intro bit_word_eqI) (metis bit_and_iff bit_push_bit_iff bit_take_bit_iff bit_0_eq bot_apply bot_bool_def not_le)
  then have or: "a OR push_bit n b = a + push_bit n b" by (rule disjunctive_add_eq_or [symmetric])
  have p: "unat (push_bit n b) = 2 ^ n * unat b mod 2 ^ LENGTH('a)"
    by (simp only: unsigned_push_bit_eq) (simp add: push_bit_eq_mult take_bit_eq_mod mult.commute)
  have L: "(2::nat) ^ LENGTH('a) = 2 ^ n * 2 ^ (LENGTH('a) - n)"
    using assms by (simp flip: power_add)
  then have "2 ^ n * unat b mod 2 ^ LENGTH('a) = 2 ^ n * (unat b mod 2 ^ (LENGTH('a) - n))"
    by simp
  moreover have "unat b mod 2 ^ (LENGTH('a) - n) + 1 \<le> 2 ^ (LENGTH('a) - n)"
    by (simp add: Suc_leI)
  then have "2 ^ n * (unat b mod 2 ^ (LENGTH('a) - n) + 1) \<le> 2 ^ LENGTH('a)"
    unfolding L by (rule mult_le_mono2)
  ultimately have "unat a + unat (push_bit n b) < 2 ^ LENGTH('a)"
    using assms p by (simp add: algebra_simps)
  then show ?thesis by (simp add: or unat_add_small p)
qed

lemma unat_not16: "unat (NOT x :: u16) = 65535 - unat x"
proof -
  have "NOT x = 65535 - x" by (simp add: not_eq_complement)
  moreover have "x \<le> 65535" using unat_word_less(1) [of x] by (simp add: word_le_nat_alt)
  ultimately show ?thesis by (simp add: unat_sub)
qed

lemma ucast_not16: "unat x < 65536 \<Longrightarrow> unat (ucast (NOT (x :: u32)) :: u16) = 65535 - unat x"
proof -
  assume "unat x < 65536"
  then have "unat (ucast x :: u16) = unat x" by (simp add: unsigned_ucast_eq take_bit_nat_eq_self)
  moreover have "(ucast (NOT x) :: u16) = NOT (ucast x)" by (rule bit_word_eqI) (simp add: bit_simps)
  ultimately show ?thesis by (simp add: unat_not16)
qed

lemma htoun16_htons: "htoun16 (htons v) = rev (htoun16 v)"
  using nat_of_be_less [of "rev (htoun16 v)"] be_of_nat_of_be [of "rev (htoun16 v)"]
  by (simp add: htons_def htoun16_def unat_of_nat_small del: nat_of_be_of_nat)

lemma htons_htons [simp]: "htons (htons v) = v"
proof -
  have "htons (htons v) = of_nat (nat_of_be (htoun16 v))"
    by (subst htons_def) (simp add: htoun16_htons)
  then show ?thesis using unat_word_less(1) [of v] by (simp add: htoun16_def)
qed

lemma ntohs_htons [simp]: "ntohs (htons v) = v" "htons (ntohs v) = v"
  by (simp_all add: ntohs_def)

lemma unat_htons: "unat (htons v) = unat v mod 256 * 256 + unat v div 256"
proof -
  have "unat v div 256 < 256" using unat_word_less(1) [of v] by (simp add: div_less_iff_less_mult)
  moreover have "unat v mod 256 < 256" by simp
  ultimately have "unat v mod 256 * 256 + unat v div 256 < 65536" by linarith
  moreover have "nat_of_be (rev (htoun16 v)) = unat v mod 256 * 256 + unat v div 256"
    using \<open>unat v div 256 < 256\<close> by (simp add: htoun16_def numeral_2_eq_2 unsigned_ucast_eq take_bit_eq_mod)
  ultimately show ?thesis by (simp only: htons_def unat_of_nat_small)
qed

lemma htons_not: "htons (NOT v) = NOT (htons v)"
proof (rule unat_inj)
  define q r where "q = unat v div 256" and "r = unat v mod 256"
  have v: "unat v = 256 * q + r" by (simp add: q_def r_def)
  have "q < 256" using unat_word_less(1) [of v] by (simp add: q_def div_less_iff_less_mult)
  have "r < 256" by (simp add: r_def)
  have n: "65535 - unat v = 256 * (255 - q) + (255 - r)" using v \<open>q < 256\<close> \<open>r < 256\<close> by simp
  have "(65535 - unat v) div 256 = 255 - q" "(65535 - unat v) mod 256 = 255 - r"
    using n by simp_all
  then show "unat (htons (NOT v)) = unat (NOT (htons v))"
    using \<open>q < 256\<close> \<open>r < 256\<close>
    by (simp add: unat_htons unat_not16 flip: q_def r_def)
qed

lemma htons_extremal: "htons 0 = 0" "htons 0xffff = 0xffff"
  by (rule unat_inj, simp add: unat_htons)+

text \<open>Equality of bytes bit by bit, for identities of shifts and masks.\<close>

lemma byte_eqI:
  assumes "\<And>n. n \<in> {0, 1, 2, 3, 4, 5, 6, 7} \<Longrightarrow> bit a n = bit b n"
  shows "a = (b :: byte)"
proof (rule bit_word_eqI)
  fix n assume "n < LENGTH(8)"
  then have "n \<in> {0, 1, 2, 3, 4, 5, 6, 7}" by auto
  then show "bit a n = bit b n" by (rule assms)
qed

section \<open>Memory comparison and alignment\<close>

text \<open>
  \<open>memcmp\<close> compares the first \<open>n\<close> bytes as unsigned characters.  C fixes only the sign of the
  result; the model returns the difference of the first bytes that differ.  Callers use the sign.
\<close>

fun memcmp_list :: "chunk \<Rightarrow> chunk \<Rightarrow> int" where
  "memcmp_list (x # xs) (y # ys) = (if x = y then memcmp_list xs ys else uint x - uint y)"
| "memcmp_list _ _ = 0"

definition memcmp :: "chunk \<Rightarrow> chunk \<Rightarrow> nat \<Rightarrow> int" where
  "memcmp a b n = memcmp_list (take n a) (take n b)"

definition memeq :: "chunk \<Rightarrow> chunk \<Rightarrow> nat \<Rightarrow> bool" where
  "memeq a b n = (memcmp a b n = 0)"

lemma memcmp_list_nat_of_be:
  "length xs = length ys \<Longrightarrow>
     sgn (memcmp_list xs ys) = sgn (int (nat_of_be xs) - int (nat_of_be ys))"
proof (induction xs ys rule: list_induct2)
  case (Cons x xs y ys)
  show ?case
  proof (cases "x = y")
    case False
    let ?P = "256 ^ length ys :: nat"
    have bx: "nat_of_be xs < ?P" and by': "nat_of_be ys < ?P"
      using Cons.hyps nat_of_be_less [of xs] nat_of_be_less [of ys] by simp_all
    consider "unat x < unat y" | "unat y < unat x" using False
      by (metis linorder_neqE_nat word_unat_eq_iff)
    then show ?thesis
    proof cases
      case 1
      then have "(unat x + 1) * ?P \<le> unat y * ?P" by (intro mult_right_mono) simp_all
      with bx Cons.hyps have "nat_of_be (x # xs) < nat_of_be (y # ys)" by (simp add: algebra_simps)
      moreover from 1 have "uint x < uint y" by (metis word_less_def word_less_nat_alt)
      ultimately show ?thesis using False by (simp add: sgn_if del: nat_of_be.simps)
    next
      case 2
      then have "(unat y + 1) * ?P \<le> unat x * ?P" by (intro mult_right_mono) simp_all
      with by' Cons.hyps have "nat_of_be (y # ys) < nat_of_be (x # xs)" by (simp add: algebra_simps)
      moreover from 2 have "uint y < uint x" by (metis word_less_def word_less_nat_alt)
      ultimately show ?thesis using False by (simp add: sgn_if del: nat_of_be.simps)
    qed
  qed (use Cons in simp)
qed simp

lemma memcmp_sgn:
  assumes "length a = n" "length b = n"
  shows "memcmp a b n < 0 \<longleftrightarrow> nat_of_be a < nat_of_be b"
    and "memcmp a b n = 0 \<longleftrightarrow> a = b"
    and "memcmp a b n > 0 \<longleftrightarrow> nat_of_be a > nat_of_be b"
    and "memcmp a b n \<le> 0 \<longleftrightarrow> nat_of_be a \<le> nat_of_be b"
    and "memcmp a b n \<ge> 0 \<longleftrightarrow> nat_of_be a \<ge> nat_of_be b"
proof -
  have s: "sgn (memcmp a b n) = sgn (int (nat_of_be a) - int (nat_of_be b))"
    using assms by (simp add: memcmp_def memcmp_list_nat_of_be)
  have e: "memcmp a b n = 0 \<longleftrightarrow> nat_of_be a = nat_of_be b"
    by (metis s sgn_0_0 diff_self eq_iff_diff_eq_0 of_nat_eq_iff)
  show l: "memcmp a b n < 0 \<longleftrightarrow> nat_of_be a < nat_of_be b"
    by (metis s sgn_less diff_less_0_iff_less of_nat_less_iff)
  show g: "memcmp a b n > 0 \<longleftrightarrow> nat_of_be a > nat_of_be b"
    by (metis s sgn_greater diff_gt_0_iff_gt of_nat_less_iff)
  from e show "memcmp a b n = 0 \<longleftrightarrow> a = b" using assms by (simp add: nat_of_be_inject)
  from l e g show "memcmp a b n \<le> 0 \<longleftrightarrow> nat_of_be a \<le> nat_of_be b"
    "memcmp a b n \<ge> 0 \<longleftrightarrow> nat_of_be a \<ge> nat_of_be b" by linarith+
qed

lemma memcmp_prefix:
  assumes "n \<le> length a" "n \<le> length b"
  shows "memcmp a b n < 0 \<longleftrightarrow> nat_of_be (take n a) < nat_of_be (take n b)"
    and "memcmp a b n = 0 \<longleftrightarrow> take n a = take n b"
    and "memcmp a b n > 0 \<longleftrightarrow> nat_of_be (take n a) > nat_of_be (take n b)"
    and "memcmp a b n \<le> 0 \<longleftrightarrow> nat_of_be (take n a) \<le> nat_of_be (take n b)"
    and "memcmp a b n \<ge> 0 \<longleftrightarrow> nat_of_be (take n a) \<ge> nat_of_be (take n b)"
  using memcmp_sgn [of "take n a" n "take n b"] assms by (simp_all add: memcmp_def)

lemma memeq_iff [simp]: "length a = n \<Longrightarrow> length b = n \<Longrightarrow> memeq a b n \<longleftrightarrow> a = b"
  by (simp add: memeq_def memcmp_sgn)

text \<open>\<open>pad_len\<close> and \<open>round_up\<close> of \<open>utils/utils/align.h\<close>.\<close>

definition pad_len :: "nat \<Rightarrow> nat \<Rightarrow> nat" where
  "pad_len n alignment = (let remainder = n mod alignment in
     if remainder \<noteq> 0 then alignment - remainder else 0)"

lemma dvd_add_pad_len: "0 < al \<Longrightarrow> al dvd n + pad_len n al"
proof (cases "n mod al = 0")
  case False
  assume "0 < al"
  then have "n mod al < al" by simp
  moreover have "n div al * al + n mod al = n" by simp
  moreover have "pad_len n al = al - n mod al" using False by (simp add: pad_len_def)
  ultimately have "n + pad_len n al = n div al * al + al" by linarith
  then show ?thesis by simp
qed (auto simp: pad_len_def)

lemma pad_len_less: "0 < al \<Longrightarrow> pad_len n al < al"
  by (simp add: pad_len_def Let_def)

section \<open>Copying into buffers\<close>

text \<open>\<open>memcpy (b + off, bs, length bs)\<close> on a buffer that holds the bytes written.\<close>

definition store_at :: "chunk \<Rightarrow> nat \<Rightarrow> chunk \<Rightarrow> chunk" where
  "store_at b off bs = take off b @ bs @ drop (off + length bs) b"

lemma length_store_at [simp]: "off + length bs \<le> length b \<Longrightarrow> length (store_at b off bs) = length b"
  by (simp add: store_at_def)

lemma nth_store_at:
  "i < length b \<Longrightarrow> off + length bs \<le> length b \<Longrightarrow>
     store_at b off bs ! i = (if off \<le> i \<and> i < off + length bs then bs ! (i - off) else b ! i)"
  by (auto simp: store_at_def nth_append min_def)

lemma take_store_at_0: "length bs \<le> length b \<Longrightarrow> take (length bs) (store_at b 0 bs) = bs"
  by (simp add: store_at_def)

lemma list_update_store_at: "i < length b \<Longrightarrow> b[i := v] = store_at b i [v]"
  by (simp add: store_at_def upd_conv_take_nth_drop)

section \<open>XOR of byte strings\<close>

text \<open>\<open>memxor (dst, src, n)\<close> on the first \<open>n\<close> bytes of the destination.\<close>

definition memxor :: "chunk \<Rightarrow> chunk \<Rightarrow> nat \<Rightarrow> chunk" where
  "memxor dst src n = map2 (XOR) (take n dst) (take n src) @ drop n dst"

lemma length_memxor [simp]: "n \<le> length src \<Longrightarrow> length (memxor dst src n) = length dst"
  by (simp add: memxor_def)

lemma map2_xor_xor: "length xs \<le> length ys \<Longrightarrow> map2 (XOR) (map2 (XOR) xs ys) ys = (xs :: chunk)"
proof (induction xs arbitrary: ys)
  case (Cons x xs)
  then show ?case by (cases ys) (simp_all add: xor.assoc)
qed simp

lemma memxor_memxor: "n \<le> length dst \<Longrightarrow> n \<le> length src \<Longrightarrow> memxor (memxor dst src n) src n = dst"
  by (simp add: memxor_def map2_xor_xor)

end
