(* ===== verification/Host.thy ===== *)
theory Host
  imports Prelude
begin

text \<open>
  IP addresses with a port, \<open>networking/host.c\<close>.  A host holds the family, the address in network
  order and the port as stored in the socket address, that is in network order.  The conversion of
  a printed address, \<open>inet_pton\<close> of the platform, is an argument of the functions that parse.
\<close>

section \<open>Hosts\<close>

datatype family = AF_UNSPEC | AF_INET | AF_INET6 | AF_OTHER nat

definition IPV4_LEN :: nat where "IPV4_LEN = 4"
definition IPV6_LEN :: nat where "IPV6_LEN = 16"

lemmas ip_len_defs = IPV4_LEN_def IPV6_LEN_def

record host =
  sa_family :: family
  sin_addr :: chunk
  sin_port :: u16

definition is_anyaddr :: "host \<Rightarrow> bool" where
  "is_anyaddr this = (case sa_family this of
       AF_INET \<Rightarrow> memeq (replicate IPV6_LEN 0) (sin_addr this) IPV4_LEN
     | AF_INET6 \<Rightarrow> memeq (replicate IPV6_LEN 0) (sin_addr this) IPV6_LEN
     | _ \<Rightarrow> False)"

definition get_address :: "host \<Rightarrow> chunk" where
  "get_address this = (case sa_family this of
       AF_INET \<Rightarrow> take IPV4_LEN (sin_addr this)
     | AF_INET6 \<Rightarrow> take IPV6_LEN (sin_addr this)
     | _ \<Rightarrow> [])"

definition get_family :: "host \<Rightarrow> family" where
  "get_family this = sa_family this"

definition get_port :: "host \<Rightarrow> u16" where
  "get_port this = (case sa_family this of
       AF_INET \<Rightarrow> ntohs (sin_port this) | AF_INET6 \<Rightarrow> ntohs (sin_port this) | _ \<Rightarrow> 0)"

definition set_port :: "host \<Rightarrow> u16 \<Rightarrow> host" where
  "set_port this port = (case sa_family this of
       AF_INET \<Rightarrow> this\<lparr>sin_port := htons port\<rparr>
     | AF_INET6 \<Rightarrow> this\<lparr>sin_port := htons port\<rparr>
     | _ \<Rightarrow> this)"

definition ip_equals :: "host \<Rightarrow> host \<Rightarrow> bool" where
  "ip_equals this other =
     (if sa_family this \<noteq> sa_family other then is_anyaddr this \<and> is_anyaddr other
      else case sa_family this of
          AF_INET \<Rightarrow> memeq (sin_addr this) (sin_addr other) 4
        | AF_INET6 \<Rightarrow> memeq (sin_addr this) (sin_addr other) 16
        | _ \<Rightarrow> False)"

definition host_equals :: "host \<Rightarrow> host \<Rightarrow> bool" where
  "host_equals this other =
     (if \<not> ip_equals this other then False
      else case sa_family this of
          AF_INET \<Rightarrow> sin_port this = sin_port other
        | AF_INET6 \<Rightarrow> sin_port this = sin_port other
        | _ \<Rightarrow> False)"

definition host_create_any :: "family \<Rightarrow> host option" where
  "host_create_any family = (case family of
       AF_INET \<Rightarrow> Some \<lparr>sa_family = AF_INET, sin_addr = replicate IPV4_LEN 0, sin_port = 0\<rparr>
     | AF_INET6 \<Rightarrow> Some \<lparr>sa_family = AF_INET6, sin_addr = replicate IPV6_LEN 0, sin_port = 0\<rparr>
     | _ \<Rightarrow> None)"

text \<open>
  The code sets the port of the result of \<open>host_create_any\<close> without checking it; for a family that is
  not supported it would follow a null pointer, where the model returns \<open>None\<close>.
\<close>

definition host_create_any_port :: "family \<Rightarrow> u16 \<Rightarrow> host option" where
  "host_create_any_port family port =
     map_option (\<lambda>this. set_port this port) (host_create_any family)"

definition host_create_from_chunk :: "family \<Rightarrow> chunk \<Rightarrow> u16 \<Rightarrow> host option" where
  "host_create_from_chunk family address port = (case family of
       AF_INET \<Rightarrow>
         if length address < IPV4_LEN then None
         else Some \<lparr>sa_family = AF_INET, sin_addr = take IPV4_LEN address, sin_port = htons port\<rparr>
     | AF_INET6 \<Rightarrow>
         if length address < IPV6_LEN then None
         else Some \<lparr>sa_family = AF_INET6, sin_addr = take IPV6_LEN address, sin_port = htons port\<rparr>
     | AF_UNSPEC \<Rightarrow>
         if length address = IPV4_LEN
         then Some \<lparr>sa_family = AF_INET, sin_addr = address, sin_port = htons port\<rparr>
         else if length address = IPV6_LEN
         then Some \<lparr>sa_family = AF_INET6, sin_addr = address, sin_port = htons port\<rparr>
         else None
     | _ \<Rightarrow> None)"

definition host_create_from_sockaddr :: "host \<Rightarrow> host option" where
  "host_create_from_sockaddr sockaddr = (case sa_family sockaddr of
       AF_INET \<Rightarrow> Some sockaddr | AF_INET6 \<Rightarrow> Some sockaddr | _ \<Rightarrow> None)"

definition host_create_netmask :: "family \<Rightarrow> int \<Rightarrow> host option" where
  "host_create_netmask family netbits =
     (let target = (\<lambda>n.
        let bytes = nat (netbits div 8);
            bits = 8 - nat (netbits mod 8);
            t = store_at (replicate n 0) 0 (replicate bytes 0xff)
        in if bytes < n
           then (store_at t bytes (replicate (n - bytes) 0)) [bytes := push_bit bits 0xff]
           else t)
      in case family of
          AF_INET \<Rightarrow> if netbits < 0 \<or> 32 < netbits then None
            else Some \<lparr>sa_family = AF_INET, sin_addr = target 4, sin_port = 0\<rparr>
        | AF_INET6 \<Rightarrow> if netbits < 0 \<or> 128 < netbits then None
            else Some \<lparr>sa_family = AF_INET6, sin_addr = target 16, sin_port = 0\<rparr>
        | _ \<Rightarrow> None)"

section \<open>Parsing\<close>

type_synonym inet_pton = "family \<Rightarrow> string \<Rightarrow> chunk option"

definition host_create_from_string_and_family ::
  "inet_pton \<Rightarrow> string \<Rightarrow> family \<Rightarrow> u16 \<Rightarrow> host option" where
  "host_create_from_string_and_family inet_pton s family port =
     (let v6 = (case inet_pton AF_INET6 s of None \<Rightarrow> None
                | Some a \<Rightarrow> host_create_from_sockaddr
                    \<lparr>sa_family = AF_INET6, sin_addr = a, sin_port = htons port\<rparr>);
          v4 = (case inet_pton AF_INET s of None \<Rightarrow> None
                | Some a \<Rightarrow> host_create_from_sockaddr
                    \<lparr>sa_family = AF_INET, sin_addr = a, sin_port = htons port\<rparr>)
      in if s = ''%any''
         then host_create_any_port (if family \<noteq> AF_UNSPEC then family else AF_INET) port
         else if (family = AF_UNSPEC \<or> family = AF_INET) \<and> (s = ''%any4'' \<or> s = ''0.0.0.0'')
         then host_create_any_port AF_INET port
         else if (family = AF_UNSPEC \<or> family = AF_INET6) \<and> (s = ''%any6'' \<or> s = ''::'')
         then host_create_any_port AF_INET6 port
         else case family of
             AF_UNSPEC \<Rightarrow> if CHR ''.'' \<in> set s then v4 else v6
           | AF_INET6 \<Rightarrow> v6
           | AF_INET \<Rightarrow> if CHR '':'' \<in> set s then None else v4
           | _ \<Rightarrow> None)"

definition host_create_from_string :: "inet_pton \<Rightarrow> string \<Rightarrow> u16 \<Rightarrow> host option" where
  "host_create_from_string inet_pton s port =
     host_create_from_string_and_family inet_pton s AF_UNSPEC port"

text \<open>The part before the first \<open>c\<close> and the part after it, as \<open>strchr\<close> finds them.\<close>

definition split_at_char :: "char \<Rightarrow> string \<Rightarrow> (string \<times> string) option" where
  "split_at_char c s = (if c \<in> set s
     then Some (takeWhile (\<lambda>x. x \<noteq> c) s, tl (dropWhile (\<lambda>x. x \<noteq> c) s)) else None)"

text \<open>
  The spaces before the separator are trimmed, but the first character of the string is always kept:
  if the separator comes first, \<open>pos\<close> is before the string and the copy is empty.
\<close>

definition trim_behind :: "string \<Rightarrow> string" where
  "trim_behind s = (case s of [] \<Rightarrow> [] | c # cs \<Rightarrow> c # rev (dropWhile (\<lambda>x. x = CHR '' '') (rev cs)))"

definition host_create_from_range :: "inet_pton \<Rightarrow> string \<Rightarrow> (host \<times> host) option" where
  "host_create_from_range inet_pton s = (case split_at_char (CHR ''-'') s of
       None \<Rightarrow> None
     | Some (pre, post) \<Rightarrow>
         (case host_create_from_string inet_pton (dropWhile (\<lambda>x. x = CHR '' '') post) 0 of
            None \<Rightarrow> None
          | Some to \<Rightarrow>
              (case host_create_from_string_and_family inet_pton (trim_behind pre) (get_family to) 0 of
                 None \<Rightarrow> None
               | Some from \<Rightarrow> Some (from, to))))"

text \<open>
  \<open>strtol\<close> with base 10: white space, a sign and digits.  The result is the value and what is left
  of the string, \<open>None\<close> if there are no digits.  The value is unbounded here; where \<open>strtol\<close> reports
  an overflow the caller rejects the number as too large, as it does here.
\<close>

definition is_digit :: "char \<Rightarrow> bool" where
  "is_digit c = (of_char c \<in> {48 .. 57 :: nat})"

fun digits_value :: "string \<Rightarrow> int \<Rightarrow> int" where
  "digits_value [] acc = acc"
| "digits_value (c # cs) acc = digits_value cs (10 * acc + (of_char c - 48))"

definition is_space :: "char \<Rightarrow> bool" where
  "is_space c = (c = CHR '' '' \<or> of_char c \<in> {9 .. 13 :: nat})"

definition strtol10 :: "string \<Rightarrow> (int \<times> string) option" where
  "strtol10 s = (
     let s = dropWhile is_space s;
         neg = (s \<noteq> [] \<and> hd s = CHR ''-'');
         s = (if s \<noteq> [] \<and> (hd s = CHR ''-'' \<or> hd s = CHR ''+'') then tl s else s);
         ds = takeWhile is_digit s
     in if ds = [] then None
        else Some (if neg then - digits_value ds 0 else digits_value ds 0, dropWhile is_digit s))"

definition host_create_from_subnet :: "inet_pton \<Rightarrow> string \<Rightarrow> (host \<times> int) option" where
  "host_create_from_subnet inet_pton s = (case split_at_char (CHR ''/'') s of
       Some (addr, len_str) \<Rightarrow>
         if length addr \<ge> 64 then None
         else (case strtol10 len_str of
            None \<Rightarrow> None
          | Some (netbits, rest) \<Rightarrow>
              if rest \<noteq> [] \<or> netbits < 0 \<or> netbits > 128 then None
              else (case host_create_from_string inet_pton addr 0 of
                 None \<Rightarrow> None
               | Some net \<Rightarrow> if get_family net = AF_INET \<and> netbits > 32 then None else Some (net, netbits)))
     | None \<Rightarrow> map_option (\<lambda>net. (net, if get_family net = AF_INET then 32 else 128))
                 (host_create_from_string inet_pton s 0))"

section \<open>Well-formed hosts\<close>

definition wf_host :: "host \<Rightarrow> bool" where
  "wf_host h \<longleftrightarrow> (sa_family h = AF_INET \<and> length (sin_addr h) = 4) \<or>
     (sa_family h = AF_INET6 \<and> length (sin_addr h) = 16)"

lemma wf_host_create_any: "host_create_any f = Some h \<Longrightarrow> wf_host h"
  by (auto simp: host_create_any_def wf_host_def ip_len_defs split: family.splits)

lemma wf_set_port [simp]: "wf_host (set_port h p) = wf_host h"
  by (simp add: set_port_def wf_host_def split: family.splits)

lemma wf_host_create_from_chunk: "host_create_from_chunk f a p = Some h \<Longrightarrow> wf_host h"
  by (auto simp: host_create_from_chunk_def wf_host_def ip_len_defs split: family.splits if_splits)

lemma wf_host_cases:
  assumes "wf_host h"
  obtains (v4) "sa_family h = AF_INET" "length (sin_addr h) = 4"
  | (v6) "sa_family h = AF_INET6" "length (sin_addr h) = 16"
  using assms by (auto simp: wf_host_def)

lemma get_address_wf: "wf_host h \<Longrightarrow> get_address h = sin_addr h"
  by (auto simp: wf_host_def get_address_def ip_len_defs)

lemma get_port_set_port: "wf_host h \<Longrightarrow> get_port (set_port h p) = p"
  by (auto simp: wf_host_def get_port_def set_port_def)

section \<open>Netmasks\<close>

lemma nat_of_be_replicate [simp]:
  "nat_of_be (replicate k 0) = 0" "nat_of_be (replicate k 0xff) = 256 ^ k - 1"
proof -
  show "nat_of_be (replicate k 0) = 0" by (induction k) simp_all
  have "nat_of_be (replicate k 0xff) + 1 = 256 ^ k" by (induction k) simp_all
  then show "nat_of_be (replicate k 0xff) = 256 ^ k - 1" by simp
qed

lemma unat_mask_byte: "r < 8 \<Longrightarrow> unat (push_bit (8 - r) 0xff :: byte) = 256 - 2 ^ (8 - r)"
proof -
  assume "r < 8"
  then consider "r = 0" | "r = 1" | "r = 2" | "r = 3" | "r = 4" | "r = 5" | "r = 6" | "r = 7" by linarith
  then show ?thesis by cases (simp_all add: push_bit_eq_mult)
qed

definition netmask_bytes :: "nat \<Rightarrow> nat \<Rightarrow> chunk" where
  "netmask_bytes len n = (if n div 8 < len
     then replicate (n div 8) 0xff @ push_bit (8 - n mod 8) 0xff # replicate (len - n div 8 - 1) 0
     else replicate len 0xff)"

lemma netmask_bytes_value:
  assumes "n \<le> 8 * len"
  shows "nat_of_be (netmask_bytes len n) = 2 ^ (8 * len) - 2 ^ (8 * len - n)"
proof (cases "n div 8 < len")
  case True
  define b r k where "b = n div 8" and "r = n mod 8" and "k = len - b - 1"
  have n: "n = 8 * b + r" and r: "r < 8" and len: "len = b + 1 + k"
    using True by (simp_all add: b_def r_def k_def)
  have sub: "8 * len - n = (8 - r) + 8 * k" using n r len by simp
  have p: "(256 :: nat) ^ m = 2 ^ (8 * m)" for m by (simp add: power_mult)
  have le: "2 ^ (8 - r) \<le> (256 :: nat)" using power_increasing [of "8 - r" 8 "2 :: nat"] by simp
  have "nat_of_be (netmask_bytes len n) =
      (256 ^ b - 1) * 256 ^ (k + 1) + (256 - 2 ^ (8 - r)) * 256 ^ k"
    using True r by (simp add: netmask_bytes_def b_def [symmetric] r_def [symmetric] k_def unat_mask_byte)
  also have "\<dots> = 256 ^ b * 256 ^ (k + 1) - 2 ^ (8 - r) * 256 ^ k"
    using le by (simp add: algebra_simps)
  also have "256 ^ b * 256 ^ (k + 1) = (2 :: nat) ^ (8 * len)"
    by (simp only: p power_add [symmetric]) (simp add: len algebra_simps)
  also have "2 ^ (8 - r) * 256 ^ k = (2 :: nat) ^ (8 * len - n)"
    by (simp only: p power_add [symmetric] sub)
  finally show ?thesis .
next
  case False
  then have "n = 8 * len" using assms by linarith
  then show ?thesis by (simp add: netmask_bytes_def power_mult)
qed

lemma replicate_update_0: "0 < m \<Longrightarrow> (replicate m x)[0 := v] = v # replicate (m - 1) x"
  by (cases m) simp_all

lemma host_create_netmask_bytes:
  assumes "0 \<le> n"
  shows "host_create_netmask family n = (case family of
      AF_INET \<Rightarrow> if 32 < n then None
        else Some \<lparr>sa_family = AF_INET, sin_addr = netmask_bytes 4 (nat n), sin_port = 0\<rparr>
    | AF_INET6 \<Rightarrow> if 128 < n then None
        else Some \<lparr>sa_family = AF_INET6, sin_addr = netmask_bytes 16 (nat n), sin_port = 0\<rparr>
    | _ \<Rightarrow> None)"
proof -
  have d: "nat (n div 8) = nat n div 8" "nat (n mod 8) = nat n mod 8"
    using assms by (simp_all add: nat_div_distrib nat_mod_distrib)
  have b: "nat n div 8 \<le> 4" if "n \<le> 32" using that by linarith
  have b': "nat n div 8 \<le> 16" if "n \<le> 128" using that by linarith
  show ?thesis using assms b b'
    by (auto simp: host_create_netmask_def Let_def d netmask_bytes_def store_at_def list_update_append
        replicate_update_0
        split: family.splits)
qed


end
