(* ===== verification/Traffic_Selector.thy ===== *)
theory Traffic_Selector
  imports Host "HOL-Library.Product_Lexorder"
begin

text \<open>
  Traffic selectors, \<open>selectors/traffic_selector.c\<close>: a range of addresses of one family, a protocol
  (0 for any) and a range of ports.  The addresses are kept in arrays of 16 bytes of which an IPv4
  selector uses the first four.  The results are stated about the ranges as intervals of numbers.
\<close>

section \<open>Selectors\<close>

datatype ts_type = TS_IPV4_ADDR_RANGE | TS_IPV6_ADDR_RANGE | TS_SECLABEL

definition NON_SUBNET_ADDRESS_RANGE :: byte where "NON_SUBNET_ADDRESS_RANGE = 255"

definition IPPROTO_ICMP :: byte where "IPPROTO_ICMP = 1"
definition IPPROTO_ICMPV6 :: byte where "IPPROTO_ICMPV6 = 58"

record traffic_selector =
  ts_type :: ts_type
  protocol :: byte
  dynamic :: bool
  netbits :: byte
  ts_from :: chunk
  ts_to :: chunk
  from_port :: u16
  to_port :: u16

definition TS_IP_LEN :: "traffic_selector \<Rightarrow> nat" where
  "TS_IP_LEN this = (if ts_type this = TS_IPV4_ADDR_RANGE then IPV4_LEN else IPV6_LEN)"

definition traffic_selector_create :: "byte \<Rightarrow> ts_type \<Rightarrow> u16 \<Rightarrow> u16 \<Rightarrow> traffic_selector option" where
  "traffic_selector_create prot type fp tp =
     (if type \<noteq> TS_IPV4_ADDR_RANGE \<and> type \<noteq> TS_IPV6_ADDR_RANGE then None
      else
        let this = \<lparr>ts_type = type, protocol = prot, dynamic = False, netbits = 0,
                    ts_from = replicate IPV6_LEN 0, ts_to = replicate IPV6_LEN 0,
                    from_port = fp, to_port = tp\<rparr>
        in Some (if prot = IPPROTO_ICMP \<or> prot = IPPROTO_ICMPV6
                 then this\<lparr>from_port := (if fp < 256 then push_bit 8 fp else fp),
                           to_port := (if tp < 256 then push_bit 8 tp else tp)\<rparr>
                 else this))"

definition calc_range :: "traffic_selector \<Rightarrow> byte \<Rightarrow> traffic_selector" where
  "calc_range this nb =
     (let this = this\<lparr>netbits := nb\<rparr>;
          len = TS_IP_LEN this;
          bytes = (unat nb + 7) div 8;
          bits = bytes * 8 - unat nb;
          mask = (if bits \<noteq> 0 then push_bit bits 1 - 1 else 0 :: byte);
          t = store_at (ts_to this) 0 (take bytes (ts_from this));
          f = store_at (ts_from this) bytes (replicate (len - bytes) 0x00);
          t = store_at t bytes (replicate (len - bytes) 0xff)
      in if bytes \<noteq> 0
         then this\<lparr>ts_from := f[bytes - 1 := (f ! (bytes - 1)) AND NOT mask],
                   ts_to := t[bytes - 1 := (t ! (bytes - 1)) OR mask]\<rparr>
         else this\<lparr>ts_from := f, ts_to := t\<rparr>)"

text \<open>
  The nested loops of \<open>calc_netbits\<close> over the bytes and, from the most significant, their bits.  The
  last two arguments are the local \<open>netbits\<close>, which is returned, and the field of the selector.
\<close>

fun netbits_loop :: "chunk \<Rightarrow> chunk \<Rightarrow> (nat \<times> nat) list \<Rightarrow> bool \<Rightarrow> byte \<Rightarrow> byte \<Rightarrow> byte \<times> byte" where
  "netbits_loop f t [] prefix nb this_nb = (nb, this_nb)"
| "netbits_loop f t ((byte, bt) # ps) prefix nb this_nb =
     (let bitmask = push_bit bt 1 in
      if prefix then
        if bitmask AND f ! byte \<noteq> bitmask AND t ! byte
        then let nb = of_nat ((7 - bt) + byte * 8) in netbits_loop f t ps False nb nb
        else netbits_loop f t ps prefix nb this_nb
      else
        if bitmask AND f ! byte \<noteq> 0 \<or> bitmask AND t ! byte = 0
        then (nb, NON_SUBNET_ADDRESS_RANGE)
        else netbits_loop f t ps prefix nb this_nb)"

definition calc_netbits :: "traffic_selector \<Rightarrow> byte \<times> traffic_selector" where
  "calc_netbits this =
     (let size = TS_IP_LEN this;
          nb = of_nat (size * 8);
          (nb, this_nb) = netbits_loop (ts_from this) (ts_to this)
             [(byte, bt). byte \<leftarrow> [0..<size], bt \<leftarrow> rev [0..<8]] True nb nb
      in (nb, this\<lparr>netbits := this_nb\<rparr>))"

definition is_opaque :: "traffic_selector \<Rightarrow> bool" where
  "is_opaque this = (from_port this = 0xffff \<and> to_port this = 0)"

definition is_any :: "traffic_selector \<Rightarrow> bool" where
  "is_any this = (from_port this = 0 \<and> to_port this = 0xffff)"

definition get_subset :: "traffic_selector \<Rightarrow> traffic_selector \<Rightarrow> traffic_selector option" where
  "get_subset this other =
     (if dynamic this \<or> dynamic other then None
      else if ts_type this \<noteq> ts_type other then None
      else if protocol this \<noteq> protocol other \<and> protocol this \<noteq> 0 \<and> protocol other \<noteq> 0 then None
      else
        let prot = max (protocol this) (protocol other);
            opaque = (is_opaque this \<and> is_opaque other) \<or> (is_opaque this \<and> is_any other) \<or>
                     (is_opaque other \<and> is_any this);
            fp = (if opaque then 0xffff else max (from_port this) (from_port other));
            tp = (if opaque then 0 else min (to_port this) (to_port other))
        in if \<not> opaque \<and> fp > tp then None
           else
             let size = TS_IP_LEN this;
                 f = (if memcmp (ts_from this) (ts_from other) size > 0 then ts_from this else ts_from other);
                 t = (if memcmp (ts_to this) (ts_to other) size > 0 then ts_to other else ts_to this)
             in if memcmp f t size > 0 then None
                else (case traffic_selector_create prot (ts_type this) fp tp of
                    None \<Rightarrow> None
                  | Some sub \<Rightarrow> Some (snd (calc_netbits (sub\<lparr>ts_from := f, ts_to := t\<rparr>)))))"

definition compare_int :: "int \<Rightarrow> int \<Rightarrow> int" where
  "compare_int a b = a - b"

primrec ts_type_val :: "ts_type \<Rightarrow> int" where
  "ts_type_val TS_IPV4_ADDR_RANGE = 7"
| "ts_type_val TS_IPV6_ADDR_RANGE = 8"
| "ts_type_val TS_SECLABEL = 10"

definition traffic_selector_cmp :: "traffic_selector \<Rightarrow> traffic_selector \<Rightarrow> int" where
  "traffic_selector_cmp a b =
     (let res = compare_int (ts_type_val (ts_type a)) (ts_type_val (ts_type b)) in
      if res \<noteq> 0 then res else
      let len = TS_IP_LEN a; res = memcmp (ts_from a) (ts_from b) len in
      if res \<noteq> 0 then res else
      let res = memcmp (ts_to b) (ts_to a) len in
      if res \<noteq> 0 then res else
      let res = compare_int (uint (protocol a)) (uint (protocol b)) in
      if res \<noteq> 0 then res else
      let res = compare_int (uint (from_port a)) (uint (from_port b)) in
      if res \<noteq> 0 then res else
      compare_int (uint (to_port b)) (uint (to_port a)))"

definition ts_equals :: "traffic_selector \<Rightarrow> traffic_selector \<Rightarrow> bool" where
  "ts_equals this other = (traffic_selector_cmp this other = 0)"

definition get_from_address :: "traffic_selector \<Rightarrow> chunk" where
  "get_from_address this = take (TS_IP_LEN this) (ts_from this)"

definition get_to_address :: "traffic_selector \<Rightarrow> chunk" where
  "get_to_address this = take (TS_IP_LEN this) (ts_to this)"

definition family_matches :: "traffic_selector \<Rightarrow> family \<Rightarrow> bool" where
  "family_matches this family =
     ((family = AF_INET \<and> ts_type this = TS_IPV4_ADDR_RANGE) \<or>
      (family = AF_INET6 \<and> ts_type this = TS_IPV6_ADDR_RANGE))"

definition is_host :: "traffic_selector \<Rightarrow> host option \<Rightarrow> bool" where
  "is_host this host = (case host of
       Some h \<Rightarrow>
         family_matches this (get_family h) \<and>
         (let addr = get_address h in
          memeq addr (ts_from this) (length addr) \<and> memeq addr (ts_to this) (length addr))
     | None \<Rightarrow> dynamic this \<or> memeq (ts_from this) (ts_to this) (TS_IP_LEN this))"

definition set_address :: "traffic_selector \<Rightarrow> host \<Rightarrow> traffic_selector" where
  "set_address this host =
     (let this = this\<lparr>ts_type := (if get_family host = AF_INET then TS_IPV4_ADDR_RANGE else TS_IPV6_ADDR_RANGE)\<rparr>;
          this = (if is_anyaddr host
            then this\<lparr>ts_from := replicate 16 0x00, ts_to := replicate 16 0xff, netbits := 0\<rparr>
            else let a = get_address host in
              this\<lparr>ts_from := store_at (ts_from this) 0 a, ts_to := store_at (ts_to this) 0 a,
                   netbits := of_nat (length a * 8)\<rparr>)
      in this\<lparr>dynamic := False\<rparr>)"

definition is_contained_in :: "traffic_selector \<Rightarrow> traffic_selector \<Rightarrow> bool" where
  "is_contained_in this other = (case get_subset this other of
       Some sub \<Rightarrow> ts_equals sub this | None \<Rightarrow> False)"

definition ts_includes :: "traffic_selector \<Rightarrow> host \<Rightarrow> bool" where
  "ts_includes this host =
     (family_matches this (get_family host) \<and>
      (let addr = get_address host in
       memcmp (ts_from this) addr (length addr) \<le> 0 \<and> memcmp (ts_to this) addr (length addr) \<ge> 0))"

text \<open>\<open>to_subnet\<close> returns its result, the network, the mask and the selector whose field it may set.\<close>

definition to_subnet :: "traffic_selector \<Rightarrow> bool \<times> host option \<times> byte \<times> traffic_selector" where
  "to_subnet this =
     (let (mask, this) = (if netbits this = NON_SUBNET_ADDRESS_RANGE then calc_netbits this
                          else (netbits this, this))
      in if ts_type this = TS_SECLABEL then (False, None, mask, this)
         else
           let family = (if ts_type this = TS_IPV4_ADDR_RANGE then AF_INET else AF_INET6);
               len = (if ts_type this = TS_IPV4_ADDR_RANGE then IPV4_LEN else IPV6_LEN);
               net = replicate len 0;
               nz = (unat mask + 7) div 8;
               net = (if mask \<noteq> 0
                 then let n = store_at net 0 (take nz (ts_from this))
                      in n[nz - 1 := (n ! (nz - 1)) AND push_bit (8 * nz - unat mask) 0xff]
                 else net);
               port = (if to_port this = from_port this then to_port this else 0)
           in (netbits this \<noteq> NON_SUBNET_ADDRESS_RANGE, host_create_from_chunk family net port, mask, this))"

definition ts_clone :: "traffic_selector \<Rightarrow> traffic_selector option" where
  "ts_clone this = (case traffic_selector_create (protocol this) (ts_type this) (from_port this) (to_port this) of
       None \<Rightarrow> None
     | Some c \<Rightarrow> let len = TS_IP_LEN this in
         Some (c\<lparr>netbits := netbits this, dynamic := dynamic this,
                 ts_from := store_at (ts_from c) 0 (take len (ts_from this)),
                 ts_to := store_at (ts_to c) 0 (take len (ts_to this))\<rparr>))"

definition traffic_selector_create_from_bytes ::
  "byte \<Rightarrow> ts_type \<Rightarrow> chunk \<Rightarrow> u16 \<Rightarrow> chunk \<Rightarrow> u16 \<Rightarrow> traffic_selector option" where
  "traffic_selector_create_from_bytes prot type f fp t tp =
     (case traffic_selector_create prot type fp tp of
        None \<Rightarrow> None
      | Some this \<Rightarrow>
          if length f \<noteq> length t \<or> length f \<noteq> TS_IP_LEN this then None
          else Some (snd (calc_netbits (this\<lparr>ts_from := store_at (ts_from this) 0 f, ts_to := store_at (ts_to this) 0 t\<rparr>))))"

definition traffic_selector_create_from_subnet ::
  "host \<Rightarrow> byte \<Rightarrow> byte \<Rightarrow> u16 \<Rightarrow> u16 \<Rightarrow> traffic_selector option" where
  "traffic_selector_create_from_subnet net nb prot fp tp =
     (case (case get_family net of AF_INET \<Rightarrow> Some TS_IPV4_ADDR_RANGE
              | AF_INET6 \<Rightarrow> Some TS_IPV6_ADDR_RANGE | _ \<Rightarrow> None) of
        None \<Rightarrow> None
      | Some type \<Rightarrow>
          (case traffic_selector_create prot type fp tp of
             None \<Rightarrow> None
           | Some this \<Rightarrow>
               let this = this\<lparr>ts_from := store_at (ts_from this) 0 (get_address net)\<rparr>
               in Some (calc_range this (min nb (of_nat (TS_IP_LEN this * 8))))))"

definition traffic_selector_create_from_string ::
  "inet_pton \<Rightarrow> byte \<Rightarrow> ts_type \<Rightarrow> string \<Rightarrow> u16 \<Rightarrow> string \<Rightarrow> u16 \<Rightarrow> traffic_selector option" where
  "traffic_selector_create_from_string inet_pton prot type from_addr fp to_addr tp =
     (case traffic_selector_create prot type fp tp of
        None \<Rightarrow> None
      | Some this \<Rightarrow>
          let family = (if type = TS_IPV4_ADDR_RANGE then AF_INET else AF_INET6)
          in (case (inet_pton family from_addr, inet_pton family to_addr) of
                (Some f, Some t) \<Rightarrow>
                  Some (snd (calc_netbits (this\<lparr>ts_from := store_at (ts_from this) 0 f, ts_to := store_at (ts_to this) 0 t\<rparr>)))
              | _ \<Rightarrow> None))"

definition traffic_selector_create_from_cidr ::
  "inet_pton \<Rightarrow> string \<Rightarrow> byte \<Rightarrow> u16 \<Rightarrow> u16 \<Rightarrow> traffic_selector option" where
  "traffic_selector_create_from_cidr inet_pton s prot fp tp =
     (case host_create_from_subnet inet_pton s of
        None \<Rightarrow> None
      | Some (net, bits) \<Rightarrow> traffic_selector_create_from_subnet net (of_int bits) prot fp tp)"

definition traffic_selector_create_dynamic :: "byte \<Rightarrow> u16 \<Rightarrow> u16 \<Rightarrow> traffic_selector option" where
  "traffic_selector_create_dynamic prot fp tp =
     map_option (\<lambda>this. this\<lparr>ts_from := replicate 16 0, ts_to := replicate 16 0xff, netbits := 0, dynamic := True\<rparr>)
       (traffic_selector_create prot TS_IPV4_ADDR_RANGE fp tp)"

section \<open>Selectors as sets\<close>

definition wf_ts :: "traffic_selector \<Rightarrow> bool" where
  "wf_ts ts \<longleftrightarrow> ts_type ts \<noteq> TS_SECLABEL \<and> length (ts_from ts) = 16 \<and> length (ts_to ts) = 16"

definition ts_lo :: "traffic_selector \<Rightarrow> nat" where
  "ts_lo ts = nat_of_be (get_from_address ts)"

definition ts_hi :: "traffic_selector \<Rightarrow> nat" where
  "ts_hi ts = nat_of_be (get_to_address ts)"

definition ts_matches :: "traffic_selector \<Rightarrow> ts_type \<Rightarrow> nat \<Rightarrow> byte \<Rightarrow> u16 \<Rightarrow> bool" where
  "ts_matches ts type addr prot port \<longleftrightarrow>
     type = ts_type ts \<and> ts_lo ts \<le> addr \<and> addr \<le> ts_hi ts \<and>
     (protocol ts = 0 \<or> protocol ts = prot) \<and> from_port ts \<le> port \<and> port \<le> to_port ts"

lemma TS_IP_LEN_le: "TS_IP_LEN ts \<le> 16"
  by (simp add: TS_IP_LEN_def ip_len_defs)

lemma memcmp_ts:
  assumes "wf_ts a" "wf_ts b" "ts_type a = ts_type b"
  shows "memcmp (ts_from a) (ts_from b) (TS_IP_LEN a) > 0 \<longleftrightarrow> ts_lo a > ts_lo b"
    and "memcmp (ts_from a) (ts_from b) (TS_IP_LEN a) = 0 \<longleftrightarrow> ts_lo a = ts_lo b"
    and "memcmp (ts_from a) (ts_from b) (TS_IP_LEN a) < 0 \<longleftrightarrow> ts_lo a < ts_lo b"
    and "memcmp (ts_to a) (ts_to b) (TS_IP_LEN a) > 0 \<longleftrightarrow> ts_hi a > ts_hi b"
    and "memcmp (ts_to a) (ts_to b) (TS_IP_LEN a) = 0 \<longleftrightarrow> ts_hi a = ts_hi b"
    and "memcmp (ts_to a) (ts_to b) (TS_IP_LEN a) < 0 \<longleftrightarrow> ts_hi a < ts_hi b"
    and "memcmp (ts_from a) (ts_to b) (TS_IP_LEN a) > 0 \<longleftrightarrow> ts_lo a > ts_hi b"
proof -
  have l: "TS_IP_LEN b = TS_IP_LEN a" using assms by (simp add: TS_IP_LEN_def)
  have w: "length (ts_from a) = 16" "length (ts_to a) = 16" "length (ts_from b) = 16" "length (ts_to b) = 16"
    using assms by (simp_all add: wf_ts_def)
  note i = nat_of_be_inject [of "take (TS_IP_LEN a) x" "take (TS_IP_LEN a) y" for x y]
  show "memcmp (ts_from a) (ts_from b) (TS_IP_LEN a) > 0 \<longleftrightarrow> ts_lo a > ts_lo b"
    "memcmp (ts_from a) (ts_from b) (TS_IP_LEN a) = 0 \<longleftrightarrow> ts_lo a = ts_lo b"
    "memcmp (ts_from a) (ts_from b) (TS_IP_LEN a) < 0 \<longleftrightarrow> ts_lo a < ts_lo b"
    "memcmp (ts_to a) (ts_to b) (TS_IP_LEN a) > 0 \<longleftrightarrow> ts_hi a > ts_hi b"
    "memcmp (ts_to a) (ts_to b) (TS_IP_LEN a) = 0 \<longleftrightarrow> ts_hi a = ts_hi b"
    "memcmp (ts_to a) (ts_to b) (TS_IP_LEN a) < 0 \<longleftrightarrow> ts_hi a < ts_hi b"
    "memcmp (ts_from a) (ts_to b) (TS_IP_LEN a) > 0 \<longleftrightarrow> ts_lo a > ts_hi b"
    using w TS_IP_LEN_le [of a]
    by (simp_all add: memcmp_prefix ts_lo_def ts_hi_def get_from_address_def get_to_address_def l i)
qed

lemma calc_netbits_fields [simp]:
  "ts_type (snd (calc_netbits ts)) = ts_type ts" "protocol (snd (calc_netbits ts)) = protocol ts"
  "dynamic (snd (calc_netbits ts)) = dynamic ts" "ts_from (snd (calc_netbits ts)) = ts_from ts"
  "ts_to (snd (calc_netbits ts)) = ts_to ts" "from_port (snd (calc_netbits ts)) = from_port ts"
  "to_port (snd (calc_netbits ts)) = to_port ts" "ts_lo (snd (calc_netbits ts)) = ts_lo ts"
  "ts_hi (snd (calc_netbits ts)) = ts_hi ts"
  by (simp_all add: calc_netbits_def Let_def ts_lo_def ts_hi_def get_from_address_def get_to_address_def
      TS_IP_LEN_def split: prod.splits)

text \<open>
  The constructor stores an ICMP type given as a number below 256 in the upper byte of the port.
  Ports that are 0 or at least 256 are stored as given.
\<close>

definition icmp_stable :: "traffic_selector \<Rightarrow> bool" where
  "icmp_stable ts \<longleftrightarrow> unat (from_port ts) \<notin> {1..<256} \<and> unat (to_port ts) \<notin> {1..<256}"

definition icmp_proto :: "byte \<Rightarrow> bool" where
  "icmp_proto p \<longleftrightarrow> p = IPPROTO_ICMP \<or> p = IPPROTO_ICMPV6"

definition compatible :: "traffic_selector \<Rightarrow> traffic_selector \<Rightarrow> bool" where
  "compatible a b \<longleftrightarrow> wf_ts a \<and> wf_ts b \<and> \<not> dynamic a \<and> \<not> dynamic b \<and>
     (icmp_proto (protocol a) \<or> icmp_proto (protocol b) \<longrightarrow> icmp_stable a \<and> icmp_stable b)"

lemma port_stable: "unat (p :: u16) \<notin> {1..<256} \<Longrightarrow> (if p < 256 then push_bit 8 p else p) = p"
proof -
  assume "unat p \<notin> {1..<256}"
  then have "p = 0 \<or> \<not> p < 256" by (auto simp: word_less_nat_alt unat_gt_0 Suc_le_eq)
  then show ?thesis by auto
qed

lemma traffic_selector_create_stable:
  assumes "type \<noteq> TS_SECLABEL" "icmp_proto prot \<Longrightarrow> unat fp \<notin> {1..<256} \<and> unat tp \<notin> {1..<256}"
  shows "traffic_selector_create prot type fp tp =
    Some \<lparr>ts_type = type, protocol = prot, dynamic = False, netbits = 0, ts_from = replicate IPV6_LEN 0,
          ts_to = replicate IPV6_LEN 0, from_port = fp, to_port = tp\<rparr>"
  using assms port_stable [of fp] port_stable [of tp]
  by (cases type; cases "icmp_proto prot")
    (simp_all add: traffic_selector_create_def icmp_proto_def)

section \<open>Intersection\<close>

definition opaque_result :: "traffic_selector \<Rightarrow> traffic_selector \<Rightarrow> bool" where
  "opaque_result a b \<longleftrightarrow> (is_opaque a \<and> is_opaque b) \<or> (is_opaque a \<and> is_any b) \<or> (is_opaque b \<and> is_any a)"

lemma get_subset_cases:
  assumes "compatible a b"
  shows "get_subset a b =
    (if ts_type a = ts_type b \<and> (protocol a = protocol b \<or> protocol a = 0 \<or> protocol b = 0) \<and>
        (opaque_result a b \<or> max (from_port a) (from_port b) \<le> min (to_port a) (to_port b)) \<and>
        max (ts_lo a) (ts_lo b) \<le> min (ts_hi a) (ts_hi b)
     then Some (snd (calc_netbits \<lparr>ts_type = ts_type a, protocol = max (protocol a) (protocol b),
        dynamic = False, netbits = 0,
        ts_from = (if ts_lo a > ts_lo b then ts_from a else ts_from b),
        ts_to = (if ts_hi a > ts_hi b then ts_to b else ts_to a),
        from_port = (if opaque_result a b then 0xffff else max (from_port a) (from_port b)),
        to_port = (if opaque_result a b then 0 else min (to_port a) (to_port b))\<rparr>))
     else None)"
proof (cases "ts_type a = ts_type b")
  case True
  note wf = assms [unfolded compatible_def]
  let ?fp = "if opaque_result a b then 0xffff else max (from_port a) (from_port b)"
  let ?tp = "if opaque_result a b then 0 else min (to_port a) (to_port b)"
  have "traffic_selector_create (max (protocol a) (protocol b)) (ts_type a) ?fp ?tp =
    Some \<lparr>ts_type = ts_type a, protocol = max (protocol a) (protocol b), dynamic = False, netbits = 0,
      ts_from = replicate IPV6_LEN 0, ts_to = replicate IPV6_LEN 0, from_port = ?fp, to_port = ?tp\<rparr>"
    using wf by (intro traffic_selector_create_stable)
      (auto simp: wf_ts_def icmp_stable_def max_def min_def split: if_splits)
  moreover have l: "TS_IP_LEN b = TS_IP_LEN a" using True by (simp add: TS_IP_LEN_def)
  moreover have "memcmp (if ts_lo a > ts_lo b then ts_from a else ts_from b)
      (if ts_hi a > ts_hi b then ts_to b else ts_to a) (TS_IP_LEN a) > 0 \<longleftrightarrow>
      \<not> max (ts_lo a) (ts_lo b) \<le> min (ts_hi a) (ts_hi b)"
    using wf True l memcmp_ts(7) [of a b] memcmp_ts(7) [of a a] memcmp_ts(7) [of b a] memcmp_ts(7) [of b b]
    by (simp add: max_def min_def not_le)
  moreover have "min (to_port a) (to_port b) < max (from_port a) (from_port b) \<longleftrightarrow>
      \<not> max (from_port a) (from_port b) \<le> min (to_port a) (to_port b)"
    by (simp only: not_le)
  ultimately show ?thesis
    using wf True by (simp only: get_subset_def Let_def memcmp_ts(1,4) opaque_result_def [symmetric])
      (simp del: min.bounded_iff max.bounded_iff cong: if_cong)
qed (simp add: get_subset_def)

lemma if_Some_eq: "(if c then Some x else None) = Some y \<longleftrightarrow> c \<and> y = x"
  by auto

lemma get_subset_Some:
  assumes "compatible a b" "get_subset a b = Some s"
  shows "wf_ts s" "\<not> dynamic s" "ts_type s = ts_type a" "ts_type b = ts_type a"
    "protocol s = max (protocol a) (protocol b)" "protocol a = protocol b \<or> protocol a = 0 \<or> protocol b = 0"
    "ts_lo s = max (ts_lo a) (ts_lo b)" "ts_hi s = min (ts_hi a) (ts_hi b)"
    "from_port s = (if opaque_result a b then 0xffff else max (from_port a) (from_port b))"
    "to_port s = (if opaque_result a b then 0 else min (to_port a) (to_port b))"
proof -
  have c: "ts_type a = ts_type b" "protocol a = protocol b \<or> protocol a = 0 \<or> protocol b = 0"
    and s: "s = snd (calc_netbits \<lparr>ts_type = ts_type a, protocol = max (protocol a) (protocol b),
        dynamic = False, netbits = 0,
        ts_from = (if ts_lo a > ts_lo b then ts_from a else ts_from b),
        ts_to = (if ts_hi a > ts_hi b then ts_to b else ts_to a),
        from_port = (if opaque_result a b then 0xffff else max (from_port a) (from_port b)),
        to_port = (if opaque_result a b then 0 else min (to_port a) (to_port b))\<rparr>)"
    using assms(2) unfolding get_subset_cases [OF assms(1)] if_Some_eq by blast+
  show "\<not> dynamic s" "ts_type s = ts_type a" "ts_type b = ts_type a"
    "protocol s = max (protocol a) (protocol b)" "protocol a = protocol b \<or> protocol a = 0 \<or> protocol b = 0"
    "from_port s = (if opaque_result a b then 0xffff else max (from_port a) (from_port b))"
    "to_port s = (if opaque_result a b then 0 else min (to_port a) (to_port b))"
    using c by (simp_all add: s)
  show "wf_ts s" using assms(1) by (simp add: s wf_ts_def compatible_def)
  show "ts_lo s = max (ts_lo a) (ts_lo b)" "ts_hi s = min (ts_hi a) (ts_hi b)"
    using c by (simp_all add: s ts_lo_def ts_hi_def get_from_address_def get_to_address_def
        TS_IP_LEN_def max_def min_def)
qed

lemma u16_le_ffff: "(p :: u16) \<le> 0xffff"
  using unat_word_less(1) [of p] by (simp add: word_le_nat_alt)

lemma port_interval:
  "(if opaque_result a b then 0xffff else max (from_port a) (from_port b)) \<le> p \<and>
   p \<le> (if opaque_result a b then 0 else min (to_port a) (to_port b)) \<longleftrightarrow>
   from_port a \<le> p \<and> p \<le> to_port a \<and> from_port b \<le> p \<and> p \<le> to_port b"
proof (cases "opaque_result a b")
  case True
  have "\<not> (0xffff \<le> p \<and> p \<le> 0)" for p :: u16 by auto
  with True show ?thesis by (auto simp: opaque_result_def is_opaque_def is_any_def)
qed auto

lemma protocol_max:
  "protocol a = protocol b \<or> protocol a = 0 \<or> protocol b = 0 \<Longrightarrow>
   (max (protocol a) (protocol b) = 0 \<or> max (protocol a) (protocol b) = q) \<longleftrightarrow>
   (protocol a = 0 \<or> protocol a = q) \<and> (protocol b = 0 \<or> protocol b = q)"
  by (auto simp: max_def)

lemma get_subset_matches:
  assumes "compatible a b" "get_subset a b = Some s"
  shows "ts_matches s type addr prot port \<longleftrightarrow>
    ts_matches a type addr prot port \<and> ts_matches b type addr prot port"
  using port_interval [of a b port] protocol_max [of a b prot] get_subset_Some [OF assms]
  unfolding ts_matches_def by (simp only:) auto

lemma get_subset_None:
  assumes "compatible a b" "get_subset a b = None"
  shows "\<not> (ts_matches a type addr prot port \<and> ts_matches b type addr prot port)"
proof
  assume m: "ts_matches a type addr prot port \<and> ts_matches b type addr prot port"
  then have "from_port a \<le> to_port a" "from_port a \<le> to_port b" "from_port b \<le> to_port a"
    "from_port b \<le> to_port b" by (auto simp: ts_matches_def)
  with m assms show False by (auto simp: get_subset_cases ts_matches_def split: if_splits)
qed


definition example_ts :: "byte \<Rightarrow> traffic_selector" where
  "example_ts b = \<lparr>ts_type = TS_IPV4_ADDR_RANGE, protocol = 0, dynamic = False, netbits = 8,
     ts_from = [10, 0, 0, 0] @ replicate 12 0, ts_to = [10, b, 255, 255] @ replicate 12 0,
     from_port = 0, to_port = 65535\<rparr>"

definition example_ts16 :: traffic_selector where
  "example_ts16 = example_ts 0"

definition example_ts8 :: traffic_selector where
  "example_ts8 = example_ts 255"

lemma example_simps:
  "compatible example_ts16 example_ts8" "wf_ts example_ts16" "wf_ts example_ts8"
  "ts_lo example_ts16 \<le> ts_hi example_ts16" "ts_type example_ts16 = TS_IPV4_ADDR_RANGE"
  "from_port example_ts16 \<le> to_port example_ts16" "TS_IP_LEN example_ts16 = 4"
  by (simp_all add: example_ts16_def example_ts8_def example_ts_def compatible_def wf_ts_def icmp_proto_def
      IPPROTO_ICMP_def IPPROTO_ICMPV6_def ts_lo_def ts_hi_def get_from_address_def get_to_address_def
      TS_IP_LEN_def ip_len_defs)


section \<open>Order and equality\<close>

definition ts_key :: "traffic_selector \<Rightarrow> int \<times> int \<times> int \<times> int \<times> int \<times> int" where
  "ts_key ts = (ts_type_val (ts_type ts), int (ts_lo ts), - int (ts_hi ts), uint (protocol ts),
     uint (from_port ts), - uint (to_port ts))"

lemma ts_type_val_inject: "ts_type_val x = ts_type_val y \<longleftrightarrow> x = y"
  by (cases x; cases y) simp_all

lemma lex_less: "((x1 :: int, y1) < (x2, y2)) \<longleftrightarrow> x1 < x2 \<or> x1 = x2 \<and> y1 < y2"
  by auto

lemma first_nonzero:
  "(if r \<noteq> 0 then r else s) < 0 \<longleftrightarrow> r < 0 \<or> r = 0 \<and> s < (0 :: int)"
  "(if r \<noteq> 0 then r else s) = 0 \<longleftrightarrow> r = 0 \<and> s = (0 :: int)"
  by auto

lemma traffic_selector_cmp_key:
  assumes "wf_ts a" "wf_ts b"
  shows "traffic_selector_cmp a b < 0 \<longleftrightarrow> ts_key a < ts_key b"
    and "traffic_selector_cmp a b = 0 \<longleftrightarrow> ts_key a = ts_key b"
proof -
  have *: "ts_type a = ts_type b \<Longrightarrow> TS_IP_LEN a = TS_IP_LEN b" by (simp add: TS_IP_LEN_def)
  show "traffic_selector_cmp a b < 0 \<longleftrightarrow> ts_key a < ts_key b"
  proof (cases "ts_type a = ts_type b")
    case True
    with assms show ?thesis
      using memcmp_ts [OF assms True] memcmp_ts [OF assms(2,1) True [symmetric]] * [OF True]
      by (simp add: traffic_selector_cmp_def ts_key_def compare_int_def Let_def lex_less first_nonzero
          del: less_prod_simp if_cancel)
  qed (simp add: traffic_selector_cmp_def ts_key_def compare_int_def ts_type_val_inject lex_less
      del: less_prod_simp)
  show "traffic_selector_cmp a b = 0 \<longleftrightarrow> ts_key a = ts_key b"
  proof (cases "ts_type a = ts_type b")
    case True
    with assms show ?thesis
      using memcmp_ts [OF assms True] memcmp_ts [OF assms(2,1) True [symmetric]] * [OF True]
      by (simp add: traffic_selector_cmp_def ts_key_def compare_int_def Let_def first_nonzero
          eq_commute [of "ts_hi b"] eq_commute [of "uint (to_port b)"])
  qed (simp add: traffic_selector_cmp_def ts_key_def compare_int_def ts_type_val_inject)
qed

lemma cmp_eq_0_iff:
  assumes "wf_ts a" "wf_ts b"
  shows "traffic_selector_cmp a b = 0 \<longleftrightarrow> ts_type a = ts_type b \<and>
       get_from_address a = get_from_address b \<and> get_to_address a = get_to_address b \<and>
       protocol a = protocol b \<and> from_port a = from_port b \<and> to_port a = to_port b"
proof (cases "ts_type a = ts_type b")
  case True
  then have "TS_IP_LEN a = TS_IP_LEN b" by (simp add: TS_IP_LEN_def)
  then have "ts_lo a = ts_lo b \<longleftrightarrow> get_from_address a = get_from_address b"
    "ts_hi a = ts_hi b \<longleftrightarrow> get_to_address a = get_to_address b"
    using assms by (auto simp: ts_lo_def ts_hi_def get_from_address_def get_to_address_def wf_ts_def
        nat_of_be_inject)
  with True show ?thesis by (auto simp: traffic_selector_cmp_key [OF assms] ts_key_def word_uint_eq_iff)
qed (auto simp: traffic_selector_cmp_key [OF assms] ts_key_def ts_type_val_inject)

text \<open>
  C11.  \<open>traffic_selector_cmp\<close> is a total order on selectors: antisymmetric, transitive, and zero only
  for selectors of the same type, addresses, protocol and ports.  Sorted lists of selectors are thus
  well defined.
\<close>

theorem traffic_selector_cmp_order:
  assumes "wf_ts a" "wf_ts b" "wf_ts c"
  shows "(traffic_selector_cmp a b < 0 \<longleftrightarrow> 0 < traffic_selector_cmp b a) \<and>
    (traffic_selector_cmp a b \<le> 0 \<and> traffic_selector_cmp b c \<le> 0 \<longrightarrow> traffic_selector_cmp a c \<le> 0) \<and>
    (traffic_selector_cmp a b = 0 \<longleftrightarrow> ts_type a = ts_type b \<and>
       get_from_address a = get_from_address b \<and> get_to_address a = get_to_address b \<and>
       protocol a = protocol b \<and> from_port a = from_port b \<and> to_port a = to_port b)"
proof (intro conjI)
  have le: "traffic_selector_cmp x y \<le> 0 \<longleftrightarrow> ts_key x \<le> ts_key y" if "wf_ts x" "wf_ts y" for x y
    using traffic_selector_cmp_key [OF that] by (simp only: order.order_iff_strict)
  show "traffic_selector_cmp a b < 0 \<longleftrightarrow> 0 < traffic_selector_cmp b a"
    using traffic_selector_cmp_key(1) [OF assms(1,2)] le [OF assms(2,1)] by (simp only: not_le [symmetric])
  show "traffic_selector_cmp a b \<le> 0 \<and> traffic_selector_cmp b c \<le> 0 \<longrightarrow> traffic_selector_cmp a c \<le> 0"
    unfolding le [OF assms(1,2)] le [OF assms(2,3)] le [OF assms(1,3)] by (blast intro: order_trans)
  show "traffic_selector_cmp a b = 0 \<longleftrightarrow> ts_type a = ts_type b \<and>
       get_from_address a = get_from_address b \<and> get_to_address a = get_to_address b \<and>
       protocol a = protocol b \<and> from_port a = from_port b \<and> to_port a = to_port b"
    by (simp add: cmp_eq_0_iff assms)
qed

theorem traffic_selector_cmp_order_witness:
  "(traffic_selector_cmp example_ts16 example_ts8 < 0 \<longleftrightarrow> 0 < traffic_selector_cmp example_ts8 example_ts16) \<and>
   traffic_selector_cmp example_ts16 example_ts16 = 0"
  using traffic_selector_cmp_order [of example_ts16 example_ts8 example_ts8]
    traffic_selector_cmp_order [of example_ts16 example_ts16 example_ts16] example_simps by simp

section \<open>Containment\<close>

lemma ts_equals_iff:
  "wf_ts a \<Longrightarrow> wf_ts b \<Longrightarrow> ts_equals a b \<longleftrightarrow> ts_key a = ts_key b"
  by (simp add: ts_equals_def traffic_selector_cmp_key)

lemma ts_key_matches: "ts_key a = ts_key b \<Longrightarrow> ts_matches a = ts_matches b"
  by (auto simp: ts_key_def ts_matches_def ts_type_val_inject fun_eq_iff word_uint_eq_iff word_le_def)

definition ts_nonempty :: "traffic_selector \<Rightarrow> bool" where
  "ts_nonempty ts \<longleftrightarrow> ts_lo ts \<le> ts_hi ts \<and> from_port ts \<le> to_port ts"

lemma included_fields:
  assumes "ts_nonempty a"
    "\<And>type addr prot port. ts_matches a type addr prot port \<Longrightarrow> ts_matches b type addr prot port"
  shows "ts_type a = ts_type b" "ts_lo b \<le> ts_lo a" "ts_hi a \<le> ts_hi b" "from_port b \<le> from_port a"
    "to_port a \<le> to_port b" "protocol b = 0 \<or> protocol a = protocol b"
proof -
  have lo: "ts_matches b (ts_type a) (ts_lo a) (protocol a) (from_port a)"
    and hi: "ts_matches b (ts_type a) (ts_hi a) (protocol a) (to_port a)"
    using assms by (auto simp: ts_matches_def ts_nonempty_def)
  then show "ts_type a = ts_type b" "ts_lo b \<le> ts_lo a" "ts_hi a \<le> ts_hi b" "from_port b \<le> from_port a"
    "to_port a \<le> to_port b" "protocol b = 0 \<or> protocol a = protocol b"
    by (auto simp: ts_matches_def)
qed

lemma included_is_contained:
  assumes "compatible a b" "ts_nonempty a"
    "\<And>type addr prot port. ts_matches a type addr prot port \<Longrightarrow> ts_matches b type addr prot port"
  shows "is_contained_in a b"
proof -
  note inc = included_fields [OF assms(2,3)]
  have no: "\<not> opaque_result a b"
    using assms(2) inc by (auto simp: opaque_result_def is_opaque_def is_any_def ts_nonempty_def)
  have "get_subset a b \<noteq> None"
    using assms(2) get_subset_None [OF assms(1), of "ts_type a" "ts_lo a" "protocol a" "from_port a"] assms(3)
    by (auto simp: ts_matches_def ts_nonempty_def)
  then obtain s where s: "get_subset a b = Some s" by auto
  have "max (protocol a) (protocol b) = protocol a" using inc(6) by (auto simp: max_def)
  then have "ts_key s = ts_key a"
    using get_subset_Some(3,5,7-10) [OF assms(1) s] no inc(2-5)
    by (simp add: ts_key_def max_absorb1 min_absorb1)
  then show ?thesis
    using s assms(1) get_subset_Some(1) [OF assms(1) s]
    by (simp add: is_contained_in_def ts_equals_iff compatible_def)
qed



section \<open>Subnets\<close>

definition bit_pos :: "nat \<Rightarrow> nat \<Rightarrow> nat \<times> nat" where
  "bit_pos len p = (len - 1 - p div 8, p mod 8)"

lemma loop_positions:
  assumes "len = 4 \<or> len = 16"
  shows "[(byte, bt). byte \<leftarrow> [0..<len], bt \<leftarrow> rev [0..<8]] = map (bit_pos len) (rev [0..<8 * len])"
  using assms by (elim disjE) (simp_all add: bit_pos_def upt_rec)

lemma mask_bit:
  fixes x y :: byte
  assumes "n < 8"
  shows "push_bit n 1 AND x \<noteq> push_bit n 1 AND y \<longleftrightarrow> bit x n \<noteq> bit y n"
    and "push_bit n 1 AND x = 0 \<longleftrightarrow> \<not> bit x n"
proof -
  have m: "push_bit n 1 AND x = (if bit x n then push_bit n 1 else 0)" for x :: byte
    by (rule bit_word_eqI) (auto simp: bit_simps)
  have "push_bit n 1 \<noteq> (0 :: byte)" using assms by simp
  then show "push_bit n 1 AND x \<noteq> push_bit n 1 AND y \<longleftrightarrow> bit x n \<noteq> bit y n"
    "push_bit n 1 AND x = 0 \<longleftrightarrow> \<not> bit x n" unfolding m by auto
qed

lemma netbits_loop_bit:
  assumes "length f \<ge> len" "length t \<ge> len" "p < 8 * len"
  shows "netbits_loop f t (bit_pos len p # ps) prefix nb tn =
    (let f_p = bit (nat_of_be (take len f)) p; t_p = bit (nat_of_be (take len t)) p in
     if prefix then
       if f_p \<noteq> t_p
       then netbits_loop f t ps False (of_nat (8 * len - 1 - p)) (of_nat (8 * len - 1 - p))
       else netbits_loop f t ps prefix nb tn
     else if f_p \<or> \<not> t_p then (nb, NON_SUBNET_ADDRESS_RANGE)
     else netbits_loop f t ps prefix nb tn)"
proof -
  have b: "bit (x ! (len - 1 - p div 8)) (p mod 8) \<longleftrightarrow> bit (nat_of_be (take len x)) p"
    if "length x \<ge> len" for x
  proof -
    have "len - Suc (p div 8) < len" using assms(3) by (cases len) simp_all
    with that assms(3) show ?thesis by (simp add: bit_nat_of_be min_absorb2)
  qed
  have "p div 8 < len" using assms(3) by (simp add: div_less_iff_less_mult)
  then obtain e where "len = p div 8 + 1 + e" using less_imp_Suc_add by fastforce
  moreover have "p = 8 * (p div 8) + p mod 8" "p mod 8 < 8" by simp_all
  ultimately have n: "7 - p mod 8 + (len - 1 - p div 8) * 8 = 8 * len - 1 - p" by linarith
  have m8: "p mod 8 < 8" by simp
  show ?thesis
    unfolding bit_pos_def netbits_loop.simps Let_def mask_bit [OF m8] b [OF assms(1)] b [OF assms(2)] n
    by simp
qed

lemma netbits_loop_tail:
  assumes "length f \<ge> len" "length t \<ge> len" "m \<le> 8 * len"
  shows "netbits_loop f t (map (bit_pos len) (rev [0..<m])) False nb tn =
    (nb, if \<forall>p<m. \<not> bit (nat_of_be (take len f)) p \<and> bit (nat_of_be (take len t)) p then tn
         else NON_SUBNET_ADDRESS_RANGE)"
  using assms(3)
proof (induction m)
  case (Suc m)
  then show ?case
    using netbits_loop_bit [OF assms(1,2), of m "map (bit_pos len) (rev [0..<m])" False nb tn]
    by (auto simp: less_Suc_eq Let_def)
qed simp

lemma netbits_loop_prefix:
  fixes len f t
  defines "F \<equiv> nat_of_be (take len f)" and "T \<equiv> nat_of_be (take len t)"
  assumes "length f \<ge> len" "length t \<ge> len" "m \<le> 8 * len"
  shows "(\<forall>p<m. bit F p = bit T p) \<and>
      netbits_loop f t (map (bit_pos len) (rev [0..<m])) True nb tn = (nb, tn) \<or>
    (\<exists>d<m. bit F d \<noteq> bit T d \<and> (\<forall>p. d < p \<and> p < m \<longrightarrow> bit F p = bit T p) \<and>
      netbits_loop f t (map (bit_pos len) (rev [0..<m])) True nb tn =
        (of_nat (8 * len - 1 - d),
         if \<forall>p<d. \<not> bit F p \<and> bit T p then of_nat (8 * len - 1 - d) else NON_SUBNET_ADDRESS_RANGE))"
  using assms(5)
proof (induction m)
  case (Suc m)
  then have m: "m < 8 * len" by simp
  note step = netbits_loop_bit [OF assms(3,4) m, of "map (bit_pos len) (rev [0..<m])" True nb tn, folded F_def T_def]
  show ?case
  proof (cases "bit F m = bit T m")
    case True
    then have e: "netbits_loop f t (map (bit_pos len) (rev [0..<Suc m])) True nb tn =
        netbits_loop f t (map (bit_pos len) (rev [0..<m])) True nb tn"
      using step by (simp add: Let_def)
    have q: "(\<forall>p<Suc m. bit F p = bit T p) \<longleftrightarrow> (\<forall>p<m. bit F p = bit T p)"
      "\<And>d. (\<forall>p. d < p \<and> p < Suc m \<longrightarrow> bit F p = bit T p) \<longleftrightarrow> (\<forall>p. d < p \<and> p < m \<longrightarrow> bit F p = bit T p)"
      using True by (auto simp: less_Suc_eq)
    show ?thesis unfolding e q using Suc.IH [OF less_imp_le [OF m]] by (blast intro: less_SucI)
  next
    case False
    have "netbits_loop f t (map (bit_pos len) (rev [0..<Suc m])) True nb tn =
        netbits_loop f t (map (bit_pos len) (rev [0..<m])) False (of_nat (8 * len - 1 - m)) (of_nat (8 * len - 1 - m))"
      using False step by (simp add: Let_def del: of_nat_diff)
    then have "netbits_loop f t (map (bit_pos len) (rev [0..<Suc m])) True nb tn =
        (of_nat (8 * len - 1 - m),
         if \<forall>p<m. \<not> bit F p \<and> bit T p then of_nat (8 * len - 1 - m) else NON_SUBNET_ADDRESS_RANGE)"
      using m by (simp only: netbits_loop_tail [OF assms(3,4) less_imp_le] F_def T_def)
    with False show ?thesis by (intro disjI2 exI [of _ m]) (auto simp del: of_nat_diff upt_Suc)
  qed
qed simp

definition is_subnet :: "nat \<Rightarrow> nat \<Rightarrow> nat \<Rightarrow> bool" where
  "is_subnet F T k \<longleftrightarrow> 2 ^ k dvd F \<and> T = F + 2 ^ k - 1"

lemma div_exp_eq_iff: "F div 2 ^ k = T div 2 ^ k \<longleftrightarrow> (\<forall>p\<ge>k. bit F p = bit (T :: nat) p)"
proof -
  have "F div 2 ^ k = T div 2 ^ k \<longleftrightarrow> drop_bit k F = drop_bit k T" by (simp add: drop_bit_eq_div)
  also have "\<dots> \<longleftrightarrow> (\<forall>p. bit F (k + p) = bit T (k + p))"
    by (simp add: bit_eq_iff bit_drop_bit_eq)
  finally show ?thesis by (metis le_Suc_ex le_add1)
qed

lemma is_subnet_iff:
  assumes "F div 2 ^ k = T div 2 ^ k"
  shows "is_subnet F T k \<longleftrightarrow> (\<forall>p<k. \<not> bit F p \<and> bit (T :: nat) p)"
proof -
  have T: "T = T div 2 ^ k * 2 ^ k + T mod 2 ^ k" and F: "F = F div 2 ^ k * 2 ^ k + F mod 2 ^ k"
    by (rule div_mult_mod_eq [symmetric])+
  have one: "1 \<le> (2 :: nat) ^ k" by simp
  have "T = F + 2 ^ k - 1 \<longleftrightarrow> T mod 2 ^ k = 2 ^ k - 1" if "F mod 2 ^ k = 0"
  proof -
    have "T = F + T mod 2 ^ k" by (metis T F assms that add_0_right)
    moreover have "F + 2 ^ k - 1 = F + (2 ^ k - 1)" using one by linarith
    ultimately show ?thesis by (metis add_left_cancel)
  qed
  then have "is_subnet F T k \<longleftrightarrow> F mod 2 ^ k = 0 \<and> T mod 2 ^ k = 2 ^ k - 1"
    unfolding is_subnet_def dvd_eq_mod_eq_0 by (simp cong: conj_cong)
  also have "\<dots> \<longleftrightarrow> take_bit k F = 0 \<and> take_bit k T = mask k"
    by (simp add: take_bit_eq_mod mask_eq_exp_minus_1)
  also have "\<dots> \<longleftrightarrow> (\<forall>p<k. \<not> bit F p \<and> bit T p)"
    by (auto simp: bit_eq_iff bit_take_bit_iff bit_mask_iff)
  finally show ?thesis .
qed

lemma first_difference:
  fixes F T :: nat
  assumes "F \<le> T" "bit F d \<noteq> bit T d" "\<And>p. d < p \<Longrightarrow> bit F p = bit T p"
  shows "\<not> bit F d \<and> bit T d"
proof -
  have "F div 2 ^ d \<le> T div 2 ^ d" using assms(1) by (rule div_le_mono)
  moreover have "F div 2 ^ d div 2 = T div 2 ^ d div 2"
    using assms(3) div_exp_eq_iff [of F "Suc d" T] by (simp add: div_mult2_eq [symmetric] mult.commute Suc_le_eq)
  moreover have "x \<le> y \<Longrightarrow> x div 2 = y div 2 \<Longrightarrow> odd x \<noteq> odd y \<Longrightarrow> even x \<and> odd y" for x y :: nat
    by presburger
  ultimately show ?thesis using assms(2) unfolding bit_iff_odd by simp
qed

lemma TS_IP_LEN_cases: "TS_IP_LEN ts = 4 \<or> TS_IP_LEN ts = 16"
  by (simp add: TS_IP_LEN_def ip_len_defs)

lemma calc_netbits_spec:
  fixes ts
  defines "L \<equiv> 8 * TS_IP_LEN ts"
  assumes "wf_ts ts" "ts_lo ts \<le> ts_hi ts"
  shows "\<exists>n\<le>L. ts_lo ts div 2 ^ (L - n) = ts_hi ts div 2 ^ (L - n) \<and>
    (\<forall>j<L - n. ts_lo ts div 2 ^ j \<noteq> ts_hi ts div 2 ^ j) \<and>
    calc_netbits ts = (of_nat n,
      ts\<lparr>netbits := (if is_subnet (ts_lo ts) (ts_hi ts) (L - n) then of_nat n else NON_SUBNET_ADDRESS_RANGE)\<rparr>)"
proof -
  let ?F = "ts_lo ts" and ?T = "ts_hi ts" and ?len = "TS_IP_LEN ts"
  have lens: "?len \<le> length (ts_from ts)" "?len \<le> length (ts_to ts)"
    using assms(2) TS_IP_LEN_le [of ts] by (simp_all add: wf_ts_def)
  have above: "\<not> bit ?F p" "\<not> bit ?T p" if "L \<le> p" for p
    using that lens by (simp_all add: ts_lo_def ts_hi_def get_from_address_def get_to_address_def
        bit_nat_of_be L_def min_absorb2)
  define loop where "loop = netbits_loop (ts_from ts) (ts_to ts) (map (bit_pos ?len) (rev [0..<L])) True (of_nat L) (of_nat L)"
  have c: "calc_netbits ts = (fst loop, ts\<lparr>netbits := snd loop\<rparr>)"
    using loop_positions [OF TS_IP_LEN_cases [of ts]]
    by (simp add: calc_netbits_def loop_def L_def Let_def mult.commute split: prod.splits)
  note cases = netbits_loop_prefix [OF lens, of L "of_nat L" "of_nat L", folded loop_def,
      unfolded L_def, OF order_refl, folded L_def get_from_address_def get_to_address_def ts_lo_def ts_hi_def]
  from cases show ?thesis
  proof (elim disjE conjE exE)
    assume eq: "\<forall>p<L. bit ?F p = bit ?T p" and l: "loop = (of_nat L, of_nat L)"
    then have "bit ?F p = bit ?T p" for p using above [of p] by (cases "p < L") auto
    then have "?F = ?T" by (simp add: bit_eq_iff)
    with l c show ?thesis by (intro exI [of _ L]) (simp add: is_subnet_def)
  next
    fix d
    assume d: "d < L" "bit ?F d \<noteq> bit ?T d" "\<forall>p. d < p \<and> p < L \<longrightarrow> bit ?F p = bit ?T p"
      and l: "loop = (of_nat (L - 1 - d),
         if \<forall>p<d. \<not> bit ?F p \<and> bit ?T p then of_nat (L - 1 - d) else NON_SUBNET_ADDRESS_RANGE)"
    have eq: "bit ?F p = bit ?T p" if "d < p" for p using that d(3) above [of p] by (cases "p < L") auto
    have sub: "L - (L - Suc d) = Suc d" using d(1) by simp
    have agree: "?F div 2 ^ Suc d = ?T div 2 ^ Suc d" unfolding div_exp_eq_iff using eq by (simp add: Suc_le_eq)
    have "is_subnet ?F ?T (Suc d) \<longleftrightarrow> (\<forall>p<d. \<not> bit ?F p \<and> bit ?T p)"
      using is_subnet_iff [OF agree] first_difference [OF assms(3) d(2) eq] by (auto simp: less_Suc_eq)
    moreover have "\<forall>j<Suc d. ?F div 2 ^ j \<noteq> ?T div 2 ^ j" using d(2) by (auto simp: div_exp_eq_iff less_Suc_eq_le)
    ultimately show ?thesis using agree l c
      by (intro exI [of _ "L - 1 - d"]) (simp add: sub del: of_nat_diff power_Suc)
  qed
qed

text \<open>
  C13.  \<open>calc_netbits\<close> computes the longest common prefix of the two ends of a range, and records it
  as a subnet exactly if the range is one: if the range has \<open>2 ^ k\<close> addresses and starts at a multiple
  of \<open>2 ^ k\<close>, where \<open>k\<close> is the number of remaining bits.
\<close>

theorem calc_netbits_exact:
  assumes "wf_ts ts" "ts_lo ts \<le> ts_hi ts"
  shows "case calc_netbits ts of (n, ts') \<Rightarrow>
    let k = 8 * TS_IP_LEN ts - unat n in
    ts_lo ts div 2 ^ k = ts_hi ts div 2 ^ k \<and>
    (\<forall>j<k. ts_lo ts div 2 ^ j \<noteq> ts_hi ts div 2 ^ j) \<and>
    (netbits ts' \<noteq> NON_SUBNET_ADDRESS_RANGE \<longleftrightarrow> is_subnet (ts_lo ts) (ts_hi ts) k) \<and>
    (netbits ts' \<noteq> NON_SUBNET_ADDRESS_RANGE \<longrightarrow> netbits ts' = n) \<and> ts'\<lparr>netbits := netbits ts\<rparr> = ts"
proof -
  let ?L = "8 * TS_IP_LEN ts"
  obtain n where n: "n \<le> ?L" "ts_lo ts div 2 ^ (?L - n) = ts_hi ts div 2 ^ (?L - n)"
    "\<forall>j<?L - n. ts_lo ts div 2 ^ j \<noteq> ts_hi ts div 2 ^ j"
    "calc_netbits ts = (of_nat n,
      ts\<lparr>netbits := (if is_subnet (ts_lo ts) (ts_hi ts) (?L - n) then of_nat n else NON_SUBNET_ADDRESS_RANGE)\<rparr>)"
    using calc_netbits_spec [OF assms] by blast
  have "n < 255" using n(1) TS_IP_LEN_le [of ts] by linarith
  then have u: "n mod 256 = n" and ne: "(of_nat n :: byte) \<noteq> NON_SUBNET_ADDRESS_RANGE"
    by (simp_all add: NON_SUBNET_ADDRESS_RANGE_def word_unat_eq_iff)
  show ?thesis using n(2,3) ne unfolding n(4) by (simp add: u Let_def)
qed

theorem calc_netbits_exact_witness:
  "case calc_netbits example_ts16 of (n, ts') \<Rightarrow>
    netbits ts' \<noteq> NON_SUBNET_ADDRESS_RANGE \<longleftrightarrow> is_subnet (ts_lo example_ts16) (ts_hi example_ts16)
      (8 * TS_IP_LEN example_ts16 - unat n)"
  using calc_netbits_exact [OF example_simps(2,4)] unfolding Let_def case_prod_beta by blast

lemma calc_range_nth:
  fixes ts nb
  defines "bytes \<equiv> (unat nb + 7) div 8"
  assumes "wf_ts ts" "bytes \<le> TS_IP_LEN ts" "i < TS_IP_LEN ts"
  shows "ts_from (calc_range ts nb) ! i = (if i + 1 < bytes then ts_from ts ! i
      else if i + 1 = bytes then ts_from ts ! i AND NOT (mask (bytes * 8 - unat nb)) else 0)"
    and "ts_to (calc_range ts nb) ! i = (if i + 1 < bytes then ts_from ts ! i
      else if i + 1 = bytes then ts_from ts ! i OR mask (bytes * 8 - unat nb) else 0xff)"
proof -
  have l: "length (ts_from ts) = 16" "length (ts_to ts) = 16" "TS_IP_LEN ts \<le> 16"
    using assms(2) TS_IP_LEN_le [of ts] by (simp_all add: wf_ts_def)
  have len: "TS_IP_LEN (ts\<lparr>netbits := nb\<rparr>) = TS_IP_LEN ts" by (simp add: TS_IP_LEN_def)
  have m: "(if b \<noteq> 0 then push_bit b 1 - 1 else 0) = (mask b :: byte)" for b
    by (simp add: mask_eq_exp_minus_1)
  show "ts_from (calc_range ts nb) ! i = (if i + 1 < bytes then ts_from ts ! i
      else if i + 1 = bytes then ts_from ts ! i AND NOT (mask (bytes * 8 - unat nb)) else 0)"
    "ts_to (calc_range ts nb) ! i = (if i + 1 < bytes then ts_from ts ! i
      else if i + 1 = bytes then ts_from ts ! i OR mask (bytes * 8 - unat nb) else 0xff)"
    unfolding calc_range_def Let_def m len bytes_def [symmetric]
    using assms(3,4) l by (auto simp: nth_list_update nth_store_at)
qed

lemma calc_range_fields [simp]:
  "ts_type (calc_range ts nb) = ts_type ts" "protocol (calc_range ts nb) = protocol ts"
  "dynamic (calc_range ts nb) = dynamic ts" "netbits (calc_range ts nb) = nb"
  "from_port (calc_range ts nb) = from_port ts" "to_port (calc_range ts nb) = to_port ts"
  "TS_IP_LEN (calc_range ts nb) = TS_IP_LEN ts"
  by (simp_all add: calc_range_def Let_def TS_IP_LEN_def)

lemma wf_calc_range:
  "wf_ts ts \<Longrightarrow> unat nb \<le> 8 * TS_IP_LEN ts \<Longrightarrow> wf_ts (calc_range ts nb)"
proof -
  assume "wf_ts ts" "unat nb \<le> 8 * TS_IP_LEN ts"
  moreover from this have "(unat nb + 7) div 8 \<le> TS_IP_LEN ts" by linarith
  moreover have "TS_IP_LEN (ts\<lparr>netbits := nb\<rparr>) = TS_IP_LEN ts" by (simp add: TS_IP_LEN_def)
  ultimately show ?thesis using TS_IP_LEN_le [of ts]
    by (simp add: wf_ts_def calc_range_def Let_def store_at_def)
qed

lemma calc_range_bits:
  fixes ts nb
  defines "len \<equiv> TS_IP_LEN ts" and "ts' \<equiv> calc_range ts nb"
  assumes "wf_ts ts" "unat nb \<le> 8 * len"
  shows "bit (ts_lo ts') p \<longleftrightarrow> 8 * len - unat nb \<le> p \<and> bit (ts_lo ts) p"
    and "bit (ts_hi ts') p \<longleftrightarrow> p < 8 * len \<and> (p < 8 * len - unat nb \<or> bit (ts_lo ts) p)"
proof -
  define bytes bits i j where "bytes = (unat nb + 7) div 8" and "bits = bytes * 8 - unat nb"
    and "i = len - 1 - p div 8" and "j = p mod 8"
  have bl: "bytes \<le> len" using assms(4) by (simp add: bytes_def)
  have bb: "bytes * 8 = unat nb + bits" "bits < 8" unfolding bits_def bytes_def by linarith+
  have w: "wf_ts ts'" using wf_calc_range assms by (simp add: len_def ts'_def)
  have l: "len \<le> 16" by (simp add: len_def TS_IP_LEN_le)
  have lo: "bit (ts_lo x) p \<longleftrightarrow> p < 8 * len \<and> bit (ts_from x ! i) j" if "wf_ts x" "TS_IP_LEN x = len" for x
  proof (cases "p < 8 * len")
    case True
    then have "len - Suc (p div 8) < len" by (cases len) simp_all
    with True that l show ?thesis
      by (simp add: ts_lo_def get_from_address_def bit_nat_of_be wf_ts_def min_absorb2 i_def j_def)
  qed (use that l in \<open>simp add: ts_lo_def get_from_address_def bit_nat_of_be wf_ts_def min_absorb2\<close>)
  have hi: "bit (ts_hi ts') p \<longleftrightarrow> p < 8 * len \<and> bit (ts_to ts' ! i) j"
  proof (cases "p < 8 * len")
    case True
    then have "len - Suc (p div 8) < len" by (cases len) simp_all
    with True w l show ?thesis
      by (simp add: ts_hi_def get_to_address_def bit_nat_of_be wf_ts_def min_absorb2 i_def j_def ts'_def
          flip: len_def)
  qed (use w l in \<open>simp add: ts_hi_def get_to_address_def bit_nat_of_be wf_ts_def min_absorb2 ts'_def flip: len_def\<close>)
  have pos: "i < len \<and> p = 8 * (len - 1 - i) + j \<and> j < 8" if "p < 8 * len"
  proof -
    have "p div 8 < len" using that by (simp add: div_less_iff_less_mult)
    then have "len - 1 - i = p div 8" "i < len" by (auto simp: i_def)
    then show ?thesis by (simp add: j_def)
  qed
  have e: "(255 :: byte) = mask 8" by (simp add: mask_eq_exp_minus_1)
  have ff: "bit (255 :: byte) j \<longleftrightarrow> j < 8" unfolding e bit_mask_iff by (auto simp: possible_bit_word)
  note nth = calc_range_nth [OF assms(3), of nb i, folded bytes_def len_def ts'_def bits_def, OF bl]
  have "i + 1 < bytes \<Longrightarrow> 8 * len - unat nb \<le> p" "i + 1 > bytes \<Longrightarrow> p < 8 * len - unat nb"
    "i + 1 = bytes \<Longrightarrow> 8 * len - unat nb \<le> p \<longleftrightarrow> bits \<le> j" if "p < 8 * len"
    using pos [OF that] bb bl by linarith+
  note cmp = this
  show "bit (ts_lo ts') p \<longleftrightarrow> 8 * len - unat nb \<le> p \<and> bit (ts_lo ts) p"
    using lo [OF w] lo [OF assms(3)] pos nth(1) cmp
    by (cases "p < 8 * len")
      (auto simp: len_def ts'_def bit_simps split: if_splits)
  show "bit (ts_hi ts') p \<longleftrightarrow> p < 8 * len \<and> (p < 8 * len - unat nb \<or> bit (ts_lo ts) p)"
    using hi lo [OF assms(3)] pos nth(2) cmp ff
    by (cases "p < 8 * len")
      (auto simp: len_def ts'_def bit_simps split: if_splits)
qed

lemma calc_range_value:
  assumes "wf_ts ts" "unat nb \<le> 8 * TS_IP_LEN ts"
  defines "k \<equiv> 8 * TS_IP_LEN ts - unat nb"
  shows "ts_lo (calc_range ts nb) = ts_lo ts div 2 ^ k * 2 ^ k"
    and "is_subnet (ts_lo (calc_range ts nb)) (ts_hi (calc_range ts nb)) k"
proof -
  note b = calc_range_bits [OF assms(1,2), folded k_def]
  have "ts_lo (calc_range ts nb) = push_bit k (drop_bit k (ts_lo ts))"
    by (rule bit_eqI) (auto simp: b bit_push_bit_iff bit_drop_bit_eq)
  then show "ts_lo (calc_range ts nb) = ts_lo ts div 2 ^ k * 2 ^ k"
    by (simp add: push_bit_eq_mult drop_bit_eq_div)
  have top: "bit (ts_lo ts) p \<Longrightarrow> p < 8 * TS_IP_LEN ts" for p
    using TS_IP_LEN_le [of ts] assms(1)
    by (simp add: ts_lo_def get_from_address_def bit_nat_of_be wf_ts_def min_absorb2)
  have e: "ts_lo (calc_range ts nb) div 2 ^ k = ts_hi (calc_range ts nb) div 2 ^ k"
    unfolding div_exp_eq_iff using b top by auto
  show "is_subnet (ts_lo (calc_range ts nb)) (ts_hi (calc_range ts nb)) k"
    unfolding is_subnet_iff [OF e] using b by (auto simp: k_def)
qed

lemma is_subnet_size: "is_subnet F T k \<Longrightarrow> F \<le> T \<and> T + 1 = F + 2 ^ k"
proof -
  have "1 \<le> (2 :: nat) ^ k" by simp
  then show "is_subnet F T k \<Longrightarrow> F \<le> T \<and> T + 1 = F + 2 ^ k" unfolding is_subnet_def by linarith
qed

lemma subnet_interval:
  assumes "is_subnet F T k"
  shows "F \<le> a \<and> a \<le> T \<longleftrightarrow> a div 2 ^ k = F div 2 ^ k"
proof -
  obtain q where F: "F = q * 2 ^ k" using assms by (auto simp: is_subnet_def mult.commute elim: dvdE)
  moreover from this have T: "T + 1 = q * 2 ^ k + 2 ^ k" using assms by (simp add: is_subnet_def)
  moreover have "a div 2 ^ k = q \<longleftrightarrow> q * 2 ^ k \<le> a \<and> a < q * 2 ^ k + 2 ^ k"
    by (metis (no_types, lifting) add.commute div_less_iff_less_mult dual_order.antisym le_refl
        less_eq_div_iff_mult_less_eq less_Suc_eq_le mult_Suc zero_less_numeral zero_less_power)
  ultimately show ?thesis by simp linarith
qed

lemma calc_netbits_subnet:
  assumes "wf_ts ts" "unat (netbits ts) \<le> 8 * TS_IP_LEN ts"
    "is_subnet (ts_lo ts) (ts_hi ts) (8 * TS_IP_LEN ts - unat (netbits ts))"
  shows "calc_netbits ts = (netbits ts, ts)"
proof -
  let ?L = "8 * TS_IP_LEN ts" and ?F = "ts_lo ts" and ?T = "ts_hi ts"
  let ?k = "?L - unat (netbits ts)"
  have "?F \<le> ?T" using is_subnet_size [OF assms(3)] by simp
  then obtain n where n: "n \<le> ?L" "?F div 2 ^ (?L - n) = ?T div 2 ^ (?L - n)"
    "\<forall>j<?L - n. ?F div 2 ^ j \<noteq> ?T div 2 ^ j"
    "calc_netbits ts = (of_nat n, ts\<lparr>netbits := (if is_subnet ?F ?T (?L - n) then of_nat n else NON_SUBNET_ADDRESS_RANGE)\<rparr>)"
    using calc_netbits_spec [OF assms(1)] by blast
  have "?T div 2 ^ ?k = ?F div 2 ^ ?k"
    using subnet_interval [OF assms(3), of ?T] \<open>?F \<le> ?T\<close> by simp
  then have "?L - n \<le> ?k" using n(3) by (metis not_le)
  moreover have "?k \<le> ?L - n"
  proof (rule ccontr)
    assume "\<not> ?k \<le> ?L - n"
    then have lt: "(2 :: nat) ^ (?L - n) < 2 ^ ?k" by simp
    have "?F div 2 ^ (?L - n) * 2 ^ (?L - n) \<le> ?F" "?T < ?T div 2 ^ (?L - n) * 2 ^ (?L - n) + 2 ^ (?L - n)"
      using dividend_less_div_times [of "2 ^ (?L - n)" ?T] by (simp_all add: add.commute)
    moreover have "?T + 1 = ?F + 2 ^ ?k" using is_subnet_size [OF assms(3)] by simp
    ultimately show False using lt n(2) by simp
  qed
  ultimately have "?L - n = ?k" by simp
  then have "n = unat (netbits ts)" using n(1) assms(2) by linarith
  then show ?thesis using n(4) assms(3) by simp
qed

lemma traffic_selector_create_wf:
  "type \<noteq> TS_SECLABEL \<Longrightarrow>
     \<exists>c. traffic_selector_create prot type fp tp = Some c \<and> ts_type c = type \<and> wf_ts c \<and> \<not> dynamic c"
  by (cases type) (simp_all add: traffic_selector_create_def Let_def wf_ts_def ip_len_defs)

lemma min_netbits: "unat (min (nb :: byte) (of_nat (len * 8))) = min (unat nb) (8 * len)" if "len \<le> 16" for len
proof -
  have "unat (of_nat (len * 8) :: byte) = len * 8" using that by (simp only: unat_of_nat_byte) simp
  then show ?thesis by (simp add: min_def word_le_nat_alt mult.commute del: of_nat_mult)
qed

text \<open>
  C14.  The selector created from a subnet matches exactly the addresses that share the prefix of the
  network address; a prefix length beyond the address size counts as the size.  The recorded length
  agrees with the one \<open>calc_netbits\<close> computes from the range.
\<close>

theorem subnet_selector_exact:
  assumes "wf_host net"
  shows "\<exists>ts. traffic_selector_create_from_subnet net nb prot fp tp = Some ts \<and> wf_ts ts \<and>
    (let L = 8 * length (get_address net); n = min (unat nb) L in
     unat (netbits ts) = n \<and> calc_netbits ts = (netbits ts, ts) \<and>
     (\<forall>a. ts_lo ts \<le> a \<and> a \<le> ts_hi ts \<longleftrightarrow>
        a div 2 ^ (L - n) = nat_of_be (get_address net) div 2 ^ (L - n)))"
proof -
  define type where "type = (if sa_family net = AF_INET then TS_IPV4_ADDR_RANGE else TS_IPV6_ADDR_RANGE)"
  obtain c where c: "traffic_selector_create prot type fp tp = Some c" "ts_type c = type" "wf_ts c"
    using traffic_selector_create_wf [of type prot fp tp] type_def by (metis ts_type.distinct(3,5))
  define ts0 where "ts0 = c\<lparr>ts_from := store_at (ts_from c) 0 (get_address net)\<rparr>"
  define ts where "ts = calc_range ts0 (min nb (of_nat (TS_IP_LEN ts0 * 8)))"
  have len: "length (get_address net) = TS_IP_LEN ts0" "TS_IP_LEN ts0 \<le> 16"
    using assms c(2) by (auto simp: wf_host_def get_address_def ts0_def TS_IP_LEN_def type_def ip_len_defs)
  have w0: "wf_ts ts0" using c len by (simp add: wf_ts_def ts0_def)
  have lo: "ts_lo ts0 = nat_of_be (get_address net)"
  proof -
    have "length (get_address net) \<le> length (ts_from c)" using len c(3) by (simp add: wf_ts_def)
    then show ?thesis
      unfolding ts_lo_def get_from_address_def len(1) [symmetric] by (simp add: ts0_def take_store_at_0)
  qed
  have create: "traffic_selector_create_from_subnet net nb prot fp tp = Some ts"
    using assms c by (auto simp: traffic_selector_create_from_subnet_def get_family_def wf_host_def type_def
        ts_def ts0_def Let_def)
  let ?n = "min (unat nb) (8 * TS_IP_LEN ts0)"
  have n: "unat (min nb (of_nat (TS_IP_LEN ts0 * 8))) = ?n" using min_netbits [OF len(2)] .
  then have le: "unat (min nb (of_nat (TS_IP_LEN ts0 * 8))) \<le> 8 * TS_IP_LEN ts0" by simp
  have w: "wf_ts ts" unfolding ts_def by (rule wf_calc_range [OF w0 le])
  have nb: "unat (netbits ts) = ?n" "TS_IP_LEN ts = TS_IP_LEN ts0" using n by (simp_all add: ts_def)
  note v = calc_range_value [OF w0 le, folded ts_def, unfolded n]
  have "calc_netbits ts = (netbits ts, ts)"
    using v(2) nb by (intro calc_netbits_subnet [OF w]) simp_all
  moreover have "ts_lo ts div 2 ^ (8 * TS_IP_LEN ts0 - ?n) = nat_of_be (get_address net) div 2 ^ (8 * TS_IP_LEN ts0 - ?n)"
    using v(1) lo by simp
  ultimately show ?thesis
    using create w nb subnet_interval [OF v(2)] by (simp add: len Let_def)
qed

theorem subnet_selector_exact_witness:
  "\<exists>ts. traffic_selector_create_from_subnet \<lparr>sa_family = AF_INET, sin_addr = [10, 1, 2, 3], sin_port = 0\<rparr>
      16 0 0 65535 = Some ts \<and> wf_ts ts \<and> unat (netbits ts) = 16"
  using subnet_selector_exact [of "\<lparr>sa_family = AF_INET, sin_addr = [10, 1, 2, 3], sin_port = 0\<rparr>" 16 0 0 65535]
  by (auto simp: wf_host_def get_address_def ip_len_defs Let_def)

section \<open>Addresses\<close>

lemma ts_includes_iff:
  assumes "wf_ts ts" "wf_host h"
  shows "ts_includes ts h \<longleftrightarrow> family_matches ts (get_family h) \<and>
    ts_lo ts \<le> nat_of_be (get_address h) \<and> nat_of_be (get_address h) \<le> ts_hi ts"
proof (cases "family_matches ts (get_family h)")
  case True
  then have "length (get_address h) = TS_IP_LEN ts"
    using assms(2) by (auto simp: family_matches_def get_family_def wf_host_def TS_IP_LEN_def
        get_address_def ip_len_defs)
  with True assms(1) TS_IP_LEN_le [of ts] show ?thesis
    by (simp add: ts_includes_def Let_def wf_ts_def memcmp_prefix ts_lo_def ts_hi_def
        get_from_address_def get_to_address_def)
qed (simp add: ts_includes_def)

lemma set_address_host:
  assumes "wf_ts ts" "wf_host h" "\<not> is_anyaddr h"
  shows "wf_ts (set_address ts h)" "\<not> dynamic (set_address ts h)"
    "get_from_address (set_address ts h) = get_address h" "get_to_address (set_address ts h) = get_address h"
  using assms
  by (auto simp: set_address_def Let_def wf_ts_def wf_host_def get_from_address_def get_to_address_def
      TS_IP_LEN_def get_family_def get_address_def ip_len_defs store_at_def)

end
