(* ===== verification/Esp_Context.thy ===== *)
theory Esp_Context
  imports Prelude
begin

text \<open>
  The sequence number state of an ESP security association (\<open>libipsec/esp_context.c\<close>): the counter
  an outbound SA assigns sequence numbers from, and the anti-replay window of an inbound SA, a ring
  buffer of bits indexed from the position of the highest authenticated sequence number.
\<close>

definition ESP_DEFAULT_WINDOW_SIZE :: u32 where
  "ESP_DEFAULT_WINDOW_SIZE = 128"

text \<open>\<open>struct private_esp_context_t\<close>; the type parameter is the AEAD object of the context.\<close>

record 'a esp_context =
  aead :: 'a
  last_seqno :: u32
  seqno_index :: u32
  window_size :: u32
  window :: chunk
  inbound :: bool

section \<open>The window\<close>

definition set_window_bit :: "'a esp_context \<Rightarrow> u32 \<Rightarrow> bool \<Rightarrow> 'a esp_context" where
  "set_window_bit this index v = (let i = unat (index div 8) in
     this\<lparr>window := (window this)[i :=
       (if v then window this ! i OR push_bit (unat (index mod 8)) 1
        else window this ! i AND NOT (push_bit (unat (index mod 8)) 1))]\<rparr>)"

definition get_window_bit :: "'a esp_context \<Rightarrow> u32 \<Rightarrow> bool" where
  "get_window_bit this index = (let i = unat (index div 8) in
     window this ! i AND push_bit (unat (index mod 8)) 1 \<noteq> 0)"

definition check_window :: "'a esp_context \<Rightarrow> u32 \<Rightarrow> bool" where
  "check_window this seqno =
     (let offset = last_seqno this - seqno;
          offset = (seqno_index this - offset) mod window_size this
      in \<not> get_window_bit this offset)"

definition verify_seqno :: "'a esp_context \<Rightarrow> u32 \<Rightarrow> bool" where
  "verify_seqno this seqno =
     (if \<not> inbound this then False
      else if seqno > last_seqno this then True
      else if seqno > 0 \<and> window_size this > last_seqno this - seqno then check_window this seqno
      else False)"

text \<open>The loop of \<open>set_authenticated_seqno\<close> that moves the window on by one bit per round.\<close>

primrec shift_window :: "nat \<Rightarrow> 'a esp_context \<Rightarrow> 'a esp_context" where
  "shift_window 0 this = this"
| "shift_window (Suc n) this =
     (let this = this\<lparr>seqno_index := (seqno_index this + 1) mod window_size this\<rparr>
      in shift_window n (set_window_bit this (seqno_index this) False))"

definition set_authenticated_seqno :: "'a esp_context \<Rightarrow> u32 \<Rightarrow> 'a esp_context" where
  "set_authenticated_seqno this seqno =
     (if \<not> inbound this then this
      else if seqno > last_seqno this then
        let shift = seqno - last_seqno this;
            shift = (if shift < window_size this then shift else window_size this);
            this = shift_window (unat shift) this;
            this = set_window_bit this (seqno_index this) True
        in this\<lparr>last_seqno := seqno\<rparr>
      else
        let i = last_seqno this - seqno
        in set_window_bit this ((seqno_index this - i) mod window_size this) True)"

section \<open>Sequence number assignment\<close>

definition next_seqno :: "'a esp_context \<Rightarrow> (u32 \<times> 'a esp_context) option" where
  "next_seqno this =
     (if inbound this \<or> last_seqno this = 0xffffffff then None
      else Some (last_seqno this + 1, this\<lparr>last_seqno := last_seqno this + 1\<rparr>))"

text \<open>The state \<open>esp_context_create\<close> sets up once the AEAD object exists.\<close>

definition esp_context_init :: "'a \<Rightarrow> bool \<Rightarrow> 'a esp_context" where
  "esp_context_init a inb = \<lparr>aead = a, last_seqno = 0, seqno_index = 0,
     window_size = ESP_DEFAULT_WINDOW_SIZE,
     window = (if inb then replicate (unat (ESP_DEFAULT_WINDOW_SIZE div 8 + 1)) 0 else []),
     inbound = inb\<rparr>"

section \<open>Well-formed inbound contexts\<close>

text \<open>
  What \<open>esp_context_create\<close> establishes for an inbound context and every operation keeps: the
  window is \<open>128 / 8 + 1\<close> bytes long and the index of the highest sequence number lies in it.
\<close>

definition wf_inbound :: "'a esp_context \<Rightarrow> bool" where
  "wf_inbound c \<longleftrightarrow> inbound c \<and> window_size c = 128 \<and> length (window c) = 17 \<and>
     unat (seqno_index c) < 128"

named_theorems esp_ctx_defs \<open>the operations on the window\<close>
declare set_window_bit_def [esp_ctx_defs] get_window_bit_def [esp_ctx_defs]
  check_window_def [esp_ctx_defs]

lemma wf_inbound_init: "wf_inbound (esp_context_init a True)"
  by (simp add: wf_inbound_def esp_context_init_def ESP_DEFAULT_WINDOW_SIZE_def)

lemma set_window_bit_frame [simp]:
  "inbound (set_window_bit c i v) = inbound c" "window_size (set_window_bit c i v) = window_size c"
  "length (window (set_window_bit c i v)) = length (window c)" "aead (set_window_bit c i v) = aead c"
  "seqno_index (set_window_bit c i v) = seqno_index c" "last_seqno (set_window_bit c i v) = last_seqno c"
  by (simp_all add: set_window_bit_def Let_def)

lemma wf_set_window_bit [simp]: "wf_inbound (set_window_bit c i v) = wf_inbound c"
  by (simp add: wf_inbound_def)

text \<open>The bit at a position of the ring, and the bit at an offset below the highest number.\<close>

definition ring_bit :: "'a esp_context \<Rightarrow> nat \<Rightarrow> bool" where
  "ring_bit c j = bit (window c ! (j div 8)) (j mod 8)"

definition ring_pos :: "'a esp_context \<Rightarrow> nat \<Rightarrow> nat" where
  "ring_pos c k = (unat (seqno_index c) + 128 - k) mod 128"

definition offset_bit :: "'a esp_context \<Rightarrow> nat \<Rightarrow> bool" where
  "offset_bit c k = ring_bit c (ring_pos c k)"

lemma ring_pos_less [simp]: "ring_pos c k < 128"
  by (simp add: ring_pos_def)

lemma get_window_bit_ring: "get_window_bit c i = ring_bit c (unat i)"
  by (simp add: get_window_bit_def Let_def ring_bit_def push_bit_of_1 and_exp_eq_0_iff_not_bit
      unat_div unat_mod)

lemma ring_bit_set_window_bit:
  assumes "length (window c) = 17" "unat i < 128" "j < 128"
  shows "ring_bit (set_window_bit c i v) j = (if j = unat i then v else ring_bit c j)"
proof -
  have len: "unat i div 8 < length (window c)" using assms by simp
  have eq: "j = unat i \<longleftrightarrow> j div 8 = unat i div 8 \<and> j mod 8 = unat i mod 8"
    by (metis div_mult_mod_eq)
  have w: "window (set_window_bit c i v) = (window c)[unat i div 8 :=
      (if v then set_bit (unat i mod 8) (window c ! (unat i div 8))
       else unset_bit (unat i mod 8) (window c ! (unat i div 8)))]"
    by (simp add: set_window_bit_def Let_def set_bit_eq_or unset_bit_eq_and_not unat_div unat_mod)
  show ?thesis
    unfolding ring_bit_def w eq
    using len by (auto simp: nth_list_update bit_set_bit_iff bit_unset_bit_iff)
qed

lemma unat_numeral_128: "unat (128 :: u32) = 128"
  by simp

lemma unat_numeral_max: "unat (0xffffffff :: u32) = 4294967295"
  by simp

lemma unat_sub_mod_128:
  assumes "unat (i :: u32) < 128" "unat (k :: u32) < 128"
  shows "unat ((i - k) mod 128) = (unat i + 128 - unat k) mod 128"
proof (cases "k \<le> i")
  case True
  then have "unat (i - k) = unat i - unat k" by (rule unat_sub)
  moreover have "unat k \<le> unat i" using True by (simp add: word_le_nat_alt)
  then have "(unat i + 128 - unat k) mod 128 = (unat i - unat k) mod 128"
    by (metis Nat.diff_add_assoc2 mod_add_self2)
  ultimately show ?thesis by (simp add: unat_mod)
next
  case False
  then have lt: "unat i < unat k" by (simp add: word_le_nat_alt)
  have "unat (i - k) = 4294967296 + unat i - unat k"
    using lt by (simp add: unat_sub_if')
  also have "\<dots> = 128 * 33554431 + (unat i + 128 - unat k)"
    using assms by simp
  finally have "unat (i - k) = 128 * 33554431 + (unat i + 128 - unat k)" .
  moreover have "(128 * 33554431 + x) mod 128 = x mod (128 :: nat)" for x by (rule mod_mult_self4)
  ultimately show ?thesis by (metis unat_mod unat_numeral_128)
qed

lemma unat_suc_mod_128: "unat (i :: u32) < 128 \<Longrightarrow> unat ((i + 1) mod 128) = (unat i + 1) mod 128"
  by (simp add: unat_mod unat_word_ariths)

lemma check_window_offset:
  assumes "wf_inbound c" "unat (last_seqno c - s) < 128"
  shows "check_window c s = (\<not> offset_bit c (unat (last_seqno c - s)))"
  using assms unat_sub_mod_128 [of "seqno_index c" "last_seqno c - s"]
  by (simp add: check_window_def get_window_bit_ring offset_bit_def ring_pos_def wf_inbound_def)

lemma ring_pos_eq:
  assumes "unat (seqno_index c) < 128" "k < 128"
  shows "ring_pos c k = (if k \<le> unat (seqno_index c) then unat (seqno_index c) - k
    else unat (seqno_index c) + 128 - k)"
  using assms by (simp add: ring_pos_def le_mod_geq)

lemma ring_pos_inj:
  assumes "unat (seqno_index c) < 128" "k < 128" "l < 128"
  shows "ring_pos c k = ring_pos c l \<longleftrightarrow> k = l"
  using assms by (auto simp: ring_pos_eq)

lemma offset_bit_set:
  assumes "wf_inbound c" "k < 128" "unat l < 128"
  shows "offset_bit (set_window_bit c ((seqno_index c - l) mod window_size c) v) k =
    (if k = unat l then v else offset_bit c k)"
  using assms unat_sub_mod_128 [of "seqno_index c" l] ring_pos_inj [of c k "unat l"]
  by (simp add: offset_bit_def ring_bit_set_window_bit wf_inbound_def ring_pos_def)

lemma offset_bit_set_0:
  assumes "wf_inbound c" "k < 128"
  shows "offset_bit (set_window_bit c (seqno_index c) v) k = (if k = 0 then v else offset_bit c k)"
  using assms ring_pos_inj [of c k 0]
  by (simp add: offset_bit_def ring_bit_set_window_bit wf_inbound_def ring_pos_def)

section \<open>Refinement: the window is the set of recently authenticated numbers\<close>

text \<open>
  The abstract state of an inbound context: the highest authenticated number and the set of the
  authenticated numbers at most 127 below it.
\<close>

definition window_set :: "'a esp_context \<Rightarrow> nat set" where
  "window_set c = {s. s \<le> unat (last_seqno c) \<and> unat (last_seqno c) - s < 128 \<and>
     offset_bit c (unat (last_seqno c) - s)}"

lemma shift_window_frame [simp]:
  "inbound (shift_window n c) = inbound c" "window_size (shift_window n c) = window_size c"
  "length (window (shift_window n c)) = length (window c)" "aead (shift_window n c) = aead c"
  "last_seqno (shift_window n c) = last_seqno c"
  by (induction n arbitrary: c) (simp_all add: Let_def)

lemma shift_window_step:
  assumes "wf_inbound c"
  defines "c' \<equiv> c\<lparr>seqno_index := (seqno_index c + 1) mod window_size c\<rparr>"
  defines "c'' \<equiv> set_window_bit c' (seqno_index c') False"
  shows "wf_inbound c''"
    and "k < 128 \<Longrightarrow> offset_bit c'' k = (k \<noteq> 0 \<and> offset_bit c (k - 1))"
proof -
  have wf: "wf_inbound c'" using assms by (simp add: wf_inbound_def unat_suc_mod_128)
  then show "wf_inbound c''" by (simp add: c''_def)
  assume k: "k < 128"
  have "k \<noteq> 0 \<Longrightarrow> ring_pos c' k = ring_pos c (k - 1)"
    using assms k wf by (auto simp: ring_pos_eq wf_inbound_def unat_suc_mod_128 mod_Suc)
  then have "k \<noteq> 0 \<Longrightarrow> offset_bit c' k = offset_bit c (k - 1)"
    by (simp add: offset_bit_def ring_bit_def c'_def)
  with offset_bit_set_0 [OF wf k] show "offset_bit c'' k = (k \<noteq> 0 \<and> offset_bit c (k - 1))"
    by (simp add: c''_def)
qed

lemma shift_window_offset:
  "wf_inbound c \<Longrightarrow> wf_inbound (shift_window n c) \<and>
     (\<forall>k < 128. offset_bit (shift_window n c) k = (n \<le> k \<and> offset_bit c (k - n)))"
proof (induction n arbitrary: c)
  case (Suc n)
  let ?c = "c\<lparr>seqno_index := (seqno_index c + 1) mod window_size c\<rparr>"
  let ?c' = "set_window_bit ?c (seqno_index ?c) False"
  note step = shift_window_step [OF Suc.prems]
  have sh: "shift_window (Suc n) c = shift_window n ?c'" by (simp add: Let_def)
  from Suc.IH [OF step(1)] step(2) show ?case
    unfolding sh by (auto simp: Suc_le_eq)
qed simp

lemma wf_set_authenticated_seqno:
  "wf_inbound c \<Longrightarrow> wf_inbound (set_authenticated_seqno c s)"
  using shift_window_offset [of c] by (simp add: set_authenticated_seqno_def Let_def)
     (auto simp: wf_inbound_def)

lemma verify_seqno_refine:
  assumes "wf_inbound c"
  shows "verify_seqno c s \<longleftrightarrow> last_seqno c < s \<or>
    0 < s \<and> unat (last_seqno c) < unat s + 128 \<and> unat s \<notin> window_set c"
proof (cases "last_seqno c < s")
  case False
  then have "s \<le> last_seqno c" by simp
  then have le: "unat s \<le> unat (last_seqno c)" and sub: "unat (last_seqno c - s) = unat (last_seqno c) - unat s"
    by (simp_all add: word_le_nat_alt unat_sub)
  have "last_seqno c - s < 128 \<longleftrightarrow> unat (last_seqno c) - unat s < 128"
    by (simp add: word_less_nat_alt sub)
  then show ?thesis
    using assms False le check_window_offset [OF assms, of s]
    by (auto simp: verify_seqno_def wf_inbound_def window_set_def sub)
qed (use assms in \<open>simp add: verify_seqno_def wf_inbound_def\<close>)

lemma set_authenticated_seqno_refine:
  assumes "wf_inbound c" "unat (last_seqno c) < unat s + 128"
  shows "window_set (set_authenticated_seqno c s) =
      insert (unat s) {x \<in> window_set c. unat s < x + 128}"
    and "last_seqno (set_authenticated_seqno c s) = max (last_seqno c) s"
proof -
  show "last_seqno (set_authenticated_seqno c s) = max (last_seqno c) s"
    using assms(1)
    by (cases "last_seqno c < s")
      (simp_all add: set_authenticated_seqno_def Let_def wf_inbound_def max_absorb1 max_absorb2)
  show "window_set (set_authenticated_seqno c s) =
      insert (unat s) {x \<in> window_set c. unat s < x + 128}"
  proof (cases "last_seqno c < s")
    case True
    define d where "d = unat s - unat (last_seqno c)"
    have lt: "unat (last_seqno c) < unat s" using True by (simp add: word_less_nat_alt)
    have d: "unat (s - last_seqno c) = d" using True by (simp add: d_def unat_sub)
    define n where "n = min d 128"
    let ?c = "shift_window n c"
    have n: "unat (if s - last_seqno c < window_size c then s - last_seqno c else window_size c) = n"
      using assms(1) by (simp add: wf_inbound_def word_less_nat_alt d n_def min_def)
    have e: "set_authenticated_seqno c s = (set_window_bit ?c (seqno_index ?c) True)\<lparr>last_seqno := s\<rparr>"
      using assms(1) True n by (simp add: set_authenticated_seqno_def wf_inbound_def Let_def)
    note sh = shift_window_offset [OF assms(1), of n]
    have ob: "offset_bit (set_authenticated_seqno c s) k = (k = 0 \<or> n \<le> k \<and> offset_bit c (k - n))"
      if "k < 128" for k
      using sh offset_bit_set_0 [of ?c k True] that
      unfolding e by (auto simp: offset_bit_def ring_bit_def ring_pos_def)
    have ls: "last_seqno (set_authenticated_seqno c s) = s" unfolding e by simp
    show ?thesis
    proof (rule set_eqI)
      fix x
      consider "x = unat s" | "x < unat s" "unat s - x < 128" | "unat s < x" | "x + 128 \<le> unat s"
        by linarith
      then show "x \<in> window_set (set_authenticated_seqno c s) \<longleftrightarrow>
          x \<in> insert (unat s) {x \<in> window_set c. unat s < x + 128}"
      proof cases
        case 2
        have "n \<le> unat s - x \<longleftrightarrow> x \<le> unat (last_seqno c)"
          using 2 lt by (auto simp: n_def d_def min_def)
        moreover have "x \<le> unat (last_seqno c) \<Longrightarrow> unat s - x - n = unat (last_seqno c) - x"
          using 2 lt by (auto simp: n_def d_def min_def)
        ultimately show ?thesis using 2 ob [of "unat s - x"]
          by (auto simp: window_set_def ls)
      qed (use ob [of 0] lt in \<open>auto simp: window_set_def ls\<close>)
    qed
  next
    case False
    then have "s \<le> last_seqno c" by simp
    then have le: "unat s \<le> unat (last_seqno c)"
      and sub: "unat (last_seqno c - s) = unat (last_seqno c) - unat s"
      by (simp_all add: word_le_nat_alt unat_sub)
    have ob: "offset_bit (set_authenticated_seqno c s) k =
        (k = unat (last_seqno c) - unat s \<or> offset_bit c k)" if "k < 128" for k
      using offset_bit_set [OF assms(1) that, of "last_seqno c - s" True] assms False sub le
      by (simp add: set_authenticated_seqno_def wf_inbound_def Let_def)
    have ls: "last_seqno (set_authenticated_seqno c s) = last_seqno c"
      using assms(1) False by (simp add: set_authenticated_seqno_def wf_inbound_def Let_def)
    show ?thesis
      using le assms(2) ob by (auto simp: window_set_def ls)
  qed
qed

lemma window_set_init [simp]: "window_set (esp_context_init a True) = {}"
  by (simp add: window_set_def offset_bit_def ring_bit_def ring_pos_def esp_context_init_def
      ESP_DEFAULT_WINDOW_SIZE_def)

section \<open>The interface of the anti-replay check\<close>

text \<open>
  What the packet layer relies on: a check that looks at the highest authenticated number and the
  recent numbers below it, and an update that records an authenticated number.  The relation
  \<open>history c A\<close> says that the state of \<open>c\<close> describes a past in which the numbers in \<open>A\<close> were
  authenticated.
\<close>

locale anti_replay =
  fixes verify :: "'c \<Rightarrow> u32 \<Rightarrow> bool" and authenticate :: "'c \<Rightarrow> u32 \<Rightarrow> 'c"
    and highest :: "'c \<Rightarrow> u32" and recent :: "'c \<Rightarrow> nat set" and invar :: "'c \<Rightarrow> bool"
    and wsize :: nat
  assumes wsize_pos: "0 < wsize"
    and verify_iff: "invar c \<Longrightarrow> verify c s \<longleftrightarrow>
      highest c < s \<or> 0 < s \<and> unat (highest c) < unat s + wsize \<and> unat s \<notin> recent c"
    and invar_authenticate: "invar c \<Longrightarrow> invar (authenticate c s)"
    and highest_authenticate: "invar c \<Longrightarrow> unat (highest c) < unat s + wsize \<Longrightarrow>
      highest (authenticate c s) = max (highest c) s"
    and recent_authenticate: "invar c \<Longrightarrow> unat (highest c) < unat s + wsize \<Longrightarrow>
      recent (authenticate c s) = insert (unat s) {x \<in> recent c. unat s < x + wsize}"
begin

definition history :: "'c \<Rightarrow> u32 set \<Rightarrow> bool" where
  "history c A \<longleftrightarrow> recent c = {unat s |s. s \<in> A \<and> unat (highest c) < unat s + wsize} \<and>
     (\<forall>s \<in> A. s \<le> highest c) \<and> (highest c = 0 \<or> highest c \<in> A)"

lemma verify_history:
  assumes "invar c" "history c A"
  shows "verify c s \<longleftrightarrow> 0 < s \<and> s \<notin> A \<and> unat (highest c) < unat s + wsize"
proof (cases "highest c < s")
  case True
  then have "0 < s" by (rule le_less_trans [OF word_zero_le])
  moreover have "s \<notin> A" using True assms(2) by (auto simp: history_def)
  moreover have "unat (highest c) < unat s" using True by (simp add: word_less_nat_alt)
  ultimately show ?thesis using True assms(1) by (simp add: verify_iff)
next
  case False
  have "unat s \<in> recent c \<longleftrightarrow> s \<in> A \<and> unat (highest c) < unat s + wsize"
    using assms(2) by (auto simp: history_def dest: unat_inj)
  with False show ?thesis using assms(1) by (auto simp: verify_iff)
qed

lemma history_authenticate:
  assumes "invar c" "history c A" "verify c s"
  shows "history (authenticate c s) (insert s A)"
proof -
  have near: "unat (highest c) < unat s + wsize"
    using verify_history [OF assms(1,2)] assms(3) by blast
  have le: "x \<le> highest c" if "x \<in> A" for x using that assms(2) by (simp add: history_def)
  have max: "unat (max (highest c) s) < unat x + wsize \<longleftrightarrow>
      unat (highest c) < unat x + wsize \<and> unat s < unat x + wsize" for x :: u32
    by (simp add: max_def word_le_nat_alt) linarith
  have "recent (authenticate c s) =
      insert (unat s) {unat x |x. x \<in> A \<and> unat (max (highest c) s) < unat x + wsize}"
    using assms(2) unfolding recent_authenticate [OF assms(1) near] history_def max by auto
  also have "\<dots> = {unat x |x. x \<in> insert s A \<and> unat (max (highest c) s) < unat x + wsize}"
    using near max [of s] wsize_pos by auto
  finally have "recent (authenticate c s) =
      {unat x |x. x \<in> insert s A \<and> unat (highest (authenticate c s)) < unat x + wsize}"
    by (simp add: highest_authenticate [OF assms(1) near])
  moreover have "\<forall>x \<in> insert s A. x \<le> highest (authenticate c s)"
    using le by (auto simp: highest_authenticate [OF assms(1) near] intro: max.coboundedI1)
  moreover have "highest (authenticate c s) \<in> insert s A \<or> highest (authenticate c s) = 0"
    using assms(2) by (auto simp: highest_authenticate [OF assms(1) near] history_def max_def)
  ultimately show ?thesis by (auto simp: history_def)
qed

end

interpretation esp_replay: anti_replay verify_seqno set_authenticated_seqno last_seqno window_set wf_inbound 128
  by unfold_locales
    (simp_all add: verify_seqno_refine set_authenticated_seqno_refine wf_set_authenticated_seqno)

section \<open>Processing a sequence of packets\<close>

text \<open>
  How \<open>esp_packet.c\<close> uses an inbound context: the number of a packet is verified, and recorded
  only when the packet authenticates (the flag of the pair).  The result has the numbers that were
  accepted, latest first.
\<close>

definition accept_seqno :: "'a esp_context \<times> u32 list \<Rightarrow> u32 \<times> bool \<Rightarrow> 'a esp_context \<times> u32 list" where
  "accept_seqno = (\<lambda>(c, acc) (seqno, valid).
     if \<not> verify_seqno c seqno then (c, acc)
     else if \<not> valid then (c, acc)
     else (set_authenticated_seqno c seqno, seqno # acc))"

definition receive_all :: "'a esp_context \<Rightarrow> (u32 \<times> bool) list \<Rightarrow> 'a esp_context \<times> u32 list" where
  "receive_all c packets = foldl accept_seqno (c, []) packets"

definition replay_inv :: "'a esp_context \<times> u32 list \<Rightarrow> bool" where
  "replay_inv = (\<lambda>(c, acc). wf_inbound c \<and> esp_replay.history c (set acc) \<and> distinct acc)"

lemma replay_inv_accept: "replay_inv st \<Longrightarrow> replay_inv (accept_seqno st p)"
  using esp_replay.verify_history [of "fst st" "set (snd st)" "fst p"]
    esp_replay.history_authenticate [of "fst st" "set (snd st)" "fst p"]
  by (auto simp: replay_inv_def accept_seqno_def wf_set_authenticated_seqno split: prod.splits)

lemma replay_inv_receive_all: "replay_inv (receive_all (esp_context_init a True) ps)"
proof -
  have "replay_inv st \<Longrightarrow> replay_inv (foldl accept_seqno st ps)" for st :: "'a esp_context \<times> u32 list"
    by (induction ps arbitrary: st) (simp_all add: replay_inv_accept)
  moreover have "replay_inv (esp_context_init a True, [])"
    by (simp add: replay_inv_def wf_inbound_init esp_replay.history_def)
      (simp add: esp_context_init_def)
  ultimately show ?thesis by (simp add: receive_all_def)
qed

text \<open>
  C1.  Anti-replay, exactly: after any sequence of packets, authentic or forged, on a new inbound
  context, no sequence number was accepted twice, and a further number is accepted if and only if
  it is positive, was not accepted before and is at most 127 below the highest accepted number.
\<close>

theorem anti_replay_exact:
  "case receive_all (esp_context_init a True) packets of (c, accepted) \<Rightarrow>
     distinct accepted \<and>
     last_seqno c = (if accepted = [] then 0 else Max (set accepted)) \<and>
     verify_seqno c s = (0 < s \<and> s \<notin> set accepted \<and> unat (last_seqno c) < unat s + 128)"
proof -
  obtain c acc where r: "receive_all (esp_context_init a True) packets = (c, acc)" by force
  then have inv: "wf_inbound c" "esp_replay.history c (set acc)" "distinct acc"
    using replay_inv_receive_all [of a packets] by (simp_all add: replay_inv_def)
  have "last_seqno c = (if acc = [] then 0 else Max (set acc))"
  proof (cases "acc = []")
    case False
    then have "last_seqno c \<in> set acc"
      using inv(2) by (auto simp: esp_replay.history_def neq_Nil_conv)
    then show ?thesis using False inv(2)
      by (auto simp: esp_replay.history_def intro!: Max_eqI [symmetric])
  qed (use inv(2) in \<open>simp add: esp_replay.history_def\<close>)
  then show ?thesis
    using r inv esp_replay.verify_history [OF inv(1,2)] by simp
qed

section \<open>Numbers of outbound packets\<close>

text \<open>The numbers that \<open>n\<close> calls of \<open>next_seqno\<close> hand out; a failed call hands out none.\<close>

primrec assign_seqnos :: "nat \<Rightarrow> 'a esp_context \<Rightarrow> u32 list" where
  "assign_seqnos 0 c = []"
| "assign_seqnos (Suc n) c = (case next_seqno c of
     None \<Rightarrow> assign_seqnos n c
   | Some (s, c') \<Rightarrow> s # assign_seqnos n c')"

lemma assign_seqnos_upt:
  "\<not> inbound c \<Longrightarrow> map unat (assign_seqnos n c) =
     [unat (last_seqno c) + 1 ..< Suc (min (unat (last_seqno c) + n) 4294967295)]"
proof (induction n arbitrary: c)
  case (Suc n)
  show ?case
  proof (cases "last_seqno c = 0xffffffff")
    case True
    then show ?thesis using Suc by (simp add: next_seqno_def)
  next
    case False
    then have "unat (last_seqno c) \<noteq> 4294967295"
      by (metis unat_inj unat_numeral_max)
    then have lt: "unat (last_seqno c) < 4294967295"
      using unat_word_less(2) [of "last_seqno c"] by linarith
    then have s: "unat (last_seqno c + 1) = unat (last_seqno c) + 1"
      by (simp add: unat_word_ariths)
    from False Suc.prems have "assign_seqnos (Suc n) c =
        (last_seqno c + 1) # assign_seqnos n (c\<lparr>last_seqno := last_seqno c + 1\<rparr>)"
      by (simp add: next_seqno_def)
    also have "map unat \<dots> = (unat (last_seqno c) + 1) #
        [unat (last_seqno c) + 2 ..< Suc (min (unat (last_seqno c) + Suc n) 4294967295)]"
      using Suc.IH [of "c\<lparr>last_seqno := last_seqno c + 1\<rparr>"] Suc.prems s by simp
    also have "\<dots> = [unat (last_seqno c) + 1 ..< Suc (min (unat (last_seqno c) + Suc n) 4294967295)]"
      using lt by (subst (2) upt_conv_Cons) simp_all
    finally show ?thesis .
  qed
qed simp

text \<open>
  C2.  The numbers an outbound context hands out are \<open>1, 2, 3, \<dots>\<close> in this order, each once, up to
  and including \<open>UINT32_MAX\<close>; from then on every call fails, so the counter never cycles.
\<close>

theorem outbound_seqnos_never_cycle:
  "map unat (assign_seqnos n (esp_context_init a False)) = [1 ..< Suc (min n (2 ^ 32 - 1))]"
  using assign_seqnos_upt [of "esp_context_init a False" n] by (simp add: esp_context_init_def)

section \<open>The AEAD object plays no part in the checks\<close>

lemma verify_seqno_aead [simp]: "verify_seqno (c\<lparr>aead := a\<rparr>) s = verify_seqno c s"
  by (simp add: verify_seqno_def check_window_def get_window_bit_def Let_def)

lemma set_window_bit_aead: "set_window_bit (c\<lparr>aead := a\<rparr>) i v = (set_window_bit c i v)\<lparr>aead := a\<rparr>"
  by (simp add: set_window_bit_def Let_def)

lemma shift_window_aead: "shift_window n (c\<lparr>aead := a\<rparr>) = (shift_window n c)\<lparr>aead := a\<rparr>"
proof (induction n arbitrary: c)
  case (Suc n)
  have "set_window_bit (c\<lparr>aead := a, seqno_index := x\<rparr>) i v = (set_window_bit (c\<lparr>seqno_index := x\<rparr>) i v)\<lparr>aead := a\<rparr>" for x i v
    by (simp add: set_window_bit_def Let_def)
  then show ?case using Suc by (simp add: Let_def)
qed simp

lemma set_authenticated_seqno_aead: "set_authenticated_seqno (c\<lparr>aead := a\<rparr>) s = (set_authenticated_seqno c s)\<lparr>aead := a\<rparr>"
  by (simp add: set_authenticated_seqno_def Let_def shift_window_aead set_window_bit_aead)

lemma accept_seqno_acc: "foldl accept_seqno (c, acc) gs =
    (fst (foldl accept_seqno (c, []) gs), snd (foldl accept_seqno (c, []) gs) @ acc)"
proof (induction gs arbitrary: c acc)
  case (Cons g gs)
  obtain s v where g: "g = (s, v)" by (cases g)
  show ?case
  proof (cases "verify_seqno c s \<and> v")
    case True
    then show ?thesis
      using Cons [of "set_authenticated_seqno c s" "s # acc"] Cons [of "set_authenticated_seqno c s" "[s]"]
      by (simp add: accept_seqno_def g)
  next
    case False
    then have "accept_seqno (c, a) g = (c, a)" for a by (auto simp: accept_seqno_def g)
    then show ?thesis using Cons [of c acc] by simp
  qed
qed simp

lemma accept_seqno_aead:
  "snd (foldl accept_seqno (c\<lparr>aead := a\<rparr>, acc) gs) = snd (foldl accept_seqno (c, acc) gs)"
proof (induction gs arbitrary: c acc)
  case (Cons g gs)
  then show ?case by (cases g) (simp add: accept_seqno_def set_authenticated_seqno_aead)
qed simp

end
