(* ===== verification/Bio.thy ===== *)
theory Bio
  imports Prelude "HOL-Library.Monad_Syntax" "HOL-Library.While_Combinator"
begin

text \<open>
  The buffered reader and writer of wire formats, \<open>bio/bio_reader.c\<close> and \<open>bio/bio_writer.c\<close>.  A
  reader is the data that remains; reading from either end returns the value, or nothing if the
  data is too short, and the reader that is left.  A writer is an allocated buffer of which a prefix
  is in use.  Memory returned by \<open>realloc\<close> has arbitrary contents, given by the argument \<open>mem\<close>, and
  the loop that grows the buffer is a \<open>while_option\<close>, whose value \<open>None\<close> means that it does not end.
\<close>

section \<open>The reader\<close>

record bio_reader =
  rbuf :: chunk

definition bio_reader_create :: "chunk \<Rightarrow> bio_reader" where
  "bio_reader_create data = \<lparr>rbuf = data\<rparr>"

definition remaining :: "bio_reader \<Rightarrow> u32" where
  "remaining this = of_nat (length (rbuf this))"

definition peek :: "bio_reader \<Rightarrow> chunk" where
  "peek this = rbuf this"

definition chunk_skip_end :: "chunk \<Rightarrow> nat \<Rightarrow> bool \<Rightarrow> chunk" where
  "chunk_skip_end c bytes from_end =
     (if bytes < length c
      then (if \<not> from_end then drop bytes c else take (length c - bytes) c)
      else [])"

definition get_ptr_end :: "bio_reader \<Rightarrow> nat \<Rightarrow> bool \<Rightarrow> chunk" where
  "get_ptr_end this n from_end =
     (if from_end then drop (length (rbuf this) - n) (rbuf this) else rbuf this)"

definition read_uint8_internal :: "bio_reader \<Rightarrow> bool \<Rightarrow> byte option \<times> bio_reader" where
  "read_uint8_internal this from_end =
     (if length (rbuf this) < 1 then (None, this)
      else (Some (hd (get_ptr_end this 1 from_end)),
            this\<lparr>rbuf := chunk_skip_end (rbuf this) 1 from_end\<rparr>))"

definition read_uint16_internal :: "bio_reader \<Rightarrow> bool \<Rightarrow> u16 option \<times> bio_reader" where
  "read_uint16_internal this from_end =
     (if length (rbuf this) < 2 then (None, this)
      else (Some (untoh16 (get_ptr_end this 2 from_end)),
            this\<lparr>rbuf := chunk_skip_end (rbuf this) 2 from_end\<rparr>))"

text \<open>
  Three bytes are copied to a 32 bit variable on the stack; the fourth keeps the value it had there,
  the argument \<open>stack\<close>.
\<close>

definition read_uint24_internal :: "byte \<Rightarrow> bio_reader \<Rightarrow> bool \<Rightarrow> u32 option \<times> bio_reader" where
  "read_uint24_internal stack this from_end =
     (if length (rbuf this) < 3 then (None, this)
      else let tmp = uletoh32 (take 3 (get_ptr_end this 3 from_end) @ [stack])
           in (Some (drop_bit 8 (ntohl tmp)),
               this\<lparr>rbuf := chunk_skip_end (rbuf this) 3 from_end\<rparr>))"

definition read_uint32_internal :: "bio_reader \<Rightarrow> bool \<Rightarrow> u32 option \<times> bio_reader" where
  "read_uint32_internal this from_end =
     (if length (rbuf this) < 4 then (None, this)
      else (Some (untoh32 (get_ptr_end this 4 from_end)),
            this\<lparr>rbuf := chunk_skip_end (rbuf this) 4 from_end\<rparr>))"

definition read_uint64_internal :: "bio_reader \<Rightarrow> bool \<Rightarrow> u64 option \<times> bio_reader" where
  "read_uint64_internal this from_end =
     (if length (rbuf this) < 8 then (None, this)
      else (Some (untoh64 (get_ptr_end this 8 from_end)),
            this\<lparr>rbuf := chunk_skip_end (rbuf this) 8 from_end\<rparr>))"

definition read_data_internal :: "bio_reader \<Rightarrow> u32 \<Rightarrow> bool \<Rightarrow> chunk option \<times> bio_reader" where
  "read_data_internal this n from_end =
     (if length (rbuf this) < unat n then (None, this)
      else (Some (take (unat n) (get_ptr_end this (unat n) from_end)),
            this\<lparr>rbuf := chunk_skip_end (rbuf this) (unat n) from_end\<rparr>))"

definition read_uint8 :: "bio_reader \<Rightarrow> byte option \<times> bio_reader" where
  "read_uint8 this = read_uint8_internal this False"

definition read_uint16 :: "bio_reader \<Rightarrow> u16 option \<times> bio_reader" where
  "read_uint16 this = read_uint16_internal this False"

definition read_uint24 :: "byte \<Rightarrow> bio_reader \<Rightarrow> u32 option \<times> bio_reader" where
  "read_uint24 stack this = read_uint24_internal stack this False"

definition read_uint32 :: "bio_reader \<Rightarrow> u32 option \<times> bio_reader" where
  "read_uint32 this = read_uint32_internal this False"

definition read_uint64 :: "bio_reader \<Rightarrow> u64 option \<times> bio_reader" where
  "read_uint64 this = read_uint64_internal this False"

definition read_data :: "bio_reader \<Rightarrow> u32 \<Rightarrow> chunk option \<times> bio_reader" where
  "read_data this n = read_data_internal this n False"

definition read_uint8_end :: "bio_reader \<Rightarrow> byte option \<times> bio_reader" where
  "read_uint8_end this = read_uint8_internal this True"

definition read_uint16_end :: "bio_reader \<Rightarrow> u16 option \<times> bio_reader" where
  "read_uint16_end this = read_uint16_internal this True"

definition read_uint24_end :: "byte \<Rightarrow> bio_reader \<Rightarrow> u32 option \<times> bio_reader" where
  "read_uint24_end stack this = read_uint24_internal stack this True"

definition read_uint32_end :: "bio_reader \<Rightarrow> u32 option \<times> bio_reader" where
  "read_uint32_end this = read_uint32_internal this True"

definition read_uint64_end :: "bio_reader \<Rightarrow> u64 option \<times> bio_reader" where
  "read_uint64_end this = read_uint64_internal this True"

definition read_data_end :: "bio_reader \<Rightarrow> u32 \<Rightarrow> chunk option \<times> bio_reader" where
  "read_data_end this n = read_data_internal this n True"

definition read_data8 :: "bio_reader \<Rightarrow> chunk option \<times> bio_reader" where
  "read_data8 this = (case read_uint8 this of (None, r) \<Rightarrow> (None, r)
     | (Some n, r) \<Rightarrow> read_data r (ucast n))"

definition read_data16 :: "bio_reader \<Rightarrow> chunk option \<times> bio_reader" where
  "read_data16 this = (case read_uint16 this of (None, r) \<Rightarrow> (None, r)
     | (Some n, r) \<Rightarrow> read_data r (ucast n))"

definition read_data24 :: "byte \<Rightarrow> bio_reader \<Rightarrow> chunk option \<times> bio_reader" where
  "read_data24 stack this = (case read_uint24 stack this of (None, r) \<Rightarrow> (None, r)
     | (Some n, r) \<Rightarrow> read_data r n)"

definition read_data32 :: "bio_reader \<Rightarrow> chunk option \<times> bio_reader" where
  "read_data32 this = (case read_uint32 this of (None, r) \<Rightarrow> (None, r)
     | (Some n, r) \<Rightarrow> read_data r n)"

section \<open>The writer\<close>

record bio_writer =
  buf :: chunk
  used :: nat
  increase_by :: nat

definition bio_writer_create :: "(nat \<Rightarrow> byte) \<Rightarrow> u32 \<Rightarrow> bio_writer" where
  "bio_writer_create mem bufsize =
     \<lparr>buf = (if bufsize \<noteq> 0 then map mem [0..<unat bufsize] else []), used = 0,
      increase_by = (if bufsize \<noteq> 0 then unat (max bufsize 4) else 32)\<rparr>"

definition increase :: "(nat \<Rightarrow> byte) \<Rightarrow> bio_writer \<Rightarrow> nat \<Rightarrow> bio_writer option" where
  "increase mem this required = do {
     n \<leftarrow> while_option (\<lambda>n. used this + required > n) (\<lambda>n. n + increase_by this) (length (buf this));
     Some (this\<lparr>buf := buf this @ map mem [length (buf this)..<n]\<rparr>)
   }"

definition write_uint8 :: "(nat \<Rightarrow> byte) \<Rightarrow> bio_writer \<Rightarrow> byte \<Rightarrow> bio_writer option" where
  "write_uint8 mem this value = do {
     this \<leftarrow> increase mem this 1;
     Some (this\<lparr>buf := (buf this)[used this := value], used := used this + 1\<rparr>)
   }"

definition write_uint16 :: "(nat \<Rightarrow> byte) \<Rightarrow> bio_writer \<Rightarrow> u16 \<Rightarrow> bio_writer option" where
  "write_uint16 mem this value = do {
     this \<leftarrow> increase mem this 2;
     Some (this\<lparr>buf := store_at (buf this) (used this) (htoun16 value), used := used this + 2\<rparr>)
   }"

text \<open>The bytes of a variable in memory, on a little-endian host, are \<open>htoule32\<close>.\<close>

definition write_uint24 :: "(nat \<Rightarrow> byte) \<Rightarrow> bio_writer \<Rightarrow> u32 \<Rightarrow> bio_writer option" where
  "write_uint24 mem this value = do {
     this \<leftarrow> increase mem this 3;
     let value = htonl value;
     Some (this\<lparr>buf := store_at (buf this) (used this) (take 3 (drop 1 (htoule32 value))),
                used := used this + 3\<rparr>)
   }"

definition write_uint32 :: "(nat \<Rightarrow> byte) \<Rightarrow> bio_writer \<Rightarrow> u32 \<Rightarrow> bio_writer option" where
  "write_uint32 mem this value = do {
     this \<leftarrow> increase mem this 4;
     Some (this\<lparr>buf := store_at (buf this) (used this) (htoun32 value), used := used this + 4\<rparr>)
   }"

definition write_uint64 :: "(nat \<Rightarrow> byte) \<Rightarrow> bio_writer \<Rightarrow> u64 \<Rightarrow> bio_writer option" where
  "write_uint64 mem this value = do {
     this \<leftarrow> increase mem this 8;
     Some (this\<lparr>buf := store_at (buf this) (used this) (htoun64 value), used := used this + 8\<rparr>)
   }"

definition write_data :: "(nat \<Rightarrow> byte) \<Rightarrow> bio_writer \<Rightarrow> chunk \<Rightarrow> bio_writer option" where
  "write_data mem this value = do {
     this \<leftarrow> increase mem this (length value);
     Some (this\<lparr>buf := store_at (buf this) (used this) value, used := used this + length value\<rparr>)
   }"

definition write_data8 :: "(nat \<Rightarrow> byte) \<Rightarrow> bio_writer \<Rightarrow> chunk \<Rightarrow> bio_writer option" where
  "write_data8 mem this value = do {
     this \<leftarrow> increase mem this (1 + length value);
     this \<leftarrow> write_uint8 mem this (of_nat (length value));
     write_data mem this value
   }"

definition write_data16 :: "(nat \<Rightarrow> byte) \<Rightarrow> bio_writer \<Rightarrow> chunk \<Rightarrow> bio_writer option" where
  "write_data16 mem this value = do {
     this \<leftarrow> increase mem this (2 + length value);
     this \<leftarrow> write_uint16 mem this (of_nat (length value));
     write_data mem this value
   }"

definition write_data24 :: "(nat \<Rightarrow> byte) \<Rightarrow> bio_writer \<Rightarrow> chunk \<Rightarrow> bio_writer option" where
  "write_data24 mem this value = do {
     this \<leftarrow> increase mem this (3 + length value);
     this \<leftarrow> write_uint24 mem this (of_nat (length value));
     write_data mem this value
   }"

definition write_data32 :: "(nat \<Rightarrow> byte) \<Rightarrow> bio_writer \<Rightarrow> chunk \<Rightarrow> bio_writer option" where
  "write_data32 mem this value = do {
     this \<leftarrow> increase mem this (4 + length value);
     this \<leftarrow> write_uint32 mem this (of_nat (length value));
     write_data mem this value
   }"

text \<open>The \<open>wrap\<close> operations move the contents up, \<open>memmove\<close>, and put their length in front.\<close>

definition wrap8 :: "(nat \<Rightarrow> byte) \<Rightarrow> bio_writer \<Rightarrow> bio_writer option" where
  "wrap8 mem this = do {
     this \<leftarrow> increase mem this 1;
     let b = store_at (buf this) 1 (take (used this) (buf this));
     Some (this\<lparr>buf := b[0 := of_nat (used this)], used := used this + 1\<rparr>)
   }"

definition wrap16 :: "(nat \<Rightarrow> byte) \<Rightarrow> bio_writer \<Rightarrow> bio_writer option" where
  "wrap16 mem this = do {
     this \<leftarrow> increase mem this 2;
     let b = store_at (buf this) 2 (take (used this) (buf this));
     Some (this\<lparr>buf := store_at b 0 (htoun16 (of_nat (used this))), used := used this + 2\<rparr>)
   }"

definition wrap24 :: "(nat \<Rightarrow> byte) \<Rightarrow> bio_writer \<Rightarrow> bio_writer option" where
  "wrap24 mem this = do {
     this \<leftarrow> increase mem this 3;
     let b = store_at (buf this) 3 (take (used this) (buf this));
     let n = htonl (of_nat (used this));
     Some (this\<lparr>buf := store_at b 0 (take 3 (drop 1 (htoule32 n))), used := used this + 3\<rparr>)
   }"

definition wrap32 :: "(nat \<Rightarrow> byte) \<Rightarrow> bio_writer \<Rightarrow> bio_writer option" where
  "wrap32 mem this = do {
     this \<leftarrow> increase mem this 4;
     let b = store_at (buf this) 4 (take (used this) (buf this));
     Some (this\<lparr>buf := store_at b 0 (htoun32 (of_nat (used this))), used := used this + 4\<rparr>)
   }"

definition get_buf :: "bio_writer \<Rightarrow> chunk" where
  "get_buf this = take (used this) (buf this)"

definition extract_buf :: "bio_writer \<Rightarrow> chunk \<times> bio_writer" where
  "extract_buf this = (let b = get_buf this in (b, this\<lparr>buf := [], used := 0\<rparr>))"

text \<open>\<open>skip\<close> returns the bytes it leaves unwritten for the caller to fill.\<close>

definition skip :: "(nat \<Rightarrow> byte) \<Rightarrow> bio_writer \<Rightarrow> nat \<Rightarrow> (chunk \<times> bio_writer) option" where
  "skip mem this n = do {
     this \<leftarrow> increase mem this n;
     Some (take n (drop (used this) (buf this)), this\<lparr>used := used this + n\<rparr>)
   }"

section \<open>The writer grows as needed and appends\<close>

definition wf_writer :: "bio_writer \<Rightarrow> bool" where
  "wf_writer this \<longleftrightarrow> used this \<le> length (buf this) \<and> 0 < increase_by this"

lemma wf_writer_create: "wf_writer (bio_writer_create mem bufsize)"
  by (simp add: wf_writer_def bio_writer_create_def max_def word_neq_0_conv [symmetric] unat_gt_0)

lemma grow_terminates:
  "0 < inc \<Longrightarrow> \<exists>m. while_option (\<lambda>n. k > n) (\<lambda>n. n + inc) n = Some m \<and> k \<le> m \<and> n \<le> (m :: nat)"
proof -
  assume "0 < inc"
  then obtain m where m: "while_option (\<lambda>n. k > n) (\<lambda>n. n + inc) n = Some m"
    using measure_while_option_Some [of "\<lambda>_. True" "\<lambda>n. k > n" "\<lambda>n. n + inc" "\<lambda>n. k - n" n]
    by (auto simp: diff_less_mono2)
  have "k \<le> m" using while_option_stop [OF m] by simp
  moreover have "n \<le> m"
    by (rule while_option_rule [where P = "\<lambda>x. n \<le> x", OF _ m]) auto
  ultimately show ?thesis using m by blast
qed

lemma increase_Some:
  assumes "wf_writer w"
  obtains w' where "increase mem w n = Some w'" "wf_writer w'" "used w' = used w"
    "used w + n \<le> length (buf w')" "get_buf w' = get_buf w"
proof -
  obtain m where m: "while_option (\<lambda>k. used w + n > k) (\<lambda>k. k + increase_by w) (length (buf w)) = Some m"
    "used w + n \<le> m" "length (buf w) \<le> m"
    using assms grow_terminates [of "increase_by w" "used w + n" "length (buf w)"]
    by (auto simp: wf_writer_def)
  then show ?thesis
    by (intro that [of "w\<lparr>buf := buf w @ map mem [length (buf w)..<m]\<rparr>"])
      (use assms in \<open>auto simp: increase_def wf_writer_def get_buf_def\<close>)
qed

text \<open>
  Every write operation returns and appends its bytes to what \<open>get_buf\<close> returns, whatever the
  contents of fresh memory.
\<close>

definition appends :: "bio_writer \<Rightarrow> bio_writer option \<Rightarrow> chunk \<Rightarrow> bool" where
  "appends w r bs \<longleftrightarrow> (\<exists>w'. r = Some w' \<and> wf_writer w' \<and> get_buf w' = get_buf w @ bs)"

lemma appends_bind:
  assumes "appends w r bs" "\<And>w'. wf_writer w' \<Longrightarrow> get_buf w' = get_buf w @ bs \<Longrightarrow> appends w' (f w') cs"
  shows "appends w (r \<bind> f) (bs @ cs)"
  using assms unfolding appends_def by fastforce

lemma increase_appends: "wf_writer w \<Longrightarrow> appends w (increase mem w n) []"
  by (erule increase_Some [where mem = mem and n = n]) (simp add: appends_def)

lemma appends_after_increase:
  assumes "wf_writer w"
    "\<And>w'. wf_writer w' \<Longrightarrow> used w' + n \<le> length (buf w') \<Longrightarrow>
       f w' = w'\<lparr>buf := store_at (buf w') (used w') bs, used := used w' + n\<rparr>"
    "length bs = n"
  shows "appends w (increase mem w n \<bind> (\<lambda>w. Some (f w))) bs"
proof -
  from assms(1) obtain w' where w': "increase mem w n = Some w'" "wf_writer w'" "used w' = used w"
    "used w + n \<le> length (buf w')" "get_buf w' = get_buf w"
    by (rule increase_Some [where mem = mem and n = n])
  then have "f w' = w'\<lparr>buf := store_at (buf w') (used w') bs, used := used w' + n\<rparr>"
    using assms(2) by simp
  with w' assms(1,3) show ?thesis
    by (auto simp: appends_def wf_writer_def get_buf_def store_at_def)
qed

lemma write_appends:
  assumes "wf_writer w"
  shows "appends w (write_uint8 mem w v8) [v8]"
    and "appends w (write_uint16 mem w v16) (htoun16 v16)"
    and "appends w (write_uint24 mem w v32) (drop (Suc 0) (htoun32 v32))"
    and "appends w (write_uint32 mem w v32) (htoun32 v32)"
    and "appends w (write_uint64 mem w v64) (htoun64 v64)"
    and "appends w (write_data mem w d) d"
  unfolding write_uint8_def write_uint16_def write_uint24_def write_uint32_def write_uint64_def
    write_data_def Let_def
  by (rule appends_after_increase [OF assms]; simp add: list_update_store_at htonl_bytes)+

lemma write_data_appends:
  assumes "wf_writer w"
  shows "appends w (write_data8 mem w d) (of_nat (length d) # d)"
    and "appends w (write_data16 mem w d) (htoun16 (of_nat (length d)) @ d)"
    and "appends w (write_data24 mem w d) (drop (Suc 0) (htoun32 (of_nat (length d))) @ d)"
    and "appends w (write_data32 mem w d) (htoun32 (of_nat (length d)) @ d)"
proof -
  have *: "appends w (increase mem w n \<bind> (\<lambda>w. f w \<bind> (\<lambda>w. write_data mem w d))) (h @ d)"
    if "\<And>w. wf_writer w \<Longrightarrow> appends w (f w) h" for n f h
    using appends_bind [OF increase_appends [OF assms] appends_bind [OF that write_appends(6)]]
    by simp
  show "appends w (write_data8 mem w d) (of_nat (length d) # d)"
    using * [OF write_appends(1)] by (simp add: write_data8_def)
  show "appends w (write_data16 mem w d) (htoun16 (of_nat (length d)) @ d)"
    "appends w (write_data24 mem w d) (drop (Suc 0) (htoun32 (of_nat (length d))) @ d)"
    "appends w (write_data32 mem w d) (htoun32 (of_nat (length d)) @ d)"
    unfolding write_data16_def write_data24_def write_data32_def
    by (rule *, rule write_appends, assumption)+
qed

section \<open>What the reader returns\<close>

lemma read_front [simp]:
  "read_uint8 \<lparr>rbuf = v8 # r\<rparr> = (Some v8, \<lparr>rbuf = r\<rparr>)"
  "read_uint16 \<lparr>rbuf = htoun16 v16 @ r\<rparr> = (Some v16, \<lparr>rbuf = r\<rparr>)"
  "read_uint32 \<lparr>rbuf = htoun32 v32 @ r\<rparr> = (Some v32, \<lparr>rbuf = r\<rparr>)"
  "read_uint64 \<lparr>rbuf = htoun64 v64 @ r\<rparr> = (Some v64, \<lparr>rbuf = r\<rparr>)"
  by (simp_all add: read_uint8_def read_uint8_internal_def read_uint16_def read_uint16_internal_def
      read_uint32_def read_uint32_internal_def read_uint64_def read_uint64_internal_def
      get_ptr_end_def chunk_skip_end_def)

lemma read_data_front [simp]:
  "length d = unat n \<Longrightarrow> read_data \<lparr>rbuf = d @ r\<rparr> n = (Some d, \<lparr>rbuf = r\<rparr>)"
  by (simp add: read_data_def read_data_internal_def get_ptr_end_def chunk_skip_end_def)

lemma drop_htoun32: "drop (Suc 0) (htoun32 v) = be_of_nat 3 (unat v)"
proof -
  have "(4 :: nat) = Suc 3" by simp
  then show ?thesis by (simp only: htoun32_def be_of_nat.simps) simp
qed

text \<open>The uninitialised byte of \<open>read_uint24\<close> is shifted out, so the result does not depend on it.\<close>

lemma ntohl_24:
  assumes "length bs = 3"
  shows "drop_bit 8 (ntohl (uletoh32 (bs @ [stack]))) = of_nat (nat_of_be bs)"
proof (rule unat_inj)
  have "ntohl (uletoh32 (bs @ [stack])) = uletoh32 (rev (bs @ [stack]))"
    using assms by (simp add: ntohl_def htonl_def htoun32_of_le)
  also have "\<dots> = of_nat (nat_of_be (bs @ [stack]))"
    using assms by (simp add: uletoh32_def)
  finally have "unat (ntohl (uletoh32 (bs @ [stack]))) = nat_of_be (bs @ [stack])"
    using nat_of_be_less [of "bs @ [stack]"] assms
    by (simp add: unat_of_nat_small del: nat_of_be_append)
  then have "unat (drop_bit 8 (ntohl (uletoh32 (bs @ [stack])))) = nat_of_be bs"
    by (simp add: unat_drop_bit_div)
  then show "unat (drop_bit 8 (ntohl (uletoh32 (bs @ [stack])))) = unat (of_nat (nat_of_be bs) :: u32)"
    using nat_of_be_less [of bs] assms by (simp add: unat_of_nat_small)
qed

lemma read_uint24_front [simp]:
  assumes "unat v < 2 ^ 24"
  shows "read_uint24 stack \<lparr>rbuf = drop (Suc 0) (htoun32 v) @ r\<rparr> = (Some v, \<lparr>rbuf = r\<rparr>)"
  using assms ntohl_24 [of "be_of_nat 3 (unat v)"]
  by (simp add: read_uint24_def read_uint24_internal_def get_ptr_end_def chunk_skip_end_def
      drop_htoun32 Let_def)

section \<open>Writing and reading back\<close>

text \<open>
  A message is a sequence of fields, each written with one operation of the writer and read with the
  operation of the reader for its format.
\<close>

datatype field = U8 byte | U16 u16 | U24 u32 | U32 u32 | U64 u64
  | Data8 chunk | Data16 chunk | Data24 chunk | Data32 chunk | Data chunk

fun write_field :: "(nat \<Rightarrow> byte) \<Rightarrow> bio_writer \<Rightarrow> field \<Rightarrow> bio_writer option" where
  "write_field mem w (U8 v) = write_uint8 mem w v"
| "write_field mem w (U16 v) = write_uint16 mem w v"
| "write_field mem w (U24 v) = write_uint24 mem w v"
| "write_field mem w (U32 v) = write_uint32 mem w v"
| "write_field mem w (U64 v) = write_uint64 mem w v"
| "write_field mem w (Data8 d) = write_data8 mem w d"
| "write_field mem w (Data16 d) = write_data16 mem w d"
| "write_field mem w (Data24 d) = write_data24 mem w d"
| "write_field mem w (Data32 d) = write_data32 mem w d"
| "write_field mem w (Data d) = write_data mem w d"

datatype format = F8 | F16 | F24 | F32 | F64 | FData8 | FData16 | FData24 | FData32 | FData u32

fun format_of :: "field \<Rightarrow> format" where
  "format_of (U8 _) = F8" | "format_of (U16 _) = F16" | "format_of (U24 _) = F24"
| "format_of (U32 _) = F32" | "format_of (U64 _) = F64" | "format_of (Data8 _) = FData8"
| "format_of (Data16 _) = FData16" | "format_of (Data24 _) = FData24"
| "format_of (Data32 _) = FData32" | "format_of (Data d) = FData (of_nat (length d))"

fun read_field :: "byte \<Rightarrow> bio_reader \<Rightarrow> format \<Rightarrow> field option \<times> bio_reader" where
  "read_field stack r F8 = apfst (map_option U8) (read_uint8 r)"
| "read_field stack r F16 = apfst (map_option U16) (read_uint16 r)"
| "read_field stack r F24 = apfst (map_option U24) (read_uint24 stack r)"
| "read_field stack r F32 = apfst (map_option U32) (read_uint32 r)"
| "read_field stack r F64 = apfst (map_option U64) (read_uint64 r)"
| "read_field stack r FData8 = apfst (map_option Data8) (read_data8 r)"
| "read_field stack r FData16 = apfst (map_option Data16) (read_data16 r)"
| "read_field stack r FData24 = apfst (map_option Data24) (read_data24 stack r)"
| "read_field stack r FData32 = apfst (map_option Data32) (read_data32 r)"
| "read_field stack r (FData n) = apfst (map_option Data) (read_data r n)"

fun fits :: "field \<Rightarrow> bool" where
  "fits (U24 v) = (unat v < 2 ^ 24)"
| "fits (Data8 d) = (length d < 2 ^ 8)"
| "fits (Data16 d) = (length d < 2 ^ 16)"
| "fits (Data24 d) = (length d < 2 ^ 24)"
| "fits (Data32 d) = (length d < 2 ^ 32)"
| "fits (Data d) = (length d < 2 ^ 32)"
| "fits _ = True"

fun write_fields :: "(nat \<Rightarrow> byte) \<Rightarrow> bio_writer \<Rightarrow> field list \<Rightarrow> bio_writer option" where
  "write_fields mem w [] = Some w"
| "write_fields mem w (f # fs) = do { w \<leftarrow> write_field mem w f; write_fields mem w fs }"

fun read_fields :: "byte \<Rightarrow> bio_reader \<Rightarrow> format list \<Rightarrow> field list option \<times> bio_reader" where
  "read_fields stack r [] = (Some [], r)"
| "read_fields stack r (f # fs) = (case read_field stack r f of
     (None, r) \<Rightarrow> (None, r)
   | (Some x, r) \<Rightarrow> apfst (map_option (Cons x)) (read_fields stack r fs))"

fun wire :: "field \<Rightarrow> chunk" where
  "wire (U8 v) = [v]"
| "wire (U16 v) = htoun16 v"
| "wire (U24 v) = drop (Suc 0) (htoun32 v)"
| "wire (U32 v) = htoun32 v"
| "wire (U64 v) = htoun64 v"
| "wire (Data8 d) = of_nat (length d) # d"
| "wire (Data16 d) = htoun16 (of_nat (length d)) @ d"
| "wire (Data24 d) = drop (Suc 0) (htoun32 (of_nat (length d))) @ d"
| "wire (Data32 d) = htoun32 (of_nat (length d)) @ d"
| "wire (Data d) = d"

lemma write_field_wire: "wf_writer w \<Longrightarrow> appends w (write_field mem w f) (wire f)"
  by (cases f) (simp_all add: write_appends write_data_appends)

lemma write_fields_wire: "wf_writer w \<Longrightarrow> appends w (write_fields mem w fs) (concat (map wire fs))"
proof (induction fs arbitrary: w)
  case (Cons f fs)
  then show ?case using appends_bind [OF write_field_wire] by simp
qed (simp add: appends_def)

lemma read_field_wire:
  assumes "fits f"
  shows "read_field stack \<lparr>rbuf = wire f @ r\<rparr> (format_of f) = (Some f, \<lparr>rbuf = r\<rparr>)"
proof (cases f)
  case (Data24 d)
  then have "unat (of_nat (length d) :: u32) < 2 ^ 24" using assms by (simp add: unat_of_nat_small)
  then show ?thesis using Data24 assms read_uint24_front [of "of_nat (length d)" stack "d @ r"]
    by (simp add: read_data24_def unat_of_nat_small del: read_uint24_front)
qed (use assms in \<open>simp_all add: read_data8_def read_data16_def read_data32_def unat_of_nat_small
       unat_ucast_up\<close>)

lemma read_fields_wire:
  "list_all fits fs \<Longrightarrow>
     read_fields stack \<lparr>rbuf = concat (map wire fs) @ r\<rparr> (map format_of fs) = (Some fs, \<lparr>rbuf = r\<rparr>)"
  by (induction fs) (simp_all add: read_field_wire)

text \<open>
  C7.  The wire format is lossless: any sequence of fields that fit their encoding, written with a
  writer of any initial size, is read back by the reader in the same order, and the reader then
  stands at the data that follows.  The writer always returns, so its buffer loop ends.
\<close>

theorem bio_roundtrip:
  assumes "list_all fits fs"
  shows "\<exists>w. write_fields mem (bio_writer_create mem bufsize) fs = Some w \<and>
    read_fields stack (bio_reader_create (get_buf w @ rest)) (map format_of fs) =
      (Some fs, bio_reader_create rest)"
proof -
  have "get_buf (bio_writer_create mem bufsize) = []"
    by (simp add: get_buf_def bio_writer_create_def)
  then obtain w where "write_fields mem (bio_writer_create mem bufsize) fs = Some w"
    "get_buf w = concat (map wire fs)"
    using write_fields_wire [OF wf_writer_create, of mem bufsize mem fs] by (auto simp: appends_def)
  then show ?thesis using read_fields_wire [OF assms] by (simp add: bio_reader_create_def)
qed

theorem bio_roundtrip_witness:
  "\<exists>w. write_fields (\<lambda>_. 7) (bio_writer_create (\<lambda>_. 7) 0) [U16 500, Data8 [1, 2], U24 3] = Some w \<and>
    read_fields 9 (bio_reader_create (get_buf w @ [4])) [F16, FData8, F24] =
      (Some [U16 500, Data8 [1, 2], U24 3], bio_reader_create [4])"
  using bio_roundtrip [of "[U16 500, Data8 [1, 2], U24 3]" "\<lambda>_. 7" 0 9 "[4]"] by simp

section \<open>Wrapping\<close>

lemma wrap_after_increase:
  assumes "wf_writer w" "length h = n"
    "\<And>w'. used w' = used w \<Longrightarrow> used w + n \<le> length (buf w') \<Longrightarrow>
       f w' = w'\<lparr>buf := store_at (store_at (buf w') n (take (used w') (buf w'))) 0 h, used := used w' + n\<rparr>"
  shows "\<exists>w'. increase mem w n \<bind> (\<lambda>w. Some (f w)) = Some w' \<and> wf_writer w' \<and> get_buf w' = h @ get_buf w"
proof -
  from assms(1) obtain w' where w': "increase mem w n = Some w'" "wf_writer w'" "used w' = used w"
    "used w + n \<le> length (buf w')" "get_buf w' = get_buf w"
    by (rule increase_Some [where mem = mem and n = n])
  then have "f w' = w'\<lparr>buf := store_at (store_at (buf w') n (take (used w') (buf w'))) 0 h, used := used w' + n\<rparr>"
    using assms(3) by simp
  with w' assms(1,2) show ?thesis
    by (auto simp: wf_writer_def get_buf_def store_at_def)
qed

lemma wrap_get_buf:
  assumes "wf_writer w"
  shows "\<exists>w'. wrap8 mem w = Some w' \<and> wf_writer w' \<and> get_buf w' = of_nat (used w) # get_buf w"
    and "\<exists>w'. wrap16 mem w = Some w' \<and> wf_writer w' \<and> get_buf w' = htoun16 (of_nat (used w)) @ get_buf w"
    and "\<exists>w'. wrap24 mem w = Some w' \<and> wf_writer w' \<and>
      get_buf w' = drop (Suc 0) (htoun32 (of_nat (used w))) @ get_buf w"
    and "\<exists>w'. wrap32 mem w = Some w' \<and> wf_writer w' \<and> get_buf w' = htoun32 (of_nat (used w)) @ get_buf w"
proof -
  show "\<exists>w'. wrap8 mem w = Some w' \<and> wf_writer w' \<and> get_buf w' = of_nat (used w) # get_buf w"
    using wrap_after_increase [OF assms, of "[of_nat (used w)]" 1
        "\<lambda>w. w\<lparr>buf := (store_at (buf w) 1 (take (used w) (buf w)))[0 := of_nat (used w)], used := used w + 1\<rparr>" mem]
    by (simp add: wrap8_def Let_def list_update_store_at store_at_def)
  show "\<exists>w'. wrap16 mem w = Some w' \<and> wf_writer w' \<and> get_buf w' = htoun16 (of_nat (used w)) @ get_buf w"
    "\<exists>w'. wrap24 mem w = Some w' \<and> wf_writer w' \<and>
      get_buf w' = drop (Suc 0) (htoun32 (of_nat (used w))) @ get_buf w"
    "\<exists>w'. wrap32 mem w = Some w' \<and> wf_writer w' \<and> get_buf w' = htoun32 (of_nat (used w)) @ get_buf w"
    unfolding wrap16_def wrap24_def wrap32_def Let_def
    by (rule wrap_after_increase [OF assms]; simp add: htonl_bytes)+
qed

fun wrap :: "nat \<Rightarrow> (nat \<Rightarrow> byte) \<Rightarrow> bio_writer \<Rightarrow> bio_writer option" where
  "wrap n mem w = (if n = 1 then wrap8 mem w else if n = 2 then wrap16 mem w
     else if n = 3 then wrap24 mem w else wrap32 mem w)"

fun read_wrapped :: "nat \<Rightarrow> byte \<Rightarrow> bio_reader \<Rightarrow> chunk option \<times> bio_reader" where
  "read_wrapped n stack r = (if n = 1 then read_data8 r else if n = 2 then read_data16 r
     else if n = 3 then read_data24 stack r else read_data32 r)"

lemma read_data_fields [simp]:
  "length d < 2 ^ 8 \<Longrightarrow> read_data8 \<lparr>rbuf = of_nat (length d) # d @ r\<rparr> = (Some d, \<lparr>rbuf = r\<rparr>)"
  "length d < 2 ^ 16 \<Longrightarrow> read_data16 \<lparr>rbuf = htoun16 (of_nat (length d)) @ d @ r\<rparr> = (Some d, \<lparr>rbuf = r\<rparr>)"
  "length d < 2 ^ 24 \<Longrightarrow>
     read_data24 stack \<lparr>rbuf = drop (Suc 0) (htoun32 (of_nat (length d))) @ d @ r\<rparr> = (Some d, \<lparr>rbuf = r\<rparr>)"
  "length d < 2 ^ 32 \<Longrightarrow> read_data32 \<lparr>rbuf = htoun32 (of_nat (length d)) @ d @ r\<rparr> = (Some d, \<lparr>rbuf = r\<rparr>)"
  using read_field_wire [of "Data8 d" _ r] read_field_wire [of "Data16 d" _ r]
    read_field_wire [of "Data24 d" stack r] read_field_wire [of "Data32 d" _ r]
  by (auto simp: apfst_def map_prod_def split: prod.splits)

text \<open>
  C8.  Wrapping puts a length in front that the reader undoes: if the contents fit the 8, 16, 24 or
  32 bit length, reading a length-prefixed chunk from the wrapped buffer returns the contents before
  and leaves what follows.
\<close>

theorem wrap_read_data:
  assumes "wf_writer w" "n \<in> {1, 2, 3, 4}" "used w < 256 ^ n"
  shows "\<exists>w'. wrap n mem w = Some w' \<and> wf_writer w' \<and>
    read_wrapped n stack (bio_reader_create (get_buf w' @ rest)) = (Some (get_buf w), bio_reader_create rest)"
proof -
  have u: "length (get_buf w) = used w" using assms(1) by (simp add: wf_writer_def get_buf_def)
  note g = wrap_get_buf [OF assms(1), of mem, folded u] and l = assms(3) [folded u]
  from assms(2) consider "n = 1" | "n = 2" | "n = 3" | "n = 4" by auto
  then show ?thesis
  proof cases
    case 1
    with g(1) l show ?thesis by (auto simp: bio_reader_create_def)
  next
    case 2
    with g(2) l show ?thesis by (auto simp: bio_reader_create_def)
  next
    case 3
    with g(3) l show ?thesis by (auto simp: bio_reader_create_def)
  next
    case 4
    with g(4) l show ?thesis by (auto simp: bio_reader_create_def)
  qed
qed

theorem wrap_read_data_witness:
  "\<exists>w'. wrap 2 (\<lambda>_. 0) \<lparr>buf = [1, 2, 3, 0], used = 3, increase_by = 4\<rparr> = Some w' \<and> wf_writer w' \<and>
    read_wrapped 2 0 (bio_reader_create (get_buf w' @ [9])) = (Some [1, 2, 3], bio_reader_create [9])"
  using wrap_read_data [of "\<lparr>buf = [1, 2, 3, 0], used = 3, increase_by = 4\<rparr>" 2 "\<lambda>_. 0" 0 "[9]"]
  by (simp add: wf_writer_def get_buf_def)

section \<open>Reading from the end\<close>

lemma read_uint8_end_append [simp]:
  "read_uint8_end \<lparr>rbuf = xs @ [b]\<rparr> = (Some b, \<lparr>rbuf = xs\<rparr>)"
  by (cases xs) (simp_all add: read_uint8_end_def read_uint8_internal_def get_ptr_end_def chunk_skip_end_def)

lemma read_data_end_append [simp]:
  "length d = unat n \<Longrightarrow> read_data_end \<lparr>rbuf = xs @ d\<rparr> n = (Some d, \<lparr>rbuf = xs\<rparr>)"
  by (cases "xs = []") (simp_all add: read_data_end_def read_data_internal_def get_ptr_end_def chunk_skip_end_def)

lemma read_uint8_end_Some: "read_uint8_end r = (Some b, r') \<longleftrightarrow> rbuf r = rbuf r' @ [b]"
proof (cases "rbuf r" rule: rev_cases)
  case Nil
  then show ?thesis by (simp add: read_uint8_end_def read_uint8_internal_def)
next
  case (snoc xs x)
  then have "r = \<lparr>rbuf = xs @ [x]\<rparr>" by simp
  then show ?thesis by (cases r') auto
qed

lemma read_data_end_Some: "read_data_end r n = (Some d, r') \<longleftrightarrow> rbuf r = rbuf r' @ d \<and> length d = unat n"
proof (cases "length (rbuf r) < unat n")
  case True
  then show ?thesis by (auto simp: read_data_end_def read_data_internal_def)
next
  case False
  define x y where "x = take (length (rbuf r) - unat n) (rbuf r)" and "y = drop (length (rbuf r) - unat n) (rbuf r)"
  have "r = \<lparr>rbuf = x @ y\<rparr>" "length y = unat n" using False by (simp_all add: x_def y_def)
  then show ?thesis by (cases r') auto
qed

lemma read_data_Some: "read_data r n = (Some d, r') \<longleftrightarrow> rbuf r = d @ rbuf r' \<and> length d = unat n"
proof (cases "length (rbuf r) < unat n")
  case True
  then show ?thesis by (auto simp: read_data_def read_data_internal_def)
next
  case False
  define x y where "x = take (unat n) (rbuf r)" and "y = drop (unat n) (rbuf r)"
  have "r = \<lparr>rbuf = x @ y\<rparr>" "length x = unat n" using False by (simp_all add: x_def y_def)
  then show ?thesis by (cases r') auto
qed

lemma read_uint32_Some: "read_uint32 r = (Some v, r') \<longleftrightarrow> rbuf r = htoun32 v @ rbuf r'"
proof (cases "length (rbuf r) < 4")
  case True
  then show ?thesis by (auto simp: read_uint32_def read_uint32_internal_def)
next
  case False
  then have l: "length (take 4 (rbuf r)) = 4" by simp
  have "untoh32 (take 4 (rbuf r)) = untoh32 (rbuf r)" by (simp add: untoh32_def)
  then have t: "take 4 (rbuf r) = htoun32 (untoh32 (rbuf r))" using htoun32_untoh32 [OF l] by simp
  define x y where "x = untoh32 (rbuf r)" and "y = drop 4 (rbuf r)"
  have "r = \<lparr>rbuf = htoun32 x @ y\<rparr>" using append_take_drop_id [of 4 "rbuf r"] by (simp add: t x_def y_def)
  moreover have "htoun32 x = htoun32 v \<longleftrightarrow> x = v" by (metis untoh32_htoun32)
  ultimately show ?thesis by (cases r') auto
qed

end
