(* ===== verification/Chunk.thy ===== *)
theory Chunk
  imports Prelude
begin

text \<open>
  Operations on byte strings (\<open>utils/chunk.c\<close>, \<open>utils/chunk.h\<close>): skipping, comparison, the
  increment of a big-endian counter, hexadecimal and base 64 conversion, and the internet checksum
  that \<open>libipsec\<close> puts into the IP and transport headers it builds.
\<close>

section \<open>Skipping, comparing, incrementing\<close>

definition chunk_skip :: "chunk \<Rightarrow> nat \<Rightarrow> chunk" where
  "chunk_skip c n = (if length c > n then drop n c else [])"

lemma chunk_skip_drop [simp]: "chunk_skip c n = drop n c"
  by (simp add: chunk_skip_def)

fun chunk_skip_zero :: "chunk \<Rightarrow> chunk" where
  "chunk_skip_zero (b # c # cs) = (if b = 0 then chunk_skip_zero (c # cs) else b # c # cs)"
| "chunk_skip_zero cs = cs"

lemma nat_of_be_skip_zero: "nat_of_be (chunk_skip_zero c) = nat_of_be c"
  by (induction c rule: chunk_skip_zero.induct) simp_all

definition chunk_compare :: "chunk \<Rightarrow> chunk \<Rightarrow> int" where
  "chunk_compare a b =
     (let compare_len = int (length a) - int (length b);
          len = (if compare_len < 0 then length a else length b)
      in if compare_len \<noteq> 0 \<or> len = 0 then compare_len else memcmp a b len)"

text \<open>The loop of \<open>chunk_increment\<close> from the last byte on; the flag is \<open>TRUE\<close> on overflow.\<close>

fun increment_bytes :: "chunk \<Rightarrow> bool \<times> chunk" where
  "increment_bytes [] = (True, [])"
| "increment_bytes (b # bs) =
     (if b + 1 \<noteq> 0 then (False, (b + 1) # bs)
      else let (ovf, bs') = increment_bytes bs in (ovf, (b + 1) # bs'))"

definition chunk_increment :: "chunk \<Rightarrow> bool \<times> chunk" where
  "chunk_increment c = (let (ovf, r) = increment_bytes (rev c) in (ovf, rev r))"

lemma unat_byte_suc: "unat (b + 1 :: byte) = (if unat b = 255 then 0 else unat b + 1)"
  using unat_byte_less [of b] by (simp add: unat_word_ariths mod_Suc)

lemma byte_suc_eq_0: "(b :: byte) + 1 = 0 \<longleftrightarrow> unat b = 255"
  by (simp add: unat_byte_suc flip: unat_0_iff)

lemma length_increment_bytes [simp]: "length (snd (increment_bytes c)) = length c"
  by (induction c) (auto simp: Let_def split: prod.splits)

lemma increment_bytes_val:
  "increment_bytes c = (ovf, r) \<Longrightarrow>
     nat_of_be (rev r) + (if ovf then 256 ^ length c else 0) = nat_of_be (rev c) + 1"
proof (induction c arbitrary: ovf r)
  case (Cons b bs)
  obtain ovf' bs' where r: "increment_bytes bs = (ovf', bs')" by force
  then have len: "length bs' = length bs" using length_increment_bytes [of bs] by simp
  show ?case
    using Cons.prems Cons.IH [OF r] len r
    by (auto simp: byte_suc_eq_0 unat_byte_suc split: if_splits)
qed simp

lemma carry_mod:
  fixes x y N :: nat
  assumes "x + (if carry then N else 0) = y + 1" "x < N" "y < N"
  shows "x = (y + 1) mod N \<and> carry = (y + 1 = N)"
proof (cases carry)
  case True
  then have "x = 0" "y + 1 = N" using assms by auto
  then show ?thesis using True by simp
qed (use assms in auto)


section \<open>Hexadecimal\<close>

definition bytes_of_string :: "string \<Rightarrow> chunk" where
  "bytes_of_string s = map of_char s"

definition hexdig :: "bool \<Rightarrow> chunk" where
  "hexdig uppercase = bytes_of_string (if uppercase then ''0123456789ABCDEF'' else ''0123456789abcdef'')"

fun chunk_to_hex :: "chunk \<Rightarrow> bool \<Rightarrow> chunk" where
  "chunk_to_hex [] uppercase = []"
| "chunk_to_hex (b # bs) uppercase =
     hexdig uppercase ! unat (drop_bit 4 b AND 0xF) # hexdig uppercase ! unat (b AND 0xF) #
     chunk_to_hex bs uppercase"

definition hex2bin :: "byte \<Rightarrow> byte" where
  "hex2bin h =
     (if 0x30 \<le> h \<and> h \<le> 0x39 then h - 0x30
      else if 0x41 \<le> h \<and> h \<le> 0x46 then h - 0x41 + 10
      else if 0x61 \<le> h \<and> h \<le> 0x66 then h - 0x61 + 10
      else 0)"

text \<open>
  The loop of \<open>chunk_from_hex\<close>, from the last byte on: the characters are read from the end
  (\<open>rev\<close>), one separator is skipped before each byte, the first byte of an odd number of digits
  has no high digit.
\<close>

fun from_hex_loop :: "nat \<Rightarrow> bool \<Rightarrow> chunk \<Rightarrow> chunk \<Rightarrow> chunk" where
  "from_hex_loop 0 odd_len cs buf = buf"
| "from_hex_loop (Suc i) odd_len cs buf =
     (let cs = (if hd cs = 0x3A then tl cs else cs)
      in if i > 0 \<or> \<not> odd_len
         then from_hex_loop i odd_len (drop 2 cs) ((hex2bin (hd cs) OR push_bit 4 (hex2bin (hd (tl cs)))) # buf)
         else from_hex_loop i odd_len (drop 1 cs) (hex2bin (hd cs) # buf))"

definition chunk_from_hex :: "chunk \<Rightarrow> chunk" where
  "chunk_from_hex hex =
     (let hex = (if length hex > 1 \<and> hex ! 1 = 0x78 \<and> hex ! 0 = 0x30 then chunk_skip hex 2 else hex);
          len = length (filter (\<lambda>b. b \<noteq> 0x3A) hex);
          odd_len = (len mod 2 \<noteq> 0);
          len = (if odd_len then len + 1 else len) div 2
      in from_hex_loop len odd_len (rev hex) [])"

lemma hexdig_props:
  "n < 16 \<Longrightarrow> hex2bin (hexdig u ! n) = of_nat n \<and> hexdig u ! n \<noteq> 0x3A \<and> hexdig u ! n \<noteq> 0x78"
proof -
  have "\<forall>n \<in> set [0..<16]. hex2bin (hexdig u ! n) = of_nat n \<and> hexdig u ! n \<noteq> 0x3A \<and> hexdig u ! n \<noteq> 0x78"
    by (cases u) (simp_all add: hexdig_def bytes_of_string_def hex2bin_def upt_conv_Cons_Cons upt_rec)
  then show "n < 16 \<Longrightarrow> ?thesis" by simp
qed

lemma nibble_less: "unat (b AND 0xF :: byte) < 16"
proof -
  have "b AND 0xF \<le> 0xF" by (rule word_and_le1)
  then show ?thesis by (simp add: word_le_nat_alt)
qed

lemma nibbles: "(b AND 0xF) OR push_bit 4 (drop_bit 4 b AND 0xF) = (b :: byte)"
  by (rule byte_eqI) (auto simp: bit_simps)

lemma chunk_to_hex_append: "chunk_to_hex (xs @ ys) u = chunk_to_hex xs u @ chunk_to_hex ys u"
  by (induction xs) simp_all

lemma length_chunk_to_hex [simp]: "length (chunk_to_hex bs u) = 2 * length bs"
  by (induction bs) simp_all

lemma set_chunk_to_hex: "set (chunk_to_hex bs u) \<subseteq> {hexdig u ! n |n. n < 16}"
  by (induction bs) (auto intro: nibble_less)

lemma from_hex_loop_to_hex:
  "from_hex_loop (length bs) False (rev (chunk_to_hex bs u)) buf = bs @ buf"
proof (induction bs arbitrary: buf rule: rev_induct)
  case (snoc b bs)
  then show ?case
    using hexdig_props [OF nibble_less, of u b] hexdig_props [OF nibble_less, of u "drop_bit 4 b"]
      nibbles [of b]
    by (simp add: chunk_to_hex_append Let_def)
qed simp


section \<open>Base 64\<close>

definition b64digits :: chunk where
  "b64digits = bytes_of_string ''ABCDEFGHIJKLMNOPQRSTUVWXYZabcdefghijklmnopqrstuvwxyz0123456789+/''"

fun chunk_to_base64 :: "chunk \<Rightarrow> chunk" where
  "chunk_to_base64 [] = []"
| "chunk_to_base64 [a] =
     [b64digits ! unat (drop_bit 2 a), b64digits ! unat (push_bit 4 (a AND 0x03)), 0x3D, 0x3D]"
| "chunk_to_base64 [a, b] =
     [b64digits ! unat (drop_bit 2 a),
      b64digits ! unat (push_bit 4 (a AND 0x03) OR drop_bit 4 b),
      b64digits ! unat (push_bit 2 (b AND 0x0F)), 0x3D]"
| "chunk_to_base64 (a # b # c # cs) =
     b64digits ! unat (drop_bit 2 a) #
     b64digits ! unat (push_bit 4 (a AND 0x03) OR drop_bit 4 b) #
     b64digits ! unat (push_bit 2 (b AND 0x0F) OR drop_bit 6 c) #
     b64digits ! unat (c AND 0x3F) # chunk_to_base64 cs"

text \<open>\<open>b642bin\<close> returns an \<open>int\<close>; the caller stores it in a byte, so \<open>-1\<close> becomes \<open>0xff\<close>.\<close>

definition b642bin :: "byte \<Rightarrow> byte" where
  "b642bin b =
     (if 0x41 \<le> b \<and> b \<le> 0x5A then b - 0x41
      else if 0x61 \<le> b \<and> b \<le> 0x7A then 26 + b - 0x61
      else if 0x30 \<le> b \<and> b \<le> 0x39 then 26 + 26 + b - 0x30
      else if b = 0x2B \<or> b = 0x2D then 62
      else if b = 0x2F \<or> b = 0x5F then 63
      else if b = 0x3D then 0
      else 0xff)"

definition count_pad :: "nat \<Rightarrow> byte \<Rightarrow> nat" where
  "count_pad outlen b = (if b = 0x3D \<and> outlen > 0 then outlen - 1 else outlen)"

fun from_base64_loop :: "chunk \<Rightarrow> nat \<Rightarrow> chunk \<times> nat" where
  "from_base64_loop (p0 # p1 # p2 # p3 # ps) outlen =
     (let outlen = foldl count_pad (outlen + 3) [p0, p1, p2, p3];
          b0 = b642bin p0; b1 = b642bin p1; b2 = b642bin p2; b3 = b642bin p3;
          (buf, outlen) = from_base64_loop ps outlen
      in ((push_bit 2 b0 OR drop_bit 4 b1) # (push_bit 4 b1 OR drop_bit 2 b2) #
          (push_bit 6 b2 OR b3) # buf, outlen))"
| "from_base64_loop _ outlen = ([], outlen)"

definition chunk_from_base64 :: "chunk \<Rightarrow> chunk" where
  "chunk_from_base64 base64 = (let (buf, outlen) = from_base64_loop base64 0 in take outlen buf)"

lemma b64digits_props:
  assumes "unat (i :: byte) < 64"
  shows "b642bin (b64digits ! unat i) = i" "b64digits ! unat i \<noteq> 0x3D"
proof -
  have "\<forall>n \<in> set [0..<64]. b642bin (b64digits ! n) = of_nat n \<and> b64digits ! n \<noteq> 0x3D"
    by (simp add: b64digits_def bytes_of_string_def b642bin_def upt_rec)
  then have "b642bin (b64digits ! unat i) = of_nat (unat i) \<and> b64digits ! unat i \<noteq> 0x3D"
    using assms by auto
  then show "b642bin (b64digits ! unat i) = i" "b64digits ! unat i \<noteq> 0x3D" by simp_all
qed

text \<open>The six bit groups of three bytes, and the bytes they are put together to.\<close>

lemma unat_less_64: "x AND 0x3F = x \<Longrightarrow> unat (x :: byte) < 64"
proof -
  assume "x AND 0x3F = x"
  moreover have "x AND 0x3F \<le> 0x3F" by (rule word_and_le1)
  ultimately have "x \<le> 0x3F" by simp
  then show ?thesis by (simp add: word_le_nat_alt)
qed

lemma six_bits:
  "unat (drop_bit 2 (a :: byte)) < 64"
  "unat (push_bit 4 (a AND 0x03) OR drop_bit 4 b) < 64"
  "unat (push_bit 4 (a AND 0x03)) < 64"
  "unat (push_bit 2 (b AND 0x0F) OR drop_bit 6 c) < 64"
  "unat (push_bit 2 (b AND 0x0F)) < 64"
  "unat (c AND 0x3F) < 64" for a b c :: byte
  by (rule unat_less_64, rule byte_eqI, (auto simp: bit_simps dest: bit_imp_le_length) [1])+

lemma join_bits:
  "push_bit 2 (drop_bit 2 a) OR drop_bit 4 (push_bit 4 (a AND 0x03) OR drop_bit 4 b) = a"
  "push_bit 2 (drop_bit 2 a) OR drop_bit 4 (push_bit 4 (a AND 0x03)) = a"
  "push_bit 4 (push_bit 4 (a AND 0x03) OR drop_bit 4 b) OR
     drop_bit 2 (push_bit 2 (b AND 0x0F) OR drop_bit 6 c) = b"
  "push_bit 4 (push_bit 4 (a AND 0x03) OR drop_bit 4 b) OR drop_bit 2 (push_bit 2 (b AND 0x0F)) = b"
  "push_bit 6 (push_bit 2 (b AND 0x0F) OR drop_bit 6 c) OR (c AND 0x3F) = c" for a b c :: byte
  by (rule byte_eqI, (auto simp: bit_simps dest: bit_imp_le_length;
        simp add: numeral_2_eq_2 numeral_3_eq_3) [1])+

lemma from_base64_loop_to_base64:
  "from_base64_loop (chunk_to_base64 bs) n =
     (bs @ replicate ((3 - length bs mod 3) mod 3) 0, n + length bs)"
proof (induction bs arbitrary: n rule: chunk_to_base64.induct)
  case (2 a)
  show ?case using join_bits(2) [of a] six_bits(1) [of a] six_bits(3) [of a]
    by (simp add: b64digits_props count_pad_def, simp add: b642bin_def, simp add: numeral_2_eq_2)
next
  case (3 a b)
  show ?case
    using join_bits(1) [of a b] join_bits(4) [of a b] six_bits(1) [of a] six_bits(2) [of a b]
      six_bits(5) [of b]
    by (simp add: b64digits_props count_pad_def, simp add: b642bin_def)
next
  case (4 a b c cs)
  then show ?case
    using join_bits(1) [of a b] join_bits(3) [of a b c] join_bits(5) [of b c] six_bits(1) [of a] six_bits(2) [of a b]
      six_bits(4) [of b c] six_bits(6) [of c]
    by (simp add: b64digits_props count_pad_def)
qed simp


section \<open>The Internet checksum\<close>

text \<open>
  The two loops of \<open>chunk_internet_checksum_inc\<close>: the sum of the 16 bit words of the data, the last
  one padded, and the fold of the carries.  The sum is kept in 32 bits.
\<close>

fun sum16 :: "chunk \<Rightarrow> u32 \<Rightarrow> u32" where
  "sum16 (a # b # data) acc = sum16 data (acc + ucast (untoh16 [a, b]))"
| "sum16 [a] acc = acc + push_bit 8 (ucast a)"
| "sum16 [] acc = acc"

lemma unat_fold_step:
  fixes s :: u32
  shows "unat ((s AND 0xffff) + drop_bit 16 s) = unat s mod 65536 + unat s div 65536"
proof -
  have "s AND 0xffff = take_bit 16 s" by (simp add: take_bit_eq_mask mask_eq_exp_minus_1)
  then have m: "unat (s AND 0xffff) = unat s mod 65536"
    by (simp add: unsigned_take_bit_eq take_bit_eq_mod [where a = "unat s"])
  have d: "unat (drop_bit 16 s) = unat s div 65536"
    by (simp add: unat_drop_bit_eq drop_bit_eq_div [where a = "unat s"])
  have "unat s mod 65536 + unat s div 65536 < 4294967296"
    using unat_word_less(2) [of s] by linarith
  with m d show ?thesis by (simp add: unat_word_ariths)
qed

function fold16 :: "u32 \<Rightarrow> u32" where
  "fold16 s = (if drop_bit 16 s \<noteq> 0 then fold16 ((s AND 0xffff) + drop_bit 16 s) else s)"
  by auto

lemma drop_bit_16_eq_0: "drop_bit 16 (s :: u32) = 0 \<longleftrightarrow> unat s < 65536"
proof -
  have "unat (drop_bit 16 s) = unat s div 65536"
    by (simp add: unat_drop_bit_eq drop_bit_eq_div [where a = "unat s"])
  then show ?thesis by (simp add: word_unat_eq_iff div_eq_0_iff)
qed

termination fold16
proof (relation "measure unat")
  fix s :: u32
  assume "drop_bit 16 s \<noteq> 0"
  then have "65536 \<le> unat s" by (simp add: drop_bit_16_eq_0)
  moreover have "unat s = 65536 * (unat s div 65536) + unat s mod 65536" by simp
  moreover have "0 < unat s div 65536" using calculation(1) by (simp add: div_greater_zero_iff)
  ultimately have "unat s mod 65536 + unat s div 65536 < unat s" by linarith
  then show "((s AND 0xffff) + drop_bit 16 s, s) \<in> measure unat"
    by (simp add: unat_fold_step)
qed simp

declare fold16.simps [simp del]

definition chunk_internet_checksum_inc :: "chunk \<Rightarrow> u16 \<Rightarrow> u16" where
  "chunk_internet_checksum_inc data checksum =
     htons (ucast (NOT (fold16 (sum16 data (ucast (ntohs (NOT checksum)))))))"

definition chunk_internet_checksum :: "chunk \<Rightarrow> u16" where
  "chunk_internet_checksum data = chunk_internet_checksum_inc data 0xffff"

text \<open>
  The specification is arithmetic on natural numbers: the sum of the words, and its representative
  in ones' complement, where a positive multiple of 65535 is written as 65535 and never as 0.
\<close>

fun word_sum :: "chunk \<Rightarrow> nat" where
  "word_sum (a # b # data) = nat_of_be [a, b] + word_sum data"
| "word_sum [a] = 256 * unat a"
| "word_sum [] = 0"

definition ones_rep :: "nat \<Rightarrow> nat" where
  "ones_rep n = (if n = 0 then 0 else (n - 1) mod 65535 + 1)"

lemma word_sum_bound: "word_sum data \<le> 65535 * ((length data + 1) div 2)"
proof (induction data rule: word_sum.induct)
  case (1 a b data)
  then show ?case using nat_of_be_less [of "[a, b]"] by simp
next
  case (2 a)
  have "unat a \<le> 255" using unat_byte_less [of a] by linarith
  then show ?case by simp
qed simp

lemma word_sum_append: "even (length xs) \<Longrightarrow> word_sum (xs @ ys) = word_sum xs + word_sum ys"
  by (induction xs rule: word_sum.induct) auto

lemma sum16_word_sum:
  "unat s + word_sum data < 4294967296 \<Longrightarrow> unat (sum16 data s) = unat s + word_sum data"
proof (induction data s rule: sum16.induct)
  case (1 a b data s)
  have "unat (ucast (untoh16 [a, b]) :: u32) = nat_of_be [a, b]"
    using nat_of_be_less [of "[a, b]"]
    by (simp add: untoh16_def unat_of_nat_small unat_ucast_up del: nat_of_be.simps)
  with 1 have "unat (s + ucast (untoh16 [a, b])) = unat s + nat_of_be [a, b]"
    by (simp add: unat_word_ariths)
  with 1 show ?case by simp
next
  case (2 a s)
  have *: "unat a * 256 < 4294967296" using unat_byte_less [of a] by linarith
  have "unat (push_bit 8 (ucast a) :: u32) = 256 * unat a"
    using * by (simp add: push_bit_eq_mult unat_word_ariths unat_ucast_up)
  with 2 show ?case by (simp add: unat_word_ariths)
qed simp

lemma ones_rep_fold:
  "65536 \<le> n \<Longrightarrow> ones_rep (n mod 65536 + n div 65536) = ones_rep n"
proof -
  assume n: "65536 \<le> n"
  define q r where "q = n div 65536" and "r = n mod 65536"
  have "n = 65536 * q + r" by (simp add: q_def r_def)
  moreover have "0 < q" using n by (simp add: q_def div_greater_zero_iff)
  ultimately have "n - 1 = (q + r - 1) + q * 65535" by simp
  then have "(n - 1) mod 65535 = (q + r - 1) mod 65535" by simp
  then show ?thesis using n \<open>0 < q\<close> by (simp add: ones_rep_def q_def [symmetric] r_def [symmetric] add.commute)
qed

lemma ones_rep_small: "n < 65536 \<Longrightarrow> ones_rep n = n"
  by (auto simp: ones_rep_def)

lemma ones_rep_less: "ones_rep n < 65536"
  by (simp add: ones_rep_def less_Suc_eq_le [symmetric])

lemma unat_fold16: "unat (fold16 s) = ones_rep (unat s)"
proof (induction s rule: fold16.induct)
  case (1 s)
  show ?case
  proof (cases "drop_bit 16 s = 0")
    case True
    then show ?thesis by (simp add: fold16.simps [of s] drop_bit_16_eq_0 ones_rep_small)
  next
    case False
    then show ?thesis using 1 by (simp add: fold16.simps [of s] drop_bit_16_eq_0 unat_fold_step ones_rep_fold)
  qed
qed

lemma word_sum_2: "length xs = 2 \<Longrightarrow> word_sum xs = nat_of_be xs"
  by (auto simp: numeral_2_eq_2 length_Suc_conv)

definition checksum_spec :: "nat \<Rightarrow> u16" where
  "checksum_spec n = htons (of_nat (65535 - ones_rep n))"

lemma ntohs_not_checksum_spec: "unat (ntohs (NOT (checksum_spec n))) = ones_rep n"
  using ones_rep_less [of n]
  by (simp add: checksum_spec_def ntohs_def htons_not unat_not16 unat_of_nat_small del: of_nat_diff)

lemma ones_rep_add: "ones_rep (ones_rep m + n) = ones_rep (m + n)"
proof (cases "m = 0")
  case False
  have "(ones_rep m + n - 1) mod 65535 = ((m - 1) mod 65535 + n) mod 65535"
    using False by (simp add: ones_rep_def)
  also have "\<dots> = (m - 1 + n) mod 65535" by (rule mod_add_left_eq)
  also have "m - 1 + n = m + n - 1" using False by simp
  finally show ?thesis using False by (simp add: ones_rep_def)
qed (simp add: ones_rep_def)

lemma checksum_inc_spec:
  assumes "length data \<le> 131068"
  shows "chunk_internet_checksum_inc data (checksum_spec n) = checksum_spec (n + word_sum data)"
proof -
  let ?s = "ucast (ntohs (NOT (checksum_spec n))) :: u32"
  have s: "unat ?s = ones_rep n" by (simp add: unat_ucast_up ntohs_not_checksum_spec)
  have "(length data + 1) div 2 \<le> 65534" using assms by simp
  then have "word_sum data \<le> 65535 * 65534"
    using word_sum_bound [of data] by linarith
  then have "unat (sum16 data ?s) = ones_rep n + word_sum data"
    using s ones_rep_less [of n] by (subst sum16_word_sum) linarith+
  then have "unat (fold16 (sum16 data ?s)) = ones_rep (n + word_sum data)"
    by (simp add: unat_fold16 ones_rep_add)
  then have "unat (ucast (NOT (fold16 (sum16 data ?s))) :: u16) = 65535 - ones_rep (n + word_sum data)"
    using ones_rep_less [of "n + word_sum data"] by (subst ucast_not16) simp_all
  then have "ucast (NOT (fold16 (sum16 data ?s))) = (of_nat (65535 - ones_rep (n + word_sum data)) :: u16)"
    by (intro unat_inj) (simp add: unat_of_nat_small del: of_nat_diff)
  then show ?thesis by (simp add: chunk_internet_checksum_inc_def checksum_spec_def)
qed

lemma checksum_word_sum:
  assumes "length data \<le> 131068"
  shows "chunk_internet_checksum data = checksum_spec (word_sum data)"
proof -
  have "checksum_spec 0 = 0xffff"
    by (simp add: checksum_spec_def ones_rep_def htons_extremal)
  then show ?thesis using checksum_inc_spec [OF assms, of 0] by (simp add: chunk_internet_checksum_def)
qed

lemma ones_rep_complement: "ones_rep (n + (65535 - ones_rep n)) = 65535"
proof -
  have le: "ones_rep n \<le> 65535" using ones_rep_less [of n] by simp
  have "ones_rep (n + (65535 - ones_rep n)) = ones_rep (ones_rep n + (65535 - ones_rep n))"
    by (simp only: ones_rep_add)
  also have "\<dots> = 65535" using le by (simp add: ones_rep_def)
  finally show ?thesis .
qed

lemma checksum_append:
  "even (length a) \<Longrightarrow> length a + length b \<le> 131068 \<Longrightarrow>
     chunk_internet_checksum_inc b (chunk_internet_checksum a) = chunk_internet_checksum (a @ b)"
  by (simp add: checksum_word_sum checksum_inc_spec word_sum_append)

lemma checksum_fill:
  assumes "even (length a)" "length a + length b \<le> 131066"
  shows "chunk_internet_checksum (a @ htoun16 (ntohs (chunk_internet_checksum (a @ [0, 0] @ b))) @ b) = 0"
proof -
  let ?n = "word_sum a + word_sum b"
  have "word_sum (a @ [0, 0] @ b) = ?n" using assms by (simp add: word_sum_append)
  then have "ntohs (chunk_internet_checksum (a @ [0, 0] @ b)) = of_nat (65535 - ones_rep ?n)"
    using assms by (simp add: checksum_word_sum checksum_spec_def)
  moreover have "word_sum (a @ htoun16 (of_nat k) @ b) = ?n + k" if "k < 65536" for k
  proof -
    have "word_sum (htoun16 (of_nat k)) = nat_of_be (htoun16 (of_nat k))"
      by (simp add: word_sum_2)
    also have "\<dots> = k" using that by (simp add: htoun16_def unat_of_nat_small)
    finally show ?thesis using assms by (simp add: word_sum_append)
  qed
  ultimately have "chunk_internet_checksum (a @ htoun16 (ntohs (chunk_internet_checksum (a @ [0, 0] @ b))) @ b)
      = checksum_spec (?n + (65535 - ones_rep ?n))"
    using assms by (simp add: checksum_word_sum)
  then show ?thesis by (simp add: ones_rep_complement checksum_spec_def htons_extremal)
qed

text \<open>
  C6.  The Internet checksum composes and verifies.  The checksum of a buffer may be computed in
  pieces, such as a pseudo header and a payload, where every piece but the last has an even length;
  and a buffer in which the checksum is stored in a zeroed field at an even offset sums to 0.  The
  bound on the length keeps the 32 bit sum from wrapping; it exceeds the largest IP packet.
\<close>

theorem checksum_composes_and_verifies:
  assumes "even (length a)" "length a + length b \<le> 131066"
  shows "chunk_internet_checksum_inc b (chunk_internet_checksum a) = chunk_internet_checksum (a @ b) \<and>
    chunk_internet_checksum (a @ htoun16 (ntohs (chunk_internet_checksum (a @ [0, 0] @ b))) @ b) = 0"
  using checksum_append [of a b] checksum_fill [OF assms] assms by simp

theorem checksum_composes_and_verifies_witness:
  "chunk_internet_checksum_inc [0x1b] (chunk_internet_checksum [0x45, 0x00]) =
     chunk_internet_checksum [0x45, 0x00, 0x1b]"
  using checksum_composes_and_verifies [of "[0x45, 0x00]" "[0x1b]"] by simp

end
