(* ===== verification/Ip_Packet.thy ===== *)
theory Ip_Packet
  imports Chunk Host
begin

text \<open>
  Plain IP packets, \<open>libipsec/ip_packet.c\<close>: parsing of the headers of a packet read from the TUN
  device or taken from an ESP packet, and construction of a packet around given data.  The structs
  the code lays over the bytes are read and written byte by byte here; a \<open>uint16_t\<close> field holds its
  value in network order, \<open>field16\<close> are the two bytes of such a field in memory.
\<close>

section \<open>Packets\<close>

definition IPPROTO_UDP :: byte where "IPPROTO_UDP = 17"
definition IPPROTO_TCP :: byte where "IPPROTO_TCP = 6"
definition IP_OFFMASK :: u16 where "IP_OFFMASK = 0x1fff"

definition field16 :: "u16 \<Rightarrow> chunk" where
  "field16 v = htoun16 (ntohs v)"

record ip_packet =
  src :: host
  dst :: host
  packet :: chunk
  payload :: chunk
  version :: byte
  next_header :: byte

definition get_version :: "ip_packet \<Rightarrow> byte" where "get_version this = version this"
definition get_source :: "ip_packet \<Rightarrow> host" where "get_source this = src this"
definition get_destination :: "ip_packet \<Rightarrow> host" where "get_destination this = dst this"
definition get_encoding :: "ip_packet \<Rightarrow> chunk" where "get_encoding this = packet this"
definition get_payload :: "ip_packet \<Rightarrow> chunk" where "get_payload this = payload this"
definition get_next_header :: "ip_packet \<Rightarrow> byte" where "get_next_header this = next_header this"

lemmas ip_packet_getters = get_version_def get_source_def get_destination_def get_encoding_def
  get_payload_def get_next_header_def

section \<open>Parsing\<close>

text \<open>The result is \<open>None\<close> for \<open>FALSE\<close>; ports that are not set keep their value.\<close>

definition parse_transport_header :: "chunk \<Rightarrow> byte \<Rightarrow> u16 \<times> u16 \<Rightarrow> (u16 \<times> u16) option" where
  "parse_transport_header pkt proto ports =
     (if proto = IPPROTO_UDP then
        if length pkt < 8 then None else Some (untoh16 pkt, untoh16 (drop 2 pkt))
      else if proto = IPPROTO_TCP then
        if length pkt < 20 then None else Some (untoh16 pkt, untoh16 (drop 2 pkt))
      else Some ports)"

text \<open>
  The loop over the extension headers returns the payload, its protocol and the ports.  Each header
  skips at least eight bytes, so the loop ends.
\<close>

function ext_header_loop :: "chunk \<Rightarrow> byte \<Rightarrow> bool \<Rightarrow> u16 \<times> u16 \<Rightarrow> (chunk \<times> byte \<times> u16 \<times> u16) option" where
  "ext_header_loop pl proto fragment ports =
     (if length pl \<ge> 2 then
        if proto = 44 then ext_header_loop (chunk_skip pl 8) (pl ! 0) True ports
        else if proto \<in> {0, 43, 60, 135, 139, 140}
        then ext_header_loop (chunk_skip pl (8 * (unat (pl ! 1) + 1))) (pl ! 0) fragment ports
        else if \<not> fragment then
          (case parse_transport_header pl proto ports of
             None \<Rightarrow> None | Some ports \<Rightarrow> Some (pl, proto, ports))
        else Some (pl, proto, ports)
      else Some (pl, proto, ports))"
  by auto
termination
  by (relation "measure (\<lambda>(pl, _). length pl)") auto

declare ext_header_loop.simps [simp del]

definition parse_transport_header_v6 :: "chunk \<Rightarrow> chunk \<Rightarrow> u16 \<times> u16 \<Rightarrow> (chunk \<times> byte \<times> u16 \<times> u16) option" where
  "parse_transport_header_v6 ip pkt ports =
     ext_header_loop (chunk_skip pkt 40) (ip ! 6) False ports"

definition ip_packet_create :: "chunk \<Rightarrow> ip_packet option" where
  "ip_packet_create pkt =
     (if length pkt < 1 then None
      else
        let ver = drop_bit 4 (pkt ! 0 AND 0xf0) in
        if ver = 4 then
          if length pkt < 20 then None
          else
            let ip = pkt;
                pkt = take (unat (untoh16 (drop 2 ip))) pkt;
                pl = chunk_skip pkt (unat (ip ! 0 AND 0x0f) * 4);
                ip_off = htons (untoh16 (drop 6 ip))
            in (case (if ip_off AND htons IP_OFFMASK = 0
                      then parse_transport_header pl (ip ! 9) (0, 0) else Some (0, 0)) of
                  None \<Rightarrow> None
                | Some (sport, dport) \<Rightarrow>
                    (case (host_create_from_chunk AF_INET (take 4 (drop 12 ip)) sport,
                           host_create_from_chunk AF_INET (take 4 (drop 16 ip)) dport) of
                       (Some s, Some d) \<Rightarrow>
                         Some \<lparr>src = s, dst = d, packet = pkt, payload = pl, version = ver,
                               next_header = ip ! 9\<rparr>
                     | _ \<Rightarrow> None))
        else if ver = 6 then
          if length pkt < 40 then None
          else
            let ip = pkt;
                pkt = take (40 + unat (untoh16 (drop 4 ip))) pkt
            in (case parse_transport_header_v6 ip pkt (0, 0) of
                  None \<Rightarrow> None
                | Some (pl, nh, sport, dport) \<Rightarrow>
                    (case (host_create_from_chunk AF_INET6 (take 16 (drop 8 ip)) sport,
                           host_create_from_chunk AF_INET6 (take 16 (drop 24 ip)) dport) of
                       (Some s, Some d) \<Rightarrow>
                         Some \<lparr>src = s, dst = d, packet = pkt, payload = pl, version = ver,
                               next_header = nh\<rparr>
                     | _ \<Rightarrow> None))
        else None)"

definition ip_packet_clone :: "ip_packet \<Rightarrow> ip_packet option" where
  "ip_packet_clone this = ip_packet_create (packet this)"

section \<open>Construction\<close>

text \<open>
  The length field of the IPv6 pseudo header is a \<open>uint32_t\<close> that is assigned \<open>htons\<close> of the length:
  in memory the two bytes of the length are followed by two zero bytes.
\<close>

definition pseudo_header :: "host \<Rightarrow> host \<Rightarrow> byte \<Rightarrow> nat \<Rightarrow> chunk" where
  "pseudo_header s d proto len = (case get_family s of
       AF_INET \<Rightarrow> take 4 (get_address s) @ take 4 (get_address d) @ [0, proto] @
         field16 (htons (of_nat len))
     | AF_INET6 \<Rightarrow> take 16 (get_address s) @ take 16 (get_address d) @
         htoule32 (ucast (htons (of_nat len))) @ [0, 0, 0, proto]
     | _ \<Rightarrow> [])"

definition pseudo_header_checksum :: "host \<Rightarrow> host \<Rightarrow> byte \<Rightarrow> chunk \<Rightarrow> u16" where
  "pseudo_header_checksum s d proto pl =
     (if get_family s = AF_INET \<or> get_family s = AF_INET6
      then chunk_internet_checksum (pseudo_header s d proto (length pl))
      else 0xffff)"

definition fix_transport_header :: "host \<Rightarrow> host \<Rightarrow> byte \<Rightarrow> chunk \<Rightarrow> chunk" where
  "fix_transport_header s d proto pl =
     (let sport = get_port s; dport = get_port d;
          fix_at = (\<lambda>off.
            let pl = (if sport \<noteq> 0 then store_at pl 0 (field16 (htons sport)) else pl);
                pl = (if dport \<noteq> 0 then store_at pl 2 (field16 (htons dport)) else pl);
                pl = store_at pl off (field16 0);
                sum = pseudo_header_checksum s d proto pl
            in store_at pl off (field16 (chunk_internet_checksum_inc pl sum)))
      in if proto = IPPROTO_UDP then
           if length pl < 8 then pl else fix_at 6
         else if proto = IPPROTO_TCP then
           if length pl < 20 then pl else fix_at 16
         else pl)"

definition ip_header :: "host \<Rightarrow> host \<Rightarrow> byte \<Rightarrow> chunk \<Rightarrow> chunk" where
  "ip_header s d nh data =
     (let ip = [0x45, 0] @ field16 (htons (of_nat (20 + length data))) @ [0, 0, 0, 0, 0x80, nh, 0, 0] @
               take 4 (get_address s) @ take 4 (get_address d)
      in store_at ip 10 (field16 (chunk_internet_checksum ip)))"

definition ip6_header :: "host \<Rightarrow> host \<Rightarrow> byte \<Rightarrow> chunk \<Rightarrow> chunk" where
  "ip6_header s d nh data =
     htoule32 (htonl (push_bit 28 6)) @ field16 (htons (of_nat (length data))) @ [nh, 0x80] @
     take 16 (get_address s) @ take 16 (get_address d)"

definition ip_packet_create_from_data :: "host \<Rightarrow> host \<Rightarrow> byte \<Rightarrow> chunk \<Rightarrow> ip_packet option" where
  "ip_packet_create_from_data s d nh data =
     (if get_family s \<noteq> get_family d then None
      else case get_family s of
          AF_INET \<Rightarrow>
            let pkt = ip_header s d nh data @ data;
                pkt = take 20 pkt @ fix_transport_header s d nh (chunk_skip pkt 20)
            in ip_packet_create pkt
        | AF_INET6 \<Rightarrow>
            let pkt = ip6_header s d nh data @ data;
                pkt = take 40 pkt @ fix_transport_header s d nh (chunk_skip pkt 40)
            in ip_packet_create pkt
        | _ \<Rightarrow> None)"

definition ip_packet_create_udp_from_data :: "host \<Rightarrow> host \<Rightarrow> chunk \<Rightarrow> ip_packet option" where
  "ip_packet_create_udp_from_data s d data =
     (let udp = field16 0 @ field16 0 @ field16 (htons (of_nat (8 + length data))) @ field16 0
      in ip_packet_create_from_data s d IPPROTO_UDP (udp @ data))"

section \<open>What the parser returns\<close>

lemma ext_header_loop_suffix:
  "ext_header_loop pl proto frag ports = Some (pl', nh, ports') \<Longrightarrow> \<exists>n. pl' = drop n pl"
proof (induction pl proto frag ports arbitrary: pl' nh ports' rule: ext_header_loop.induct)
  case (1 pl proto fragment ports)
  have d: "\<exists>m. drop k (drop n pl) = drop m pl" for k n by (auto simp: drop_drop)
  show ?case using "1.prems" "1.IH" d
    by (subst (asm) ext_header_loop.simps)
      (auto simp: Let_def split: if_splits option.splits intro: exI [of _ 0]; blast)
qed

lemma field16_htons [simp]: "field16 (htons p) = htoun16 p"
  by (simp add: field16_def)

lemma length_field16 [simp]: "length (field16 v) = 2"
  by (simp add: field16_def)

lemma field16_0: "field16 0 = [0, 0]"
proof -
  have "ntohs 0 = 0" by (simp add: ntohs_def htons_extremal)
  then show ?thesis by (simp add: field16_def htoun16_def numeral_2_eq_2)
qed

lemma take_store_at: "n \<le> off \<Longrightarrow> off \<le> length b \<Longrightarrow> take n (store_at b off bs) = take n b"
  by (simp add: store_at_def min_absorb1)

lemma untoh16_take: "untoh16 (take 2 p) = untoh16 p" "4 \<le> n \<Longrightarrow> untoh16 (drop 2 (take n p)) = untoh16 (drop 2 p)"
  by (simp_all add: untoh16_def drop_take min_absorb1)

definition set_ports :: "u16 \<Rightarrow> u16 \<Rightarrow> chunk \<Rightarrow> chunk" where
  "set_ports sport dport pl =
     (let pl = (if sport \<noteq> 0 then store_at pl 0 (htoun16 sport) else pl)
      in if dport \<noteq> 0 then store_at pl 2 (htoun16 dport) else pl)"

definition checksum_offset :: "byte \<Rightarrow> nat" where
  "checksum_offset proto = (if proto = IPPROTO_UDP then 6 else 16)"

definition has_ports :: "byte \<Rightarrow> chunk \<Rightarrow> bool" where
  "has_ports proto pl \<longleftrightarrow> proto = IPPROTO_UDP \<and> 8 \<le> length pl \<or> proto = IPPROTO_TCP \<and> 20 \<le> length pl"

lemma length_set_ports [simp]: "4 \<le> length pl \<Longrightarrow> length (set_ports s d pl) = length pl"
  by (simp add: set_ports_def Let_def)

lemma set_ports_ports:
  assumes "4 \<le> length pl"
  shows "untoh16 (set_ports s d pl) = (if s \<noteq> 0 then s else untoh16 pl)"
    and "untoh16 (drop 2 (set_ports s d pl)) = (if d \<noteq> 0 then d else untoh16 (drop 2 pl))"
proof -
  have t: "untoh16 (store_at b 2 x) = untoh16 b" if "4 \<le> length b" "length x = 2" for b x
    using that by (simp add: untoh16_def take_store_at)
  have u: "untoh16 (store_at b 0 (htoun16 v)) = v" for b v by (simp add: store_at_def)
  have w: "untoh16 (drop 2 (store_at b 2 (htoun16 v))) = v" if "4 \<le> length b" for b v
    using that by (simp add: store_at_def min_absorb2)
  have v: "untoh16 (drop 2 (store_at b 0 (htoun16 v))) = untoh16 (drop 2 b)" for b v
    by (simp add: store_at_def numeral_2_eq_2)
  show "untoh16 (set_ports s d pl) = (if s \<noteq> 0 then s else untoh16 pl)"
    "untoh16 (drop 2 (set_ports s d pl)) = (if d \<noteq> 0 then d else untoh16 (drop 2 pl))"
    using assms by (simp_all add: set_ports_def Let_def t u v w)
qed

lemma fix_transport_header_eq:
  fixes s d proto pl
  assumes "has_ports proto pl"
  defines "pl' \<equiv> store_at (set_ports (get_port s) (get_port d) pl) (checksum_offset proto) [0, 0]"
  shows "fix_transport_header s d proto pl = store_at pl' (checksum_offset proto)
    (field16 (chunk_internet_checksum_inc pl' (pseudo_header_checksum s d proto pl')))"
proof -
  have "IPPROTO_TCP \<noteq> IPPROTO_UDP" by (simp add: IPPROTO_TCP_def IPPROTO_UDP_def)
  then show ?thesis using assms
    by (auto simp: fix_transport_header_def has_ports_def set_ports_def checksum_offset_def Let_def field16_0)
qed

lemma fix_transport_header_no_ports: "\<not> has_ports proto pl \<Longrightarrow> fix_transport_header s d proto pl = pl"
  by (simp add: fix_transport_header_def has_ports_def Let_def not_le cong: if_cong)

lemma has_ports_bounds:
  "has_ports proto pl \<Longrightarrow> checksum_offset proto + 2 \<le> length pl \<and> 4 \<le> checksum_offset proto \<and> even (checksum_offset proto)"
  by (auto simp: has_ports_def checksum_offset_def IPPROTO_TCP_def IPPROTO_UDP_def)

lemma length_fix_transport_header [simp]: "length (fix_transport_header s d proto pl) = length pl"
proof (cases "has_ports proto pl")
  case True
  then show ?thesis using has_ports_bounds [OF True] by (simp add: fix_transport_header_eq)
qed (simp add: fix_transport_header_no_ports)

lemma fix_transport_header_ports:
  assumes "has_ports proto pl"
  shows "untoh16 (fix_transport_header s d proto pl) = (if get_port s \<noteq> 0 then get_port s else untoh16 pl)"
    and "untoh16 (drop 2 (fix_transport_header s d proto pl)) = (if get_port d \<noteq> 0 then get_port d else untoh16 (drop 2 pl))"
proof -
  have t: "take 4 (fix_transport_header s d proto pl) = take 4 (set_ports (get_port s) (get_port d) pl)"
    using has_ports_bounds [OF assms] by (simp add: fix_transport_header_eq assms take_store_at)
  have 1: "untoh16 b = untoh16 (take 2 (take 4 b))" "untoh16 (drop 2 b) = untoh16 (drop 2 (take 4 b))" for b
    by (simp_all add: untoh16_take)
  show "untoh16 (fix_transport_header s d proto pl) = (if get_port s \<noteq> 0 then get_port s else untoh16 pl)"
    "untoh16 (drop 2 (fix_transport_header s d proto pl)) = (if get_port d \<noteq> 0 then get_port d else untoh16 (drop 2 pl))"
    using has_ports_bounds [OF assms]
    by (simp_all only: 1 [of "fix_transport_header s d proto pl"] t)
      (simp_all add: 1 [symmetric] set_ports_ports untoh16_take)
qed

section \<open>Checksums\<close>

text \<open>The pseudo header as RFC 768, RFC 793 and RFC 8200 define it.\<close>

definition rfc_pseudo_header :: "host \<Rightarrow> host \<Rightarrow> byte \<Rightarrow> nat \<Rightarrow> chunk" where
  "rfc_pseudo_header s d proto len =
     (if get_family s = AF_INET
      then get_address s @ get_address d @ [0, proto] @ htoun16 (of_nat len)
      else get_address s @ get_address d @ htoun32 (of_nat len) @ [0, 0, 0, proto])"

definition same_family :: "host \<Rightarrow> host \<Rightarrow> bool" where
  "same_family s d \<longleftrightarrow> wf_host s \<and> wf_host d \<and> sa_family s = sa_family d"

lemma same_family_cases:
  assumes "same_family s d"
  obtains (v4) "get_family s = AF_INET" "get_family d = AF_INET" "length (get_address s) = 4" "length (get_address d) = 4"
  | (v6) "get_family s = AF_INET6" "get_family d = AF_INET6" "length (get_address s) = 16" "length (get_address d) = 16"
  using assms by (auto simp: same_family_def wf_host_def get_family_def get_address_def ip_len_defs)

lemma be_of_nat_4_small: "len < 65536 \<Longrightarrow> be_of_nat 4 len = [0, 0] @ be_of_nat 2 len"
proof -
  assume "len < 65536"
  then show ?thesis by (simp add: be_of_nat_4 be_of_nat_2)
qed

lemma pseudo_header_v6_length: "htoule32 (ucast (htons x)) = htoun16 x @ [0, 0]"
proof -
  have "unat (ucast (htons x) :: u32) = unat (htons x)" by (simp add: unat_ucast_up)
  then have "htoule32 (ucast (htons x)) = rev ([0, 0] @ htoun16 (htons x))"
    using unat_word_less(1) [of "htons x"]
    by (simp only: htoule32_def htoun16_def be_of_nat_4_small)
  then show ?thesis by (simp add: htoun16_htons)
qed

lemma htoun32_small: "len < 65536 \<Longrightarrow> htoun32 (of_nat len) = [0, 0] @ htoun16 (of_nat len)"
  by (simp add: htoun32_def htoun16_def unat_of_nat_small be_of_nat_4_small)

lemma pseudo_header_rfc:
  assumes "same_family s d" "len < 65536"
  shows "word_sum (pseudo_header s d proto len) = word_sum (rfc_pseudo_header s d proto len)"
    and "even (length (pseudo_header s d proto len))" "length (pseudo_header s d proto len) \<le> 40"
    and "even (length (rfc_pseudo_header s d proto len))" "length (rfc_pseudo_header s d proto len) \<le> 40"
  using assms(1)
  by (cases rule: same_family_cases;
      simp add: pseudo_header_def rfc_pseudo_header_def pseudo_header_v6_length htoun32_small assms(2)
        word_sum_append)+

lemma transport_checksum:
  assumes "same_family s d" "has_ports proto pl" "length pl \<le> 65515"
  shows "chunk_internet_checksum (rfc_pseudo_header s d proto (length pl) @ fix_transport_header s d proto pl) = 0"
proof -
  let ?pl = "set_ports (get_port s) (get_port d) pl" and ?off = "checksum_offset proto"
  let ?r = "rfc_pseudo_header s d proto (length pl)" and ?ps = "pseudo_header s d proto (length pl)"
  define a b where "a = take ?off ?pl" and "b = drop (?off + 2) ?pl"
  note off = has_ports_bounds [OF assms(2)]
  have len: "length ?pl = length pl" using off by simp
  have la: "length a = ?off" and lb: "length b = length pl - (?off + 2)" using off len by (simp_all add: a_def b_def)
  have lab: "length (a @ [0, 0] @ b) = length pl" unfolding length_append la lb using off by (simp only: list.size) linarith
  have small: "length pl < 65536" using assms(3) by simp
  note p = pseudo_header_rfc [OF assms(1) small, of proto]
  have fam: "get_family s = AF_INET \<or> get_family s = AF_INET6"
    using assms(1) by (cases rule: same_family_cases) simp_all
  have "pseudo_header_checksum s d proto (a @ [0, 0] @ b) = chunk_internet_checksum ?ps"
    unfolding pseudo_header_checksum_def lab using fam by simp
  moreover have "chunk_internet_checksum_inc (a @ [0, 0] @ b) (chunk_internet_checksum ?ps) =
      chunk_internet_checksum (?ps @ a @ [0, 0] @ b)"
    using p la lb off assms(3) by (intro checksum_append) simp_all
  moreover have "chunk_internet_checksum (?ps @ a @ [0, 0] @ b) = chunk_internet_checksum ((?r @ a) @ [0, 0] @ b)"
    using p la lb off assms(3) by (simp add: checksum_word_sum word_sum_append)
  moreover have "store_at ?pl ?off [0, 0] = a @ [0, 0] @ b" by (simp add: store_at_def a_def b_def)
  moreover have "store_at (a @ [0, 0] @ b) ?off x = a @ x @ b" if "length x = 2" for x
    using la that by (simp add: store_at_def)
  ultimately have "fix_transport_header s d proto pl =
      a @ htoun16 (ntohs (chunk_internet_checksum ((?r @ a) @ [0, 0] @ b))) @ b"
    by (simp add: fix_transport_header_eq [OF assms(2)] field16_def)
  moreover have "chunk_internet_checksum ((?r @ a) @ htoun16 (ntohs (chunk_internet_checksum ((?r @ a) @ [0, 0] @ b))) @ b) = 0"
    using p la lb off assms(3) by (intro checksum_fill) simp_all
  ultimately show ?thesis by simp
qed

lemma ip_header_parts:
  fixes s d nh data
  assumes "same_family s d" "get_family s = AF_INET"
  defines "a \<equiv> [0x45, 0] @ htoun16 (of_nat (20 + length data)) @ [0, 0, 0, 0, 0x80, nh]"
    and "b \<equiv> get_address s @ get_address d"
  shows "ip_header s d nh data = a @ htoun16 (ntohs (chunk_internet_checksum (a @ [0, 0] @ b))) @ b"
    and "chunk_internet_checksum (ip_header s d nh data) = 0"
proof -
  have len: "length (get_address s) = 4" "length (get_address d) = 4" "length a = 10"
    using assms(1,2) by (auto simp: a_def elim: same_family_cases)
  have "[0x45, 0] @ field16 (htons (of_nat (20 + length data))) @ [0, 0, 0, 0, 0x80, nh, 0, 0] @
      take 4 (get_address s) @ take 4 (get_address d) = a @ [0, 0] @ b"
    using len by (simp add: a_def b_def)
  moreover have "store_at (a @ [0, 0] @ b) 10 x = a @ x @ b" if "length x = 2" for x
    using that len by (simp add: store_at_def)
  ultimately show e: "ip_header s d nh data = a @ htoun16 (ntohs (chunk_internet_checksum (a @ [0, 0] @ b))) @ b"
    by (simp add: ip_header_def Let_def field16_def)
  show "chunk_internet_checksum (ip_header s d nh data) = 0"
    unfolding e using len by (intro checksum_fill) (simp_all add: b_def)
qed


definition example_v4 :: "byte \<Rightarrow> u16 \<Rightarrow> host" where
  "example_v4 b p = \<lparr>sa_family = AF_INET, sin_addr = [10, 0, 0, b], sin_port = htons p\<rparr>"

definition example_v6 :: "byte \<Rightarrow> u16 \<Rightarrow> host" where
  "example_v6 b p = \<lparr>sa_family = AF_INET6, sin_addr = replicate 14 0 @ [0, b], sin_port = htons p\<rparr>"

lemma example_hosts:
  "same_family (example_v4 a p) (example_v4 b q)" "same_family (example_v6 a p) (example_v6 b q)"
  "get_family (example_v4 a p) = AF_INET" "get_family (example_v6 a p) = AF_INET6"
  "get_port (example_v4 a p) = p" "get_port (example_v6 a p) = p"
  "get_address (example_v4 a p) = [10, 0, 0, a]" "get_address (example_v6 a p) = replicate 14 0 @ [0, a]"
  by (simp_all add: example_v4_def example_v6_def same_family_def wf_host_def get_family_def get_port_def
      get_address_def ip_len_defs)


text \<open>
  The code stores the computed UDP checksum as it is.  A checksum of 0 means that the sender computed
  none (RFC 768), and such a packet is discarded by an IPv6 receiver (RFC 8200); the value 0 must be
  sent as \<open>0xffff\<close>.  Two bytes of data with which the field is 0:
\<close>

lemma word_sum_zeros: "word_sum (replicate 14 0 @ xs) = word_sum xs"
proof -
  have "word_sum (replicate (2 * n) 0 @ xs) = word_sum xs" for n by (induction n) simp_all
  from this [of 7] show ?thesis by simp
qed

lemma udp_checksum_may_be_zero:
  "take 2 (drop 6 (fix_transport_header (example_v6 1 1) (example_v6 2 2) IPPROTO_UDP
     [0, 0, 0, 0, 0, 10, 0, 0, 0xff, 0xd4])) = [0, 0]"
proof -
  let ?s = "example_v6 1 1" and ?d = "example_v6 2 2"
  let ?pl = "[0, 1, 0, 2, 0, 10, 0, 0, 0xff, 0xd4] :: chunk"
  have "set_ports 1 2 [0, 0, 0, 0, 0, 10, 0, 0, 0xff, 0xd4] = [0, 1, 0, 2, 0, 10, 0, 0, 0xff, 0xd4]"
    by (simp add: set_ports_def store_at_def htoun16_def be_of_nat_2)
  moreover have "pseudo_header_checksum ?s ?d IPPROTO_UDP ?pl = checksum_spec 30"
  proof -
    have "pseudo_header ?s ?d IPPROTO_UDP 10 =
        (replicate 14 0 @ [0, 1]) @ (replicate 14 0 @ [0, 2]) @ [0, 10, 0, 0, 0, 0, 0, 17]"
      by (simp add: pseudo_header_def example_hosts pseudo_header_v6_length htoun16_def be_of_nat_2
          IPPROTO_UDP_def)
    then have "word_sum (pseudo_header ?s ?d IPPROTO_UDP 10) = 30"
      by (simp add: word_sum_zeros)
    moreover have "length (pseudo_header ?s ?d IPPROTO_UDP 10) \<le> 131068"
      using pseudo_header_rfc(3) [OF example_hosts(2), of 10 1 1 2 2 IPPROTO_UDP] by simp
    moreover have "length ?pl = 10" by simp
    ultimately show ?thesis
      unfolding pseudo_header_checksum_def by (simp only: example_hosts checksum_word_sum simp_thms if_True)
  qed
  moreover have "chunk_internet_checksum_inc ?pl (checksum_spec 30) = checksum_spec (30 + word_sum ?pl)"
    by (rule checksum_inc_spec) simp
  moreover have "checksum_spec (30 + word_sum ?pl) = 0"
    by (simp add: checksum_spec_def ones_rep_def htons_extremal)
  ultimately show ?thesis
    by (simp add: fix_transport_header_eq has_ports_def example_hosts checksum_offset_def store_at_def field16_0)
qed

section \<open>Building and parsing\<close>

definition transport_ports :: "host \<Rightarrow> host \<Rightarrow> byte \<Rightarrow> chunk \<Rightarrow> u16 \<times> u16" where
  "transport_ports s d nh data =
     (if has_ports nh data
      then (if get_port s \<noteq> 0 then get_port s else untoh16 data,
            if get_port d \<noteq> 0 then get_port d else untoh16 (drop 2 data))
      else (0, 0))"

definition complete_transport :: "byte \<Rightarrow> chunk \<Rightarrow> bool" where
  "complete_transport nh data \<longleftrightarrow> nh = IPPROTO_UDP \<and> 8 \<le> length data \<or> nh = IPPROTO_TCP \<and> 20 \<le> length data \<or>
     nh \<noteq> IPPROTO_UDP \<and> nh \<noteq> IPPROTO_TCP"

lemma parse_fixed:
  "complete_transport nh data \<Longrightarrow>
     parse_transport_header (fix_transport_header s d nh data) nh (0, 0) = Some (transport_ports s d nh data)"
  using fix_transport_header_ports [of nh data s d]
  by (auto simp: complete_transport_def parse_transport_header_def transport_ports_def has_ports_def
      IPPROTO_UDP_def IPPROTO_TCP_def)

lemma host_from_address:
  "length a = 4 \<Longrightarrow> host_create_from_chunk AF_INET a p = Some \<lparr>sa_family = AF_INET, sin_addr = a, sin_port = htons p\<rparr>"
  "length a = 16 \<Longrightarrow> host_create_from_chunk AF_INET6 a p = Some \<lparr>sa_family = AF_INET6, sin_addr = a, sin_port = htons p\<rparr>"
  by (simp_all add: host_create_from_chunk_def ip_len_defs)

lemma nth_htoun16_skip: "(htoun16 v @ xs) ! (Suc (Suc n)) = xs ! n" "drop (Suc (Suc n)) (htoun16 v @ xs) = drop n xs"
  by (simp_all add: nth_append)

lemma build_v4:
  assumes "same_family s d" "get_family s = AF_INET" "complete_transport nh data" "length data \<le> 65515"
  shows "ip_packet_create (ip_header s d nh data @ fix_transport_header s d nh data) =
    Some \<lparr>src = \<lparr>sa_family = AF_INET, sin_addr = get_address s, sin_port = htons (fst (transport_ports s d nh data))\<rparr>,
      dst = \<lparr>sa_family = AF_INET, sin_addr = get_address d, sin_port = htons (snd (transport_ports s d nh data))\<rparr>,
      packet = ip_header s d nh data @ fix_transport_header s d nh data,
      payload = fix_transport_header s d nh data, version = 4, next_header = nh\<rparr>"
proof -
  have len: "length (get_address s) = 4" "length (get_address d) = 4"
    using assms(1,2) by (auto elim: same_family_cases)
  obtain c where h: "ip_header s d nh data = [0x45, 0] @ htoun16 (of_nat (20 + length data)) @
      [0, 0, 0, 0, 0x80, nh] @ c @ get_address s @ get_address d" "length c = 2"
    using ip_header_parts(1) [OF assms(1,2)] by auto
  let ?pl = "fix_transport_header s d nh data"
  let ?p = "ip_header s d nh data @ ?pl"
  have l: "length ?p = 20 + length data" "length (ip_header s d nh data) = 20" using len h by simp_all
  have "unat (of_nat (20 + length data) :: u16) = 20 + length data"
    using assms(4) by (intro unat_of_nat_small) simp
  moreover have "untoh16 (drop 2 ?p) = of_nat (20 + length data)" by (simp add: h numeral_2_eq_2)
  ultimately have "take (unat (untoh16 (drop 2 ?p))) ?p = ?p" using l by simp
  moreover have "?p ! 0 = 0x45" "?p ! 9 = nh" "untoh16 (drop 6 ?p) = 0" 
    "take 4 (drop 12 ?p) = get_address s" "take 4 (drop 16 ?p) = get_address d"
    using len h(2) by (simp_all add: h(1) nth_htoun16_skip eval_nat_numeral untoh16_def)
  moreover have "chunk_skip ?p 20 = ?pl" using l by simp
  ultimately show ?thesis
    using l len parse_fixed [OF assms(3), of s d]
    by (cases "transport_ports s d nh data") (simp add: ip_packet_create_def Let_def host_from_address htons_extremal)
qed

definition ext_headers :: "byte set" where
  "ext_headers = {0, 43, 44, 60, 135, 139, 140}"

lemma ext_header_loop_upper:
  assumes "nh \<notin> ext_headers"
  shows "ext_header_loop pl nh False (0, 0) =
    (if length pl < 2 then Some (pl, nh, 0, 0)
     else case parse_transport_header pl nh (0, 0) of None \<Rightarrow> None | Some ports \<Rightarrow> Some (pl, nh, ports))"
  using assms by (subst ext_header_loop.simps) (auto simp: ext_headers_def)

lemma ip6_first_word: "htoule32 (htonl (push_bit 28 6)) = [0x60, 0, 0, 0]"
  unfolding htonl_bytes htoun32_def be_of_nat_4 by (simp add: push_bit_eq_mult)

lemma build_v6:
  assumes "same_family s d" "get_family s = AF_INET6" "complete_transport nh data" "length data \<le> 65515"
    "nh \<notin> ext_headers"
  shows "ip_packet_create (ip6_header s d nh data @ fix_transport_header s d nh data) =
    Some \<lparr>src = \<lparr>sa_family = AF_INET6, sin_addr = get_address s, sin_port = htons (fst (transport_ports s d nh data))\<rparr>,
      dst = \<lparr>sa_family = AF_INET6, sin_addr = get_address d, sin_port = htons (snd (transport_ports s d nh data))\<rparr>,
      packet = ip6_header s d nh data @ fix_transport_header s d nh data,
      payload = fix_transport_header s d nh data, version = 6, next_header = nh\<rparr>"
proof -
  have len: "length (get_address s) = 16" "length (get_address d) = 16"
    using assms(1,2) by (auto elim: same_family_cases)
  have h: "ip6_header s d nh data = [0x60, 0, 0, 0] @ htoun16 (of_nat (length data)) @ [nh, 0x80] @
      get_address s @ get_address d"
    unfolding ip6_header_def ip6_first_word using len by simp
  let ?pl = "fix_transport_header s d nh data"
  let ?p = "ip6_header s d nh data @ ?pl"
  have l: "length ?p = 40 + length data" "length (ip6_header s d nh data) = 40" using len h by simp_all
  have "unat (of_nat (length data) :: u16) = length data"
    using assms(4) by (intro unat_of_nat_small) simp
  moreover have "untoh16 (drop 4 ?p) = of_nat (length data)" by (simp add: h)
  ultimately have t: "take (40 + unat (untoh16 (drop 4 ?p))) ?p = ?p" using l by simp
  have f: "?p ! 0 = 0x60" "?p ! 6 = nh" "take 16 (drop 8 ?p) = get_address s" "take 16 (drop 24 ?p) = get_address d"
    using len by (simp_all add: h nth_htoun16_skip eval_nat_numeral)
  have k: "chunk_skip ?p 40 = ?pl" using l by simp
  have "ext_header_loop ?pl nh False (0, 0) = Some (?pl, nh, transport_ports s d nh data)"
    using parse_fixed [OF assms(3), of s d] assms(3,5)
    by (auto simp: ext_header_loop_upper complete_transport_def transport_ports_def has_ports_def)
  then have "parse_transport_header_v6 ?p ?p (0, 0) = Some (?pl, nh, transport_ports s d nh data)"
    unfolding parse_transport_header_v6_def f k .
  then show ?thesis
    using l len t f
    by (cases "transport_ports s d nh data") (simp add: ip_packet_create_def Let_def host_from_address del: chunk_skip_drop)
qed

text \<open>
  C16.  A packet built around data parses back.  For hosts of one family, a transport segment that
  has its complete header and a length that fits, \<open>ip_packet_create_from_data\<close> returns a packet of
  that family with the given addresses and protocol; the payload is the data with the ports and the
  checksum set, and the ports of the hosts are those in the segment.
\<close>

theorem ip_packet_build_parse:
  assumes "same_family s d" "complete_transport nh data" "length data \<le> 65515"
    "get_family s = AF_INET6 \<longrightarrow> nh \<notin> ext_headers"
  shows "\<exists>p. ip_packet_create_from_data s d nh data = Some p \<and>
    get_address (get_source p) = get_address s \<and> get_address (get_destination p) = get_address d \<and>
    get_family (get_source p) = get_family s \<and> get_next_header p = nh \<and>
    get_payload p = fix_transport_header s d nh data \<and>
    (get_port (get_source p), get_port (get_destination p)) = transport_ports s d nh data"
  using assms(1)
proof (cases rule: same_family_cases)
  case v4
  have "length (ip_header s d nh data) = 20"
    using v4 by (simp add: ip_header_parts(1) [OF assms(1)])
  then show ?thesis
    using v4 build_v4 [OF assms(1) v4(1) assms(2,3)]
    by (simp add: ip_packet_create_from_data_def Let_def ip_packet_getters get_address_def get_family_def
        get_port_def ip_len_defs)
next
  case v6
  have "length (ip6_header s d nh data) = 40" using v6 by (simp add: ip6_header_def)
  then show ?thesis
    using v6 build_v6 [OF assms(1) v6(1) assms(2,3)] assms(4)
    by (simp add: ip_packet_create_from_data_def Let_def ip_packet_getters get_address_def get_family_def
        get_port_def ip_len_defs)
qed

theorem ip_packet_build_parse_witness:
  "\<exists>p. ip_packet_create_from_data (example_v6 1 500) (example_v6 2 4500) IPPROTO_UDP (replicate 12 7) = Some p \<and>
    get_next_header p = IPPROTO_UDP \<and> (get_port (get_source p), get_port (get_destination p)) = (500, 4500)"
  using ip_packet_build_parse [OF example_hosts(2), of IPPROTO_UDP "replicate 12 7" 1 500 2 4500]
  by (auto simp: complete_transport_def IPPROTO_UDP_def ext_headers_def transport_ports_def has_ports_def example_hosts)

section \<open>Arbitrary packets\<close>


lemma length_ip_packet_create: "ip_packet_create d = Some ip \<Longrightarrow> length (get_encoding ip) \<le> 65575"
proof -
  assume a: "ip_packet_create d = Some ip"
  have u: "unat (x :: u16) \<le> 65535" for x using unsigned_less [of x, where 'a = nat] by simp
  from a u [of "untoh16 (drop 2 d)"] u [of "untoh16 (drop 4 d)"] show ?thesis
    unfolding ip_packet_create_def Let_def get_encoding_def
    by (fastforce split: if_splits option.splits prod.splits)
qed

end
