(* ===== verification/Packet.thy ===== *)
theory Packet
  imports Chunk Host
begin

text \<open>
  Packets with addresses, \<open>networking/packet.c\<close>.  Hosts may be missing (\<open>NULL\<close>).  The metadata objects a packet
  can carry are not modelled.
\<close>

record pkt =
  pk_source :: "host option"
  pk_destination :: "host option"
  pk_dscp :: byte
  pk_data :: chunk
  pk_adjusted_data :: chunk

definition set_source :: "pkt \<Rightarrow> host option \<Rightarrow> pkt" where
  "set_source this h = this\<lparr>pk_source := h\<rparr>"

definition set_destination :: "pkt \<Rightarrow> host option \<Rightarrow> pkt" where
  "set_destination this h = this\<lparr>pk_destination := h\<rparr>"

definition pkt_get_source :: "pkt \<Rightarrow> host option" where "pkt_get_source this = pk_source this"
definition pkt_get_destination :: "pkt \<Rightarrow> host option" where "pkt_get_destination this = pk_destination this"
definition get_data :: "pkt \<Rightarrow> chunk" where "get_data this = pk_adjusted_data this"

definition set_data :: "pkt \<Rightarrow> chunk \<Rightarrow> pkt" where
  "set_data this d = this\<lparr>pk_data := d, pk_adjusted_data := d\<rparr>"

definition get_dscp :: "pkt \<Rightarrow> byte" where "get_dscp this = pk_dscp this"

definition set_dscp :: "pkt \<Rightarrow> byte \<Rightarrow> pkt" where
  "set_dscp this v = this\<lparr>pk_dscp := v\<rparr>"

definition skip_bytes :: "pkt \<Rightarrow> nat \<Rightarrow> pkt" where
  "skip_bytes this n = this\<lparr>pk_adjusted_data := chunk_skip (pk_adjusted_data this) n\<rparr>"

definition packet_create_from_data :: "host option \<Rightarrow> host option \<Rightarrow> chunk \<Rightarrow> pkt" where
  "packet_create_from_data s d bs =
     \<lparr>pk_source = s, pk_destination = d, pk_dscp = 0, pk_data = bs, pk_adjusted_data = bs\<rparr>"

definition packet_create :: pkt where
  "packet_create = packet_create_from_data None None []"

text \<open>Data of length 0 stands for the missing buffer, which is not copied.\<close>

definition clone_packet :: "pkt \<Rightarrow> bool \<Rightarrow> pkt" where
  "clone_packet this skip_data =
     (let other = packet_create;
          other = (if pk_destination this \<noteq> None then set_destination other (pk_destination this) else other);
          other = (if pk_source this \<noteq> None then set_source other (pk_source this) else other);
          other = set_dscp other (pk_dscp this)
      in if \<not> skip_data \<and> pk_data this \<noteq> [] then set_data other (pk_adjusted_data this) else other)"

named_theorems pkt_defs \<open>the accessors of packets\<close>
declare set_source_def [pkt_defs] set_destination_def [pkt_defs] pkt_get_source_def [pkt_defs]
  pkt_get_destination_def [pkt_defs] get_data_def [pkt_defs] set_data_def [pkt_defs] get_dscp_def [pkt_defs]
  set_dscp_def [pkt_defs] skip_bytes_def [pkt_defs] packet_create_from_data_def [pkt_defs] packet_create_def [pkt_defs]

lemma get_set_data [simp]: "get_data (set_data p d) = d"
  by (simp add: pkt_defs)

lemma pkt_frame_set_data [simp]:
  "pk_source (set_data p d) = pk_source p" "pk_destination (set_data p d) = pk_destination p"
  by (simp_all add: pkt_defs)

lemma clone_packet_get_data:
  "(pk_data p = [] \<longrightarrow> pk_adjusted_data p = []) \<Longrightarrow> get_data (clone_packet p False) = get_data p"
  by (simp add: clone_packet_def Let_def pkt_defs)

end
