(* ===== verification/Chapoly_Drv.thy ===== *)
theory Chapoly_Drv
  imports Prelude
begin

text \<open>
  The portable ChaCha20/Poly1305 driver, \<open>plugins/chapoly/chapoly_drv_portable.c\<close>: the ChaCha20 block
  function on sixteen 32 bit words, and the Poly1305 accumulator in five limbs of 26 bits with
  delayed carries.  Every method of the driver returns \<open>TRUE\<close>; the definitions return its new state.
  The host is little-endian, so \<open>le32toh\<close> is the identity.
\<close>

section \<open>The driver\<close>

definition CHACHA_BLOCK_SIZE :: nat where "CHACHA_BLOCK_SIZE = 64"
definition POLY_BLOCK_SIZE :: nat where "POLY_BLOCK_SIZE = 16"
definition CHACHA_DOUBLEROUNDS :: nat where "CHACHA_DOUBLEROUNDS = 10"

type_synonym limbs = "u32 \<times> u32 \<times> u32 \<times> u32 \<times> u32"

record chapoly_drv =
  drv_m :: "u32 list"
  drv_r :: limbs
  drv_h :: limbs
  drv_s :: "u32 \<times> u32 \<times> u32 \<times> u32"

definition chapoly_drv_portable_create :: chapoly_drv where
  "chapoly_drv_portable_create =
     \<lparr>drv_m = replicate 16 0, drv_r = (0, 0, 0, 0, 0), drv_h = (0, 0, 0, 0, 0), drv_s = (0, 0, 0, 0)\<rparr>"

definition xor32u :: "chunk \<Rightarrow> u32 \<Rightarrow> chunk" where
  "xor32u p x = htoule32 (uletoh32 p XOR x)"

definition mlt :: "u64 \<Rightarrow> u64 \<Rightarrow> u64" where
  "mlt a b = a * b"

definition sr :: "u64 \<Rightarrow> nat \<Rightarrow> u32" where
  "sr v n = ucast (drop_bit n v)"

definition rotl32 :: "u32 \<Rightarrow> nat \<Rightarrow> u32" where
  "rotl32 v n = push_bit n v OR drop_bit (32 - n) v"

text \<open>\<open>and\<close> works on \<open>u_long\<close>; its results are stored in 32 bit variables.\<close>

definition and_mask :: "u64 \<Rightarrow> u64 \<Rightarrow> u32" where
  "and_mask v msk = ucast (v AND msk)"

definition double_round :: "u32 list \<Rightarrow> u32 list" where
  "double_round x = (case x of
     [x0, x1, x2, x3, x4, x5, x6, x7, x8, x9, xa, xb, xc, xd, xe, xf] \<Rightarrow>
     let x0 = x0 + x4; xc = rotl32 (xc XOR x0) 16;
         x1 = x1 + x5; xd = rotl32 (xd XOR x1) 16;
         x2 = x2 + x6; xe = rotl32 (xe XOR x2) 16;
         x3 = x3 + x7; xf = rotl32 (xf XOR x3) 16;

         x8 = x8 + xc; x4 = rotl32 (x4 XOR x8) 12;
         x9 = x9 + xd; x5 = rotl32 (x5 XOR x9) 12;
         xa = xa + xe; x6 = rotl32 (x6 XOR xa) 12;
         xb = xb + xf; x7 = rotl32 (x7 XOR xb) 12;

         x0 = x0 + x4; xc = rotl32 (xc XOR x0) 8;
         x1 = x1 + x5; xd = rotl32 (xd XOR x1) 8;
         x2 = x2 + x6; xe = rotl32 (xe XOR x2) 8;
         x3 = x3 + x7; xf = rotl32 (xf XOR x3) 8;

         x8 = x8 + xc; x4 = rotl32 (x4 XOR x8) 7;
         x9 = x9 + xd; x5 = rotl32 (x5 XOR x9) 7;
         xa = xa + xe; x6 = rotl32 (x6 XOR xa) 7;
         xb = xb + xf; x7 = rotl32 (x7 XOR xb) 7;

         x0 = x0 + x5; xf = rotl32 (xf XOR x0) 16;
         x1 = x1 + x6; xc = rotl32 (xc XOR x1) 16;
         x2 = x2 + x7; xd = rotl32 (xd XOR x2) 16;
         x3 = x3 + x4; xe = rotl32 (xe XOR x3) 16;

         xa = xa + xf; x5 = rotl32 (x5 XOR xa) 12;
         xb = xb + xc; x6 = rotl32 (x6 XOR xb) 12;
         x8 = x8 + xd; x7 = rotl32 (x7 XOR x8) 12;
         x9 = x9 + xe; x4 = rotl32 (x4 XOR x9) 12;

         x0 = x0 + x5; xf = rotl32 (xf XOR x0) 8;
         x1 = x1 + x6; xc = rotl32 (xc XOR x1) 8;
         x2 = x2 + x7; xd = rotl32 (xd XOR x2) 8;
         x3 = x3 + x4; xe = rotl32 (xe XOR x3) 8;

         xa = xa + xf; x5 = rotl32 (x5 XOR xa) 7;
         xb = xb + xc; x6 = rotl32 (x6 XOR xb) 7;
         x8 = x8 + xd; x7 = rotl32 (x7 XOR x8) 7;
         x9 = x9 + xe; x4 = rotl32 (x4 XOR x9) 7
     in [x0, x1, x2, x3, x4, x5, x6, x7, x8, x9, xa, xb, xc, xd, xe, xf]
   | _ \<Rightarrow> x)"

text \<open>The output overwrites the first 64 bytes at the address; it is returned.\<close>

definition chacha_block_xor :: "chapoly_drv \<Rightarrow> chunk \<Rightarrow> chapoly_drv \<times> chunk" where
  "chacha_block_xor this data =
     (let m = drv_m this; x = (double_round ^^ CHACHA_DOUBLEROUNDS) m
      in (this\<lparr>drv_m := m[12 := m ! 12 + 1]\<rparr>,
          concat (map (\<lambda>i. xor32u (drop (4 * i) data) (x ! i + m ! i)) [0..<16])))"

definition set_key :: "chapoly_drv \<Rightarrow> chunk \<Rightarrow> chunk \<Rightarrow> chunk \<Rightarrow> chapoly_drv" where
  "set_key this constant key salt =
     (let m = drv_m this;
          m = map (\<lambda>i. uletoh32 (drop (4 * i) constant)) [0..<4] @
              map (\<lambda>i. uletoh32 (drop (4 * i) key)) [0..<8] @ drop 12 m
      in this\<lparr>drv_m := m[13 := uletoh32 salt]\<rparr>)"

definition drv_init :: "chapoly_drv \<Rightarrow> chunk \<Rightarrow> chapoly_drv" where
  "drv_init this iv =
     (let m = drv_m this;
          this = this\<lparr>drv_m := m[12 := 0, 14 := uletoh32 iv, 15 := uletoh32 (drop 4 iv)]\<rparr>;
          (this, key) = chacha_block_xor this (replicate CHACHA_BLOCK_SIZE 0)
      in this\<lparr>drv_r :=
           (uletoh32 key AND 0x3ffffff,
            drop_bit 2 (uletoh32 (drop 3 key)) AND 0x3ffff03,
            drop_bit 4 (uletoh32 (drop 6 key)) AND 0x3ffc0ff,
            drop_bit 6 (uletoh32 (drop 9 key)) AND 0x3f03fff,
            drop_bit 8 (uletoh32 (drop 12 key)) AND 0x00fffff),
         drv_h := (0, 0, 0, 0, 0),
         drv_s := (uletoh32 (drop 16 key), uletoh32 (drop 20 key),
                   uletoh32 (drop 24 key), uletoh32 (drop 28 key))\<rparr>)"

text \<open>The three steps of the loop: \<open>h += m[i]\<close>, \<open>h *= r\<close> and the partial reduction.\<close>

definition poly_add :: "chunk \<Rightarrow> limbs \<Rightarrow> limbs" where
  "poly_add data h =
     (let (h0, h1, h2, h3, h4) = h
      in (h0 + (uletoh32 data AND 0x3ffffff),
          h1 + (drop_bit 2 (uletoh32 (drop 3 data)) AND 0x3ffffff),
          h2 + (drop_bit 4 (uletoh32 (drop 6 data)) AND 0x3ffffff),
          h3 + (drop_bit 6 (uletoh32 (drop 9 data)) AND 0x3ffffff),
          h4 + (drop_bit 8 (uletoh32 (drop 12 data)) OR push_bit 24 1)))"

definition poly_mult :: "limbs \<Rightarrow> limbs \<Rightarrow> u64 \<times> u64 \<times> u64 \<times> u64 \<times> u64" where
  "poly_mult r h =
     (let (r0, r1, r2, r3, r4) = r; (h0, h1, h2, h3, h4) = h;
          s1 = r1 * 5; s2 = r2 * 5; s3 = r3 * 5; s4 = r4 * 5;
          ml = (\<lambda>a b. mlt (ucast a) (ucast b))
      in (ml h0 r0 + ml h1 s4 + ml h2 s3 + ml h3 s2 + ml h4 s1,
          ml h0 r1 + ml h1 r0 + ml h2 s4 + ml h3 s3 + ml h4 s2,
          ml h0 r2 + ml h1 r1 + ml h2 r0 + ml h3 s4 + ml h4 s3,
          ml h0 r3 + ml h1 r2 + ml h2 r1 + ml h3 r0 + ml h4 s4,
          ml h0 r4 + ml h1 r3 + ml h2 r2 + ml h3 r1 + ml h4 r0))"

definition poly_carry :: "u64 \<times> u64 \<times> u64 \<times> u64 \<times> u64 \<Rightarrow> limbs" where
  "poly_carry d =
     (let (d0, d1, d2, d3, d4) = d;
          d1 = d1 + ucast (sr d0 26);    h0 = and_mask d0 0x3ffffff;
          d2 = d2 + ucast (sr d1 26);    h1 = and_mask d1 0x3ffffff;
          d3 = d3 + ucast (sr d2 26);    h2 = and_mask d2 0x3ffffff;
          d4 = d4 + ucast (sr d3 26);    h3 = and_mask d3 0x3ffffff;
          h0 = h0 + sr d4 26 * 5;        h4 = and_mask d4 0x3ffffff;
          h1 = h1 + drop_bit 26 h0;      h0 = h0 AND 0x3ffffff
      in (h0, h1, h2, h3, h4))"

definition poly_block :: "limbs \<Rightarrow> chunk \<Rightarrow> limbs \<Rightarrow> limbs" where
  "poly_block r data h = poly_carry (poly_mult r (poly_add data h))"

primrec poly_loop :: "limbs \<Rightarrow> nat \<Rightarrow> chunk \<Rightarrow> limbs \<Rightarrow> limbs" where
  "poly_loop r 0 data h = h"
| "poly_loop r (Suc blocks) data h = poly_loop r blocks (drop POLY_BLOCK_SIZE data) (poly_block r data h)"

definition poly :: "chapoly_drv \<Rightarrow> chunk \<Rightarrow> nat \<Rightarrow> chapoly_drv" where
  "poly this data blocks = this\<lparr>drv_h := poly_loop (drv_r this) blocks data (drv_h this)\<rparr>"

definition chacha :: "chapoly_drv \<Rightarrow> chapoly_drv \<times> chunk" where
  "chacha this = chacha_block_xor this (replicate CHACHA_BLOCK_SIZE 0)"

text \<open>The loops return the data with the given number of blocks replaced.\<close>

primrec drv_encrypt :: "chapoly_drv \<Rightarrow> chunk \<Rightarrow> nat \<Rightarrow> chapoly_drv \<times> chunk" where
  "drv_encrypt this data 0 = (this, data)"
| "drv_encrypt this data (Suc blocks) =
     (let (this, c) = chacha_block_xor this data;
          this = poly this c 4;
          (this, rest) = drv_encrypt this (drop CHACHA_BLOCK_SIZE data) blocks
      in (this, c @ rest))"

primrec drv_decrypt :: "chapoly_drv \<Rightarrow> chunk \<Rightarrow> nat \<Rightarrow> chapoly_drv \<times> chunk" where
  "drv_decrypt this data 0 = (this, data)"
| "drv_decrypt this data (Suc blocks) =
     (let this = poly this data 4;
          (this, c) = chacha_block_xor this data;
          (this, rest) = drv_decrypt this (drop CHACHA_BLOCK_SIZE data) blocks
      in (this, c @ rest))"

definition finish_carry :: "limbs \<Rightarrow> limbs" where
  "finish_carry h =
     (let (h0, h1, h2, h3, h4) = h;
          h2 = h2 + drop_bit 26 h1;      h1 = h1 AND 0x3ffffff;
          h3 = h3 + drop_bit 26 h2;      h2 = h2 AND 0x3ffffff;
          h4 = h4 + drop_bit 26 h3;      h3 = h3 AND 0x3ffffff;
          h0 = h0 + drop_bit 26 h4 * 5;  h4 = h4 AND 0x3ffffff;
          h1 = h1 + drop_bit 26 h0;      h0 = h0 AND 0x3ffffff
      in (h0, h1, h2, h3, h4))"

definition finish_reduce :: "limbs \<Rightarrow> limbs" where
  "finish_reduce h =
     (let (h0, h1, h2, h3, h4) = h;
          g0 = h0 + 5;
          g1 = h1 + drop_bit 26 g0;                    g0 = g0 AND 0x3ffffff;
          g2 = h2 + drop_bit 26 g1;                    g1 = g1 AND 0x3ffffff;
          g3 = h3 + drop_bit 26 g2;                    g2 = g2 AND 0x3ffffff;
          g4 = h4 + drop_bit 26 g3 - push_bit 26 1;    g3 = g3 AND 0x3ffffff;

          msk = drop_bit 31 g4 - 1;
          g0 = g0 AND msk; g1 = g1 AND msk; g2 = g2 AND msk; g3 = g3 AND msk; g4 = g4 AND msk;
          msk = NOT msk
      in ((h0 AND msk) OR g0, (h1 AND msk) OR g1, (h2 AND msk) OR g2, (h3 AND msk) OR g3,
          (h4 AND msk) OR g4))"

definition finish :: "chapoly_drv \<Rightarrow> chunk" where
  "finish this =
     (let (h0, h1, h2, h3, h4) = finish_reduce (finish_carry (drv_h this));
          (s0, s1, s2, s3) = drv_s this;
          h0 = h0 OR push_bit 26 h1;
          h1 = drop_bit 6 h1 OR push_bit 20 h2;
          h2 = drop_bit 12 h2 OR push_bit 14 h3;
          h3 = drop_bit 18 h3 OR push_bit 8 h4;

          f = ucast h0 + ucast s0 :: u64;                  m0 = htoule32 (ucast f);
          f = drop_bit 32 f + ucast h1 + ucast s1;         m1 = htoule32 (ucast f);
          f = drop_bit 32 f + ucast h2 + ucast s2;         m2 = htoule32 (ucast f);
          f = drop_bit 32 f + ucast h3 + ucast s3;         m3 = htoule32 (ucast f)
      in m0 @ m1 @ m2 @ m3)"

end
