(* ===== verification/Poly1305.thy ===== *)
theory Poly1305
  imports Chapoly_Drv
begin

text \<open>
  The Poly1305 authenticator of the driver computes the function of RFC 8439: no 32 or 64 bit
  operation on the limbs loses a carry, and the tag is the one defined on natural numbers modulo
  \<open>2 ^ 130 - 5\<close>.
\<close>


section \<open>Little-endian numbers\<close>

definition nat_of_le :: "chunk \<Rightarrow> nat" where
  "nat_of_le bs = nat_of_be (rev bs)"

lemma nat_of_le_append: "nat_of_le (xs @ ys) = nat_of_le xs + 256 ^ length xs * nat_of_le ys"
  by (simp add: nat_of_le_def)

lemma nat_of_le_less: "nat_of_le bs < 256 ^ length bs"
  using nat_of_be_less [of "rev bs"] by (simp add: nat_of_le_def)

lemma nat_of_le_take: "nat_of_le (take n bs) = nat_of_le bs mod 256 ^ n"
proof (cases "n \<le> length bs")
  case True
  have "nat_of_le bs = nat_of_le (take n bs) + 256 ^ n * nat_of_le (drop n bs)"
    using nat_of_le_append [of "take n bs" "drop n bs"] True by simp
  then show ?thesis using nat_of_le_less [of "take n bs"] True by simp
next
  case False
  then have "nat_of_le bs < 256 ^ n"
    by (intro less_le_trans [OF nat_of_le_less] power_increasing) simp_all
  with False show ?thesis by simp
qed

lemma nat_of_le_drop: "nat_of_le (drop n bs) = nat_of_le bs div 256 ^ n"
proof (cases "n \<le> length bs")
  case True
  have "nat_of_le bs = nat_of_le (take n bs) + 256 ^ n * nat_of_le (drop n bs)"
    using nat_of_le_append [of "take n bs" "drop n bs"] True by simp
  then show ?thesis using nat_of_le_less [of "take n bs"] True by simp
next
  case False
  then have "nat_of_le bs < 256 ^ n"
    by (intro less_le_trans [OF nat_of_le_less] power_increasing) simp_all
  with False show ?thesis by (simp add: nat_of_le_def)
qed

lemma unat_uletoh32: "unat (uletoh32 (drop k bs)) = nat_of_le bs div 256 ^ k mod 2 ^ 32"
proof -
  have "unat (uletoh32 (drop k bs)) = nat_of_le (take 4 (drop k bs)) mod 2 ^ 32"
    by (simp add: uletoh32_def nat_of_le_def unat_of_nat)
  then show ?thesis by (simp add: nat_of_le_take nat_of_le_drop)
qed

lemma nat_of_le_htoule32: "nat_of_le (htoule32 v) = unat v"
  using unat_word_less(2) [of v] by (simp add: nat_of_le_def htoule32_def)

lemma htoule32_cast:
  "htoule32 v = [ucast v, ucast (drop_bit 8 v), ucast (drop_bit 16 v), ucast (drop_bit 24 v)]"
proof -
  have *: "of_nat (unat v div 2 ^ n) = (ucast (drop_bit n v) :: byte)" for n
    by (rule unat_inj) (simp add: unat_drop_bit_div [symmetric] unsigned_ucast_eq take_bit_eq_mod)
  show ?thesis
    using * [of 0] * [of 8] * [of 16] * [of 24] by (simp add: htoule32_def be_of_nat_4)
qed

lemma htoule32_xor: "htoule32 (a XOR b) = map2 (XOR) (htoule32 a) (htoule32 b)"
  by (simp add: htoule32_cast drop_bit_xor unsigned_xor_eq)

lemma xor32u_bytes:
  assumes "4 \<le> length p"
  shows "xor32u p x = map2 (XOR) (take 4 p) (htoule32 x)"
proof -
  have "htoule32 (uletoh32 p) = take 4 p"
    using htoule32_uletoh32 [of "take 4 p"] assms by (simp add: uletoh32_def)
  then show ?thesis by (simp add: xor32u_def htoule32_xor)
qed

section \<open>The limbs of a number\<close>

definition limbs_val :: "limbs \<Rightarrow> nat" where
  "limbs_val h = (case h of (h0, h1, h2, h3, h4) \<Rightarrow>
     unat h0 + 2 ^ 26 * unat h1 + 2 ^ 52 * unat h2 + 2 ^ 78 * unat h3 + 2 ^ 104 * unat h4)"

lemma unat_and_26: "unat ((w :: 'a::len word) AND 0x3ffffff) = unat w mod 2 ^ 26"
proof -
  have "(0x3ffffff :: 'a word) = mask 26" by (simp add: mask_eq_exp_minus_1)
  then have "w AND 0x3ffffff = take_bit 26 w" by (simp only: take_bit_eq_mask)
  then show ?thesis by (simp only: unsigned_take_bit_eq) (simp only: take_bit_eq_mod)
qed

text \<open>The 128 bits of a block in limbs of 26 bits.\<close>

lemma limb_split:
  fixes n :: nat
  shows "n mod 2 ^ 26 + 2 ^ 26 * (n div 2 ^ 26 mod 2 ^ 26) + 2 ^ 52 * (n div 2 ^ 52 mod 2 ^ 26)
    + 2 ^ 78 * (n div 2 ^ 78 mod 2 ^ 26) + 2 ^ 104 * (n div 2 ^ 104) = n"
proof -
  have *: "2 ^ 26 * (n div 2 ^ (k + 26)) + n div 2 ^ k mod 2 ^ 26 = n div 2 ^ k" for k
    by (simp add: power_add div_mult2_eq)
  define q where "q k = n div 2 ^ k" for k
  have "2 ^ 26 * q (k + 26) + q k mod 2 ^ 26 = q k" for k using * [of k] by (simp only: q_def)
  from this [of 0] this [of 26] this [of 52] this [of 78]
  have "q 0 mod 2 ^ 26 + 2 ^ 26 * (q 26 mod 2 ^ 26) + 2 ^ 52 * (q 52 mod 2 ^ 26)
    + 2 ^ 78 * (q 78 mod 2 ^ 26) + 2 ^ 104 * q 104 = q 0" by (simp del: mult_div_mod_eq)
  then show ?thesis by (simp only: q_def power_0 div_by_1)
qed

lemma limb_at:
  fixes n :: nat
  shows "n mod 2 ^ 32 mod 2 ^ 26 = n mod 2 ^ 26"
    "n div 256 ^ 3 mod 2 ^ 32 div 2 ^ 2 mod 2 ^ 26 = n div 2 ^ 26 mod 2 ^ 26"
    "n div 256 ^ 6 mod 2 ^ 32 div 2 ^ 4 mod 2 ^ 26 = n div 2 ^ 52 mod 2 ^ 26"
    "n div 256 ^ 9 mod 2 ^ 32 div 2 ^ 6 mod 2 ^ 26 = n div 2 ^ 78 mod 2 ^ 26"
    "n div 256 ^ 12 mod 2 ^ 32 div 2 ^ 8 = n div 2 ^ 104 mod 2 ^ 24"
proof -
  have *: "n div 256 ^ k mod 2 ^ 32 div 2 ^ j = n div 2 ^ (8 * k + j) mod 2 ^ (32 - j)"
    if "j \<le> 32" for k j
  proof -
    have "(256::nat) ^ k = 2 ^ (8 * k)" by (simp add: power_mult)
    moreover have "drop_bit j (take_bit 32 (drop_bit (8 * k) n)) = take_bit (32 - j) (drop_bit (8 * k + j) n)"
      using that by (simp add: drop_bit_take_bit add.commute)
    ultimately show ?thesis by (simp add: drop_bit_eq_div take_bit_eq_mod)
  qed
  have m: "x mod 2 ^ (32 - j) mod 2 ^ 26 = x mod 2 ^ 26" if "j \<le> 6" for x j :: nat
    by (rule mod_mod_cancel, rule le_imp_power_dvd) (use that in simp)
  show "n mod 2 ^ 32 mod 2 ^ 26 = n mod 2 ^ 26" using m [of 0 n] by simp
  show "n div 256 ^ 3 mod 2 ^ 32 div 2 ^ 2 mod 2 ^ 26 = n div 2 ^ 26 mod 2 ^ 26"
    using * [of 2 3] m [of 2 "n div 2 ^ 26"] by (simp del: div_mult2_eq)
  show "n div 256 ^ 6 mod 2 ^ 32 div 2 ^ 4 mod 2 ^ 26 = n div 2 ^ 52 mod 2 ^ 26"
    using * [of 4 6] m [of 4 "n div 2 ^ 52"] by simp
  show "n div 256 ^ 9 mod 2 ^ 32 div 2 ^ 6 mod 2 ^ 26 = n div 2 ^ 78 mod 2 ^ 26"
    using * [of 6 9] m [of 6 "n div 2 ^ 78"] by simp
  show "n div 256 ^ 12 mod 2 ^ 32 div 2 ^ 8 = n div 2 ^ 104 mod 2 ^ 24"
    using * [of 8 12] by simp
qed


lemma block_limbs:
  assumes "length data = 16"
  defines "m \<equiv> (uletoh32 data AND 0x3ffffff, drop_bit 2 (uletoh32 (drop 3 data)) AND 0x3ffffff,
    drop_bit 4 (uletoh32 (drop 6 data)) AND 0x3ffffff, drop_bit 6 (uletoh32 (drop 9 data)) AND 0x3ffffff,
    drop_bit 8 (uletoh32 (drop 12 data)) OR push_bit 24 1)"
  shows "limbs_val m = nat_of_le data + 2 ^ 128"
proof -
  define n where "n = nat_of_le data"
  have n: "n < 2 ^ 128" using nat_of_le_less [of data] assms by (simp add: n_def)
  then have "n div 2 ^ 104 mod 2 ^ 24 = n div 2 ^ 104" by (simp add: div_less_iff_less_mult)
  moreover have "unat (drop_bit 8 (uletoh32 (drop 12 data)) OR push_bit 24 (1 :: u32)) =
      n div 256 ^ 12 mod 2 ^ 32 div 2 ^ 8 + 2 ^ 24"
    by (subst unat_or_push)
      (simp_all add: unat_drop_bit_div unat_uletoh32 div_less_iff_less_mult flip: n_def del: drop_bit_drop_bit)
  ultimately show ?thesis
    using unat_uletoh32 [of 0 data] unat_uletoh32 [of _ data]
    by (simp only: m_def limbs_val_def prod.case unat_and_26 unat_drop_bit_div n_def [symmetric] limb_at
        drop_0 power_0 div_by_1 limb_split)
      (use limb_split [of n] in simp)
qed


section \<open>Poly1305: one block\<close>

fun limbs_le :: "nat \<Rightarrow> limbs \<Rightarrow> bool" where
  "limbs_le b (h0, h1, h2, h3, h4) \<longleftrightarrow>
     unat h0 \<le> b \<and> unat h1 \<le> b \<and> unat h2 \<le> b \<and> unat h3 \<le> b \<and> unat h4 \<le> b"

fun poly_inv :: "limbs \<Rightarrow> bool" where
  "poly_inv (h0, h1, h2, h3, h4) \<longleftrightarrow>
     unat h0 < 2 ^ 26 \<and> unat h1 < 2 ^ 26 + 64 \<and> unat h2 < 2 ^ 26 \<and> unat h3 < 2 ^ 26 \<and> unat h4 < 2 ^ 26"

lemma poly_add_take: "poly_add (take 16 data) h = poly_add data h"
  by (simp add: poly_add_def uletoh32_def drop_take min_def)

lemma poly_add_val:
  assumes "poly_inv h" "length data = 16"
  shows "limbs_val (poly_add data h) = limbs_val h + nat_of_le data + 2 ^ 128"
    and "limbs_le (2 ^ 27 + 64) (poly_add data h)"
proof -
  obtain h0 h1 h2 h3 h4 where h: "h = (h0, h1, h2, h3, h4)" by (metis prod.collapse)
  obtain m0 m1 m2 m3 m4 where m: "m0 = uletoh32 data AND 0x3ffffff"
      "m1 = drop_bit 2 (uletoh32 (drop 3 data)) AND 0x3ffffff"
      "m2 = drop_bit 4 (uletoh32 (drop 6 data)) AND 0x3ffffff"
      "m3 = drop_bit 6 (uletoh32 (drop 9 data)) AND 0x3ffffff"
      "m4 = drop_bit 8 (uletoh32 (drop 12 data)) OR push_bit 24 1" by blast
  have add: "poly_add data h = (h0 + m0, h1 + m1, h2 + m2, h3 + m3, h4 + m4)"
    by (simp add: poly_add_def h m)
  have b: "unat m0 < 2 ^ 26" "unat m1 < 2 ^ 26" "unat m2 < 2 ^ 26" "unat m3 < 2 ^ 26"
    by (simp_all only: m unat_and_26) simp_all
  have "unat (drop_bit 8 (uletoh32 (drop 12 data))) < 2 ^ 24"
    using unat_word_less(2) [of "uletoh32 (drop 12 data)"]
    by (simp only: unat_drop_bit_div) (simp add: div_less_iff_less_mult)
  then have b4: "unat m4 < 2 ^ 25" unfolding m by (subst unat_or_push) simp_all
  have s: "unat (h0 + m0) = unat h0 + unat m0" "unat (h1 + m1) = unat h1 + unat m1"
      "unat (h2 + m2) = unat h2 + unat m2" "unat (h3 + m3) = unat h3 + unat m3"
      "unat (h4 + m4) = unat h4 + unat m4"
    using assms(1) b b4 by (simp_all add: h unat_add_small)
  have "limbs_val (m0, m1, m2, m3, m4) = nat_of_le data + 2 ^ 128"
    using block_limbs [OF assms(2)] by (simp only: m)
  then show "limbs_val (poly_add data h) = limbs_val h + nat_of_le data + 2 ^ 128"
    unfolding add unfolding h limbs_val_def prod.case s by (simp add: algebra_simps)
  show "limbs_le (2 ^ 27 + 64) (poly_add data h)"
    unfolding add limbs_le.simps s using assms(1) b b4 by (simp add: h)
qed

lemma unat_mlt: "unat (mlt (ucast (a :: u32)) (ucast (b :: u32))) = unat a * unat b"
proof -
  have "unat a * unat b < 2 ^ 32 * 2 ^ 32"
    using unat_word_less(2) [of a] unat_word_less(2) [of b] by (intro mult_strict_mono) simp_all
  then show ?thesis by (simp add: mlt_def unat_mult_small unat_ucast_up)
qed

lemma unat_sum5:
  fixes a b c d e :: u64
  assumes "unat a \<le> k" "unat b \<le> k" "unat c \<le> k" "unat d \<le> k" "unat e \<le> k" "5 * k < 2 ^ 64"
  shows "unat (a + b + c + d + e) = unat a + unat b + unat c + unat d + unat e"
  using assms by (simp add: unat_add_small)

lemma unat_5: "unat r < 2 ^ 26 \<Longrightarrow> unat (r * 5 :: u32) = 5 * unat r"
  by (simp add: unat_mult_small)

lemma poly_mult_val:
  assumes "limbs_le (2 ^ 27 + 64) h" "limbs_le (2 ^ 26 - 1) r" "poly_mult r h = (d0, d1, d2, d3, d4)"
  defines "k \<equiv> (2 ^ 27 + 64) * 2 ^ 26 :: nat"
  shows "unat d0 \<le> 25 * k \<and> unat d1 \<le> 25 * k \<and> unat d2 \<le> 25 * k \<and> unat d3 \<le> 25 * k \<and> unat d4 \<le> 5 * k"
    and "\<exists>q. limbs_val h * limbs_val r = unat d0 + 2 ^ 26 * unat d1 + 2 ^ 52 * unat d2 +
           2 ^ 78 * unat d3 + 2 ^ 104 * unat d4 + (2 ^ 130 - 5) * q"
proof -
  obtain h0 h1 h2 h3 h4 r0 r1 r2 r3 r4
    where h: "h = (h0, h1, h2, h3, h4)" and r: "r = (r0, r1, r2, r3, r4)" by (metis prod.collapse)
  have p: "unat (mlt (ucast a) (ucast b)) \<le> 5 * k \<and> unat (mlt (ucast a) (ucast (b * 5))) \<le> 5 * k \<and>
      unat (mlt (ucast a) (ucast b)) \<le> k"
    if "unat a \<le> 2 ^ 27 + 64" "unat b \<le> 2 ^ 26 - 1" for a b :: u32
  proof -
    have "unat a * unat b \<le> (2 ^ 27 + 64) * 2 ^ 26" using that by (intro mult_le_mono) simp_all
    then show ?thesis using that by (simp add: unat_mlt unat_5 k_def)
  qed
  have H: "unat h0 \<le> 2 ^ 27 + 64" "unat h1 \<le> 2 ^ 27 + 64" "unat h2 \<le> 2 ^ 27 + 64"
      "unat h3 \<le> 2 ^ 27 + 64" "unat h4 \<le> 2 ^ 27 + 64"
    and R: "unat r0 \<le> 2 ^ 26 - 1" "unat r1 \<le> 2 ^ 26 - 1" "unat r2 \<le> 2 ^ 26 - 1" "unat r3 \<le> 2 ^ 26 - 1"
      "unat r4 \<le> 2 ^ 26 - 1"
    using assms(1,2) by (simp_all add: h r)
  then have R5: "unat (r1 * 5) = 5 * unat r1" "unat (r2 * 5) = 5 * unat r2" "unat (r3 * 5) = 5 * unat r3"
      "unat (r4 * 5) = 5 * unat r4" by (simp_all add: unat_5)
  have k: "5 * (5 * k) < 2 ^ 64" "5 * k < 2 ^ 64" by (simp_all add: k_def)
  have d: "d0 = mlt (ucast h0) (ucast r0) + mlt (ucast h1) (ucast (r4 * 5)) + mlt (ucast h2) (ucast (r3 * 5)) + mlt (ucast h3) (ucast (r2 * 5)) + mlt (ucast h4) (ucast (r1 * 5))"
    "d1 = mlt (ucast h0) (ucast r1) + mlt (ucast h1) (ucast r0) + mlt (ucast h2) (ucast (r4 * 5)) + mlt (ucast h3) (ucast (r3 * 5)) + mlt (ucast h4) (ucast (r2 * 5))"
    "d2 = mlt (ucast h0) (ucast r2) + mlt (ucast h1) (ucast r1) + mlt (ucast h2) (ucast r0) + mlt (ucast h3) (ucast (r4 * 5)) + mlt (ucast h4) (ucast (r3 * 5))"
    "d3 = mlt (ucast h0) (ucast r3) + mlt (ucast h1) (ucast r2) + mlt (ucast h2) (ucast r1) + mlt (ucast h3) (ucast r0) + mlt (ucast h4) (ucast (r4 * 5))"
    "d4 = mlt (ucast h0) (ucast r4) + mlt (ucast h1) (ucast r3) + mlt (ucast h2) (ucast r2) + mlt (ucast h3) (ucast r1) + mlt (ucast h4) (ucast r0)"
    using assms(3) by (simp_all add: poly_mult_def h r Let_def)
  note s = unat_sum5 [OF _ _ _ _ _ k(1)] unat_sum5 [OF _ _ _ _ _ k(2)]
  have u: "unat d0 = unat h0 * unat r0 + unat h1 * (5 * unat r4) + unat h2 * (5 * unat r3) + unat h3 * (5 * unat r2) + unat h4 * (5 * unat r1)"
    "unat d1 = unat h0 * unat r1 + unat h1 * unat r0 + unat h2 * (5 * unat r4) + unat h3 * (5 * unat r3) + unat h4 * (5 * unat r2)"
    "unat d2 = unat h0 * unat r2 + unat h1 * unat r1 + unat h2 * unat r0 + unat h3 * (5 * unat r4) + unat h4 * (5 * unat r3)"
    "unat d3 = unat h0 * unat r3 + unat h1 * unat r2 + unat h2 * unat r1 + unat h3 * unat r0 + unat h4 * (5 * unat r4)"
    "unat d4 = unat h0 * unat r4 + unat h1 * unat r3 + unat h2 * unat r2 + unat h3 * unat r1 + unat h4 * unat r0"
    unfolding d using p H R by (simp_all only: s) (simp_all only: unat_mlt R5)
  have b: "unat x * unat y \<le> k" if "unat x \<le> 2 ^ 27 + 64" "unat y \<le> 2 ^ 26 - 1" for x y :: u32
    using p [OF that] by (simp only: unat_mlt)
  show "unat d0 \<le> 25 * k \<and> unat d1 \<le> 25 * k \<and> unat d2 \<le> 25 * k \<and> unat d3 \<le> 25 * k \<and> unat d4 \<le> 5 * k"
    unfolding u using H [THEN b, OF R(1)] H [THEN b, OF R(2)] H [THEN b, OF R(3)] H [THEN b, OF R(4)]
      H [THEN b, OF R(5)] by linarith
  show "\<exists>q. limbs_val h * limbs_val r = unat d0 + 2 ^ 26 * unat d1 + 2 ^ 52 * unat d2 +
           2 ^ 78 * unat d3 + 2 ^ 104 * unat d4 + (2 ^ 130 - 5) * q"
  proof
    show "limbs_val h * limbs_val r = unat d0 + 2 ^ 26 * unat d1 + 2 ^ 52 * unat d2 +
           2 ^ 78 * unat d3 + 2 ^ 104 * unat d4 + (2 ^ 130 - 5) *
           (unat h1 * unat r4 + unat h2 * unat r3 + unat h3 * unat r2 + unat h4 * unat r1 +
            2 ^ 26 * (unat h2 * unat r4 + unat h3 * unat r3 + unat h4 * unat r2) +
            2 ^ 52 * (unat h3 * unat r4 + unat h4 * unat r3) + 2 ^ 78 * (unat h4 * unat r4))"
      unfolding u limbs_val_def h r prod.case by (simp add: algebra_simps)
  qed
qed


lemma unat_sr_26: "unat d < 2 ^ 58 \<Longrightarrow> unat (sr d 26) = unat d div 2 ^ 26"
  by (simp only: sr_def unsigned_ucast_eq unat_drop_bit_div)
    (simp add: take_bit_nat_eq_self div_less_iff_less_mult)

lemma unat_and_mask_26: "unat (and_mask d 0x3ffffff) = unat d mod 2 ^ 26"
proof -
  have "unat d mod 2 ^ 26 < 2 ^ 32" by (rule less_trans [of _ "2 ^ 26"]) simp_all
  then show ?thesis
    by (simp only: and_mask_def unsigned_ucast_eq unat_and_26) (simp add: take_bit_nat_eq_self)
qed

lemma carry_step:
  fixes d e :: u64
  assumes "unat d < 2 ^ 58" "unat e < 2 ^ 63"
  shows "unat (e + ucast (sr d 26)) = unat e + unat d div 2 ^ 26"
proof -
  have "unat d div 2 ^ 26 < 2 ^ 32" using assms by (simp add: div_less_iff_less_mult)
  moreover have "unat (ucast (sr d 26) :: u64) = unat d div 2 ^ 26"
    using unat_sr_26 [OF assms(1)] by (simp add: unat_ucast_up)
  ultimately show ?thesis using assms by (subst unat_add_small) simp_all
qed

lemma carry_arith:
  fixes d0 d1 d2 d3 d4 e1 e2 e3 e4 f0 :: nat
  assumes "f0 = d0 mod 2 ^ 26 + 5 * (e4 div 2 ^ 26)" "e1 = d1 + d0 div 2 ^ 26" "e2 = d2 + e1 div 2 ^ 26"
    "e3 = d3 + e2 div 2 ^ 26" "e4 = d4 + e3 div 2 ^ 26"
  shows "f0 mod 2 ^ 26 + 2 ^ 26 * (e1 mod 2 ^ 26 + f0 div 2 ^ 26) + 2 ^ 52 * (e2 mod 2 ^ 26) +
      2 ^ 78 * (e3 mod 2 ^ 26) + 2 ^ 104 * (e4 mod 2 ^ 26) + (2 ^ 130 - 5) * (e4 div 2 ^ 26) =
      d0 + 2 ^ 26 * d1 + 2 ^ 52 * d2 + 2 ^ 78 * d3 + 2 ^ 104 * d4"
proof -
  have split: "\<exists>q m. x div 2 ^ 26 = q \<and> x mod 2 ^ 26 = m \<and> x = 2 ^ 26 * q + m" for x :: nat by simp
  obtain q0 m0 where 0: "d0 div 2 ^ 26 = q0" "d0 mod 2 ^ 26 = m0" "d0 = 2 ^ 26 * q0 + m0" using split by blast
  obtain q1 m1 where 1: "e1 div 2 ^ 26 = q1" "e1 mod 2 ^ 26 = m1" "e1 = 2 ^ 26 * q1 + m1" using split by blast
  obtain q2 m2 where 2: "e2 div 2 ^ 26 = q2" "e2 mod 2 ^ 26 = m2" "e2 = 2 ^ 26 * q2 + m2" using split by blast
  obtain q3 m3 where 3: "e3 div 2 ^ 26 = q3" "e3 mod 2 ^ 26 = m3" "e3 = 2 ^ 26 * q3 + m3" using split by blast
  obtain q4 m4 where 4: "e4 div 2 ^ 26 = q4" "e4 mod 2 ^ 26 = m4" "e4 = 2 ^ 26 * q4 + m4" using split by blast
  obtain q5 m5 where 5: "f0 div 2 ^ 26 = q5" "f0 mod 2 ^ 26 = m5" "f0 = 2 ^ 26 * q5 + m5" using split by blast
  note A = assms [unfolded 0(1,2) 1(1) 2(1) 3(1) 4(1)]
  show ?thesis unfolding 0(1,2) 1(1,2) 2(1,2) 3(1,2) 4(1,2) 5(1,2)
    using A 0(3) 1(3) 2(3) 3(3) 4(3) 5(3) by simp
qed

lemma poly_carry_val:
  fixes d0 d1 d2 d3 d4 :: u64
  defines "k \<equiv> (2 ^ 27 + 64) * 2 ^ 26 :: nat"
  assumes "unat d0 \<le> 25 * k" "unat d1 \<le> 25 * k" "unat d2 \<le> 25 * k" "unat d3 \<le> 25 * k" "unat d4 \<le> 5 * k"
  shows "poly_inv (poly_carry (d0, d1, d2, d3, d4))"
    and "\<exists>q. unat d0 + 2 ^ 26 * unat d1 + 2 ^ 52 * unat d2 + 2 ^ 78 * unat d3 + 2 ^ 104 * unat d4 =
           limbs_val (poly_carry (d0, d1, d2, d3, d4)) + (2 ^ 130 - 5) * q"
proof -
  define e1 where "e1 = d1 + ucast (sr d0 26)"
  define e2 where "e2 = d2 + ucast (sr e1 26)"
  define e3 where "e3 = d3 + ucast (sr e2 26)"
  define e4 where "e4 = d4 + ucast (sr e3 26)"
  define f0 where "f0 = and_mask d0 0x3ffffff + sr e4 26 * 5"
  have r: "poly_carry (d0, d1, d2, d3, d4) =
      (f0 AND 0x3ffffff, and_mask e1 0x3ffffff + drop_bit 26 f0, and_mask e2 0x3ffffff,
       and_mask e3 0x3ffffff, and_mask e4 0x3ffffff)"
    by (simp add: poly_carry_def Let_def e1_def e2_def e3_def e4_def f0_def)
  define B where "B = (2 ^ 58 - 1 :: nat)"
  have step: "unat (e + ucast (sr d 26)) = unat e + unat d div 2 ^ 26 \<and> unat d div 2 ^ 26 < 2 ^ 32"
    if "unat d < 2 ^ 58" "unat e \<le> 25 * k" for d e :: u64
    using carry_step [of d e] that by (simp add: k_def div_less_iff_less_mult)
  have b0: "unat d0 < 2 ^ 58" using assms by simp
  have 1: "unat e1 = unat d1 + unat d0 div 2 ^ 26" "unat e1 < 2 ^ 58"
    using step [OF b0 assms(3)] assms(3) by (simp_all add: e1_def k_def)
  have 2: "unat e2 = unat d2 + unat e1 div 2 ^ 26" "unat e2 < 2 ^ 58"
    using step [OF 1(2) assms(4)] assms(4) by (simp_all add: e2_def k_def)
  have 3: "unat e3 = unat d3 + unat e2 div 2 ^ 26" "unat e3 < 2 ^ 58"
    using step [OF 2(2) assms(5)] assms(5) by (simp_all add: e3_def k_def)
  have 4: "unat e4 = unat d4 + unat e3 div 2 ^ 26" "unat e4 \<le> 5 * k + 2 ^ 32"
    using step [of e3 d4] 3(2) assms(6) by (simp_all add: e4_def k_def)
  define q where "q = unat e4 div 2 ^ 26"
  have q: "q \<le> 5 * (2 ^ 27 + 64) + 64"
    using div_le_mono [OF 4(2), of "2 ^ 26"] by (simp add: q_def k_def)
  have "unat (sr e4 26 * 5) = 5 * q"
    using 4(2) q by (subst unat_mult_small) (simp_all add: unat_sr_26 q_def k_def)
  then have f0: "unat f0 = unat d0 mod 2 ^ 26 + 5 * q"
    using q mod_less_divisor [of "2 ^ 26" "unat d0"]
    unfolding f0_def by (subst unat_add_small) (simp_all add: unat_and_mask_26)
  have c: "unat f0 div 2 ^ 26 < 64"
    using f0 q mod_less_divisor [of "2 ^ 26" "unat d0"] by (simp add: div_less_iff_less_mult)
  have h1: "unat (and_mask e1 0x3ffffff + drop_bit 26 f0) = unat e1 mod 2 ^ 26 + unat f0 div 2 ^ 26"
    using c mod_less_divisor [of "2 ^ 26" "unat e1"]
    by (subst unat_add_small) (simp_all only: unat_and_mask_26 unat_drop_bit_div, simp_all)
  show "poly_inv (poly_carry (d0, d1, d2, d3, d4))"
    unfolding r poly_inv.simps h1 unat_and_26 unat_and_mask_26
    using c mod_less_divisor [of "2 ^ 26" "unat e1"] by simp
  have "limbs_val (poly_carry (d0, d1, d2, d3, d4)) + (2 ^ 130 - 5) * q =
      unat d0 + 2 ^ 26 * unat d1 + 2 ^ 52 * unat d2 + 2 ^ 78 * unat d3 + 2 ^ 104 * unat d4"
    unfolding r limbs_val_def prod.case h1 unat_and_26 unat_and_mask_26
    by (rule carry_arith [OF f0 [unfolded q_def] 1(1) 2(1) 3(1) 4(1), folded q_def])
  then show "\<exists>q. unat d0 + 2 ^ 26 * unat d1 + 2 ^ 52 * unat d2 + 2 ^ 78 * unat d3 + 2 ^ 104 * unat d4 =
           limbs_val (poly_carry (d0, d1, d2, d3, d4)) + (2 ^ 130 - 5) * q" by metis
qed

definition p1305 :: nat where
  "p1305 = 2 ^ 130 - 5"

lemma poly_block_val:
  assumes "poly_inv h" "limbs_le (2 ^ 26 - 1) r" "16 \<le> length data"
  shows "poly_inv (poly_block r data h)"
    and "limbs_val (poly_block r data h) mod p1305 =
         (limbs_val h + (nat_of_le (take 16 data) + 2 ^ 128)) * limbs_val r mod p1305"
proof -
  let ?a = "poly_add (take 16 data) h"
  have l: "length (take 16 data) = 16" using assms(3) by simp
  obtain d0 d1 d2 d3 d4 where d: "poly_mult r ?a = (d0, d1, d2, d3, d4)" by (metis prod.collapse)
  note m = poly_mult_val [OF poly_add_val(2) [OF assms(1) l] assms(2) d]
  have e: "poly_block r data h = poly_carry (d0, d1, d2, d3, d4)"
    by (simp add: poly_block_def poly_add_take flip: d)
  show "poly_inv (poly_block r data h)" using m(1) poly_carry_val(1) unfolding e by blast
  obtain q1 where q1: "limbs_val ?a * limbs_val r = unat d0 + 2 ^ 26 * unat d1 + 2 ^ 52 * unat d2 +
      2 ^ 78 * unat d3 + 2 ^ 104 * unat d4 + (2 ^ 130 - 5) * q1" using m(2) by blast
  obtain q2 where q2: "unat d0 + 2 ^ 26 * unat d1 + 2 ^ 52 * unat d2 + 2 ^ 78 * unat d3 + 2 ^ 104 * unat d4 =
      limbs_val (poly_block r data h) + (2 ^ 130 - 5) * q2" using m(1) poly_carry_val(2) unfolding e by blast
  have "limbs_val ?a * limbs_val r = limbs_val (poly_block r data h) + p1305 * (q2 + q1)"
    unfolding q1 q2 p1305_def by (simp only: distrib_left add.assoc)
  then show "limbs_val (poly_block r data h) mod p1305 =
         (limbs_val h + (nat_of_le (take 16 data) + 2 ^ 128)) * limbs_val r mod p1305"
    using poly_add_val(1) [OF assms(1) l] by (simp add: add.assoc)
qed


section \<open>Poly1305: the whole message\<close>

text \<open>The definition of RFC 8439, section 2.5.\<close>

fun poly1305_acc :: "nat \<Rightarrow> nat \<Rightarrow> chunk \<Rightarrow> nat" where
  "poly1305_acc r acc msg = (if msg = [] then acc
     else poly1305_acc r ((acc + nat_of_le (take 16 msg @ [1])) * r mod p1305) (drop 16 msg))"

declare poly1305_acc.simps [simp del]

definition clamp :: "nat \<Rightarrow> nat" where
  "clamp r = r AND 0x0ffffffc0ffffffc0ffffffc0fffffff"

definition le_of_nat :: "nat \<Rightarrow> nat \<Rightarrow> chunk" where
  "le_of_nat n x = rev (be_of_nat n x)"

definition poly1305 :: "chunk \<Rightarrow> chunk \<Rightarrow> chunk" where
  "poly1305 key msg = le_of_nat 16
     (poly1305_acc (clamp (nat_of_le (take 16 key))) 0 msg + nat_of_le (take 16 (drop 16 key)))"

lemma poly1305_acc_Nil [simp]: "poly1305_acc r acc [] = acc"
  by (simp add: poly1305_acc.simps)

lemma poly1305_acc_append:
  "16 dvd length xs \<Longrightarrow> poly1305_acc r acc (xs @ ys) = poly1305_acc r (poly1305_acc r acc xs) ys"
proof (induction r acc xs rule: poly1305_acc.induct)
  case (1 r acc xs)
  show ?case
  proof (cases "xs = []")
    case False
    with "1.prems" have "16 \<le> length xs" by (auto dest: dvd_imp_le)
    with 1 False show ?thesis
      by (subst (1 2) poly1305_acc.simps) (simp add: dvd_diff_nat)
  qed simp
qed

lemma poly_loop_val:
  assumes "limbs_le (2 ^ 26 - 1) r"
  shows "poly_inv h \<Longrightarrow> 16 * n \<le> length data \<Longrightarrow> limbs_val h mod p1305 = acc \<Longrightarrow>
    poly_inv (poly_loop r n data h) \<and>
    limbs_val (poly_loop r n data h) mod p1305 = poly1305_acc (limbs_val r) acc (take (16 * n) data)"
proof (induction n arbitrary: data h acc)
  case (Suc n)
  have len: "16 \<le> length data" using Suc.prems(2) by simp
  have n: "nat_of_le (take 16 data @ [1]) = nat_of_le (take 16 data) + 2 ^ 128"
    using len by (simp only: nat_of_le_append) (simp add: nat_of_le_def min_def)
  have acc: "limbs_val (poly_block r data h) mod p1305 = (acc + nat_of_le (take 16 data @ [1])) * limbs_val r mod p1305"
    unfolding poly_block_val(2) [OF Suc.prems(1) assms len] n
    using mod_mult_left_eq mod_add_left_eq Suc.prems(3) by metis
  have "take (16 * Suc n) data = take 16 data @ take (16 * n) (drop 16 data)"
    using take_add [of 16 "16 * n" data] by simp
  then have "poly1305_acc (limbs_val r) acc (take (16 * Suc n) data) =
      poly1305_acc (limbs_val r) ((acc + nat_of_le (take 16 data @ [1])) * limbs_val r mod p1305) (take (16 * n) (drop 16 data))"
    using len by (subst poly1305_acc.simps) auto
  with Suc.IH [OF poly_block_val(1) [OF Suc.prems(1) assms len] _ acc, of "drop 16 data"] Suc.prems
  show ?case by (simp add: POLY_BLOCK_SIZE_def)
qed simp

section \<open>Poly1305: the key\<close>

lemma clamp_less: "clamp n < 2 ^ 128"
proof -
  let ?c = "0x0ffffffc0ffffffc0ffffffc0fffffff :: nat"
  have "take_bit 128 ?c = ?c" by (rule take_bit_nat_eq_self) simp
  then have "?c AND mask 128 = ?c" by (simp only: take_bit_eq_mask)
  then have "take_bit 128 (clamp n) = clamp n" by (simp only: take_bit_eq_mask clamp_def and.assoc)
  then show ?thesis by (simp only: take_bit_nat_eq_self_iff)
qed

lemma clamp_limbs:
  fixes n :: nat
  shows "n mod 2 ^ 26 AND 0x3ffffff = clamp n mod 2 ^ 26"
    "(n div 2 ^ 26 mod 2 ^ 26) AND 0x3ffff03 = clamp n div 2 ^ 26 mod 2 ^ 26"
    "(n div 2 ^ 52 mod 2 ^ 26) AND 0x3ffc0ff = clamp n div 2 ^ 52 mod 2 ^ 26"
    "(n div 2 ^ 78 mod 2 ^ 26) AND 0x3f03fff = clamp n div 2 ^ 78 mod 2 ^ 26"
    "(n div 2 ^ 104 mod 2 ^ 24) AND 0x00fffff = clamp n div 2 ^ 104"
proof -
  let ?c = "0x0ffffffc0ffffffc0ffffffc0fffffff :: nat"
  have *: "take_bit 26 (drop_bit k n) AND take_bit 26 (drop_bit k ?c) = take_bit 26 (drop_bit k (clamp n))" for k
    by (simp only: clamp_def drop_bit_and take_bit_and)
  have e: "take_bit 26 (drop_bit 0 ?c) = 0x3ffffff" "take_bit 26 (drop_bit 26 ?c) = 0x3ffff03"
    "take_bit 26 (drop_bit 52 ?c) = 0x3ffc0ff" "take_bit 26 (drop_bit 78 ?c) = 0x3f03fff"
    by (simp_all only: drop_bit_eq_div take_bit_eq_mod) simp_all
  show "n mod 2 ^ 26 AND 0x3ffffff = clamp n mod 2 ^ 26"
    using * [of 0] unfolding e by (simp only: drop_bit_eq_div take_bit_eq_mod power_0 div_by_1)
  show "(n div 2 ^ 26 mod 2 ^ 26) AND 0x3ffff03 = clamp n div 2 ^ 26 mod 2 ^ 26"
    "(n div 2 ^ 52 mod 2 ^ 26) AND 0x3ffc0ff = clamp n div 2 ^ 52 mod 2 ^ 26"
    "(n div 2 ^ 78 mod 2 ^ 26) AND 0x3f03fff = clamp n div 2 ^ 78 mod 2 ^ 26"
    using * [of 26] * [of 52] * [of 78] unfolding e by (simp_all only: drop_bit_eq_div take_bit_eq_mod)
  have "take_bit 24 (drop_bit 104 n) AND take_bit 24 (drop_bit 104 ?c) = take_bit 24 (drop_bit 104 (clamp n))"
    by (simp only: clamp_def drop_bit_and take_bit_and)
  moreover have "clamp n < 2 ^ 128" by (rule clamp_less)
  then have "take_bit 24 (drop_bit 104 (clamp n)) = drop_bit 104 (clamp n)"
    by (simp add: take_bit_nat_eq_self_iff drop_bit_eq_div div_less_iff_less_mult)
  moreover have "take_bit 24 (drop_bit 104 ?c) = 0x00fffff"
    by (simp only: drop_bit_eq_div take_bit_eq_mod) simp
  ultimately show "(n div 2 ^ 104 mod 2 ^ 24) AND 0x00fffff = clamp n div 2 ^ 104"
    by (simp only: drop_bit_eq_div take_bit_eq_mod)
qed


lemma key_limbs:
  fixes key :: chunk
  assumes "16 \<le> length key"
  defines "r \<equiv> (uletoh32 key AND 0x3ffffff, drop_bit 2 (uletoh32 (drop 3 key)) AND 0x3ffff03,
    drop_bit 4 (uletoh32 (drop 6 key)) AND 0x3ffc0ff, drop_bit 6 (uletoh32 (drop 9 key)) AND 0x3f03fff,
    drop_bit 8 (uletoh32 (drop 12 key)) AND 0x00fffff)"
  shows "limbs_val r = clamp (nat_of_le (take 16 key))" and "limbs_le (2 ^ 26 - 1) r"
proof -
  define n where "n = nat_of_le (take 16 key)"
  have u: "unat (uletoh32 (drop k key)) = n div 256 ^ k mod 2 ^ 32" if "k \<le> 12" for k
  proof -
    have "uletoh32 (drop k key) = uletoh32 (drop k (take 16 key))"
      using that by (simp add: uletoh32_def drop_take min_def)
    then show ?thesis by (simp only: unat_uletoh32 n_def)
  qed
  have s: "unat (w AND c) = unat w AND unat c" for w c :: u32 by (rule unsigned_and_eq)
  have t: "x AND c = (x mod 2 ^ 26) AND c" if "c < 2 ^ 26" for x c :: nat
  proof -
    have "c = mask 26 AND c" using that by (metis take_bit_nat_eq_self take_bit_eq_mask and.commute)
    then have "x AND c = take_bit 26 x AND c" by (metis take_bit_eq_mask and.assoc)
    then show ?thesis by (simp only: take_bit_eq_mod)
  qed
  have "(0x3ffffff :: nat) = mask 26" by (simp add: mask_eq_exp_minus_1)
  then have m26: "x mod 2 ^ 26 AND 0x3ffffff = x mod 2 ^ 26" for x :: nat
    by (simp only: take_bit_eq_mask [symmetric]) (simp only: take_bit_eq_mod mod_mod_trivial)
  have u3: "unat (uletoh32 (drop 3 key)) = n div 256 ^ 3 mod 2 ^ 32"
    and u6: "unat (uletoh32 (drop 6 key)) = n div 256 ^ 6 mod 2 ^ 32"
    and u9: "unat (uletoh32 (drop 9 key)) = n div 256 ^ 9 mod 2 ^ 32"
    and u12: "unat (uletoh32 (drop 12 key)) = n div 256 ^ 12 mod 2 ^ 32"
    by (rule u, simp)+
  have r0: "unat (uletoh32 key AND 0x3ffffff) = clamp n mod 2 ^ 26"
    unfolding unat_and_26 u [of 0, unfolded drop_0 power_0 div_by_1, OF le0] limb_at(1)
    using clamp_limbs(1) [of n] by (simp only: m26)
  have r1: "unat (drop_bit 2 (uletoh32 (drop 3 key)) AND 0x3ffff03) = clamp n div 2 ^ 26 mod 2 ^ 26"
    unfolding s unat_drop_bit_div u3
    by (subst t, simp, simp only: limb_at(2), subst clamp_limbs(2) [symmetric], simp)
  have r2: "unat (drop_bit 4 (uletoh32 (drop 6 key)) AND 0x3ffc0ff) = clamp n div 2 ^ 52 mod 2 ^ 26"
    unfolding s unat_drop_bit_div u6
    by (subst t, simp, simp only: limb_at(3), subst clamp_limbs(3) [symmetric], simp)
  have r3: "unat (drop_bit 6 (uletoh32 (drop 9 key)) AND 0x3f03fff) = clamp n div 2 ^ 78 mod 2 ^ 26"
    unfolding s unat_drop_bit_div u9
    by (subst t, simp, simp only: limb_at(4), subst clamp_limbs(4) [symmetric], simp)
  have r4: "unat (drop_bit 8 (uletoh32 (drop 12 key)) AND 0x00fffff) = clamp n div 2 ^ 104"
    unfolding s unat_drop_bit_div u12 limb_at(5)
    by (subst clamp_limbs(5) [symmetric], simp)
  show "limbs_val r = clamp (nat_of_le (take 16 key))"
    unfolding r_def limbs_val_def prod.case r0 r1 r2 r3 r4 n_def [symmetric] by (rule limb_split)
  have "clamp n div 2 ^ 104 < 2 ^ 24" using clamp_less [of n] by (simp add: div_less_iff_less_mult)
  moreover have "x mod 2 ^ 26 \<le> 2 ^ 26 - 1" for x :: nat using mod_less_divisor [of "2 ^ 26" x] by simp
  ultimately show "limbs_le (2 ^ 26 - 1) r"
    unfolding r_def limbs_le.simps r0 r1 r2 r3 r4 by simp
qed


section \<open>Poly1305: the tag\<close>

lemma unat_add_drop:
  fixes x y :: u32
  assumes "unat y + unat x div 2 ^ 26 < 2 ^ 32"
  shows "unat (y + drop_bit 26 x) = unat y + unat x div 2 ^ 26"
  using assms unat_add_small [of y "drop_bit 26 x"] by (simp only: unat_drop_bit_div len_num1 len_bit0) simp

lemma mod_26_le: "x mod 2 ^ 26 \<le> (2 ^ 26 - 1 :: nat)"
  using mod_less_divisor [of "2 ^ 26" x] by simp

lemma finish_carry_val:
  assumes "poly_inv h"
  shows "limbs_le (2 ^ 26 - 1) (finish_carry h)"
    and "limbs_val (finish_carry h) mod p1305 = limbs_val h mod p1305"
proof -
  obtain h0 h1 h2 h3 h4 where h: "h = (h0, h1, h2, h3, h4)" by (metis prod.collapse)
  have i: "unat h0 < 2 ^ 26" "unat h1 < 2 ^ 26 + 64" "unat h2 < 2 ^ 26" "unat h3 < 2 ^ 26" "unat h4 < 2 ^ 26"
    using assms by (simp_all add: h)
  have step: "unat (y + drop_bit 26 x) = unat y + unat x div 2 ^ 26 \<and> unat x div 2 ^ 26 < 2"
    if "unat x < 2 ^ 26 + 64" "unat y < 2 ^ 26" for x y :: u32
  proof -
    have "unat x div 2 ^ 26 < 2" using that by (simp add: div_less_iff_less_mult)
    with that show ?thesis by (simp add: unat_add_drop)
  qed
  define e2 where "e2 = h2 + drop_bit 26 h1"
  define e3 where "e3 = h3 + drop_bit 26 e2"
  define e4 where "e4 = h4 + drop_bit 26 e3"
  define f0 where "f0 = h0 + drop_bit 26 e4 * 5"
  have r: "finish_carry h = (f0 AND 0x3ffffff, (h1 AND 0x3ffffff) + drop_bit 26 f0, e2 AND 0x3ffffff,
      e3 AND 0x3ffffff, e4 AND 0x3ffffff)"
    by (simp add: finish_carry_def h Let_def e2_def e3_def e4_def f0_def)
  have 2: "unat e2 = unat h2 + unat h1 div 2 ^ 26" "unat h1 div 2 ^ 26 < 2"
    using step [of h1 h2] i by (simp_all add: e2_def)
  have 3: "unat e3 = unat h3 + unat e2 div 2 ^ 26" "unat e2 div 2 ^ 26 < 2"
    using step [of e2 h3] i 2 by (simp_all add: e3_def)
  have 4: "unat e4 = unat h4 + unat e3 div 2 ^ 26" "unat e3 div 2 ^ 26 < 2"
    using step [of e3 h4] i 3 by (simp_all add: e4_def)
  have c4: "unat e4 div 2 ^ 26 < 2"
    using 4 i(5) by (simp add: div_less_iff_less_mult)
  have 5: "unat f0 = unat h0 mod 2 ^ 26 + 5 * (unat e4 div 2 ^ 26)"
  proof -
    have "unat (drop_bit 26 e4 * 5) = 5 * (unat e4 div 2 ^ 26)"
      using c4 by (subst unat_mult_small) (simp_all only: unat_drop_bit_div, simp_all)
    then show ?thesis using i(1) c4 by (simp add: f0_def unat_add_small)
  qed
  have small: "unat h1 mod 2 ^ 26 + unat f0 div 2 ^ 26 < 2 ^ 26"
  proof (cases "unat e4 div 2 ^ 26 = 0")
    case True
    then show ?thesis using 5 i(1) by simp
  next
    case False
    have one: "1 \<le> unat x div 2 ^ 26 \<Longrightarrow> 2 ^ 26 \<le> unat x" for x :: u32 by (simp add: less_eq_div_iff_mult_less_eq)
    have "2 ^ 26 \<le> unat e4" using one False by simp
    then have "2 ^ 26 \<le> unat e3" using one 4 i(5) by simp
    then have "2 ^ 26 \<le> unat e2" using one 3 i(4) by simp
    then have "2 ^ 26 \<le> unat h1" using one 2 i(3) by simp
    then have "unat h1 mod 2 ^ 26 < 64" using i(2) by (simp add: le_mod_geq)
    moreover have "unat f0 div 2 ^ 26 < 2" using 5 c4 i(1) by (simp add: div_less_iff_less_mult)
    ultimately show ?thesis by simp
  qed
  have h1: "unat ((h1 AND 0x3ffffff) + drop_bit 26 f0) = unat h1 mod 2 ^ 26 + unat f0 div 2 ^ 26"
    using small by (subst unat_add_drop) (simp_all only: unat_and_26, simp_all)
  show "limbs_le (2 ^ 26 - 1) (finish_carry h)"
    unfolding r limbs_le.simps h1 unat_and_26
    by (intro conjI mod_26_le) (use small in simp)
  have "limbs_val (finish_carry h) + p1305 * (unat e4 div 2 ^ 26) = limbs_val h"
    unfolding r unfolding h limbs_val_def prod.case h1 unat_and_26 p1305_def
    by (rule carry_arith [OF 5 _ 2(1) 3(1) 4(1)]) (use i(1) in simp)
  then show "limbs_val (finish_carry h) mod p1305 = limbs_val h mod p1305" by (metis mod_mult_self2)
qed


lemma add5_arith:
  fixes h0 h1 h2 h3 h4 :: nat
  assumes "a0 = h0 + 5" "a1 = h1 + a0 div 2 ^ 26" "a2 = h2 + a1 div 2 ^ 26" "a3 = h3 + a2 div 2 ^ 26"
    "a4 = h4 + a3 div 2 ^ 26"
  shows "a0 mod 2 ^ 26 + 2 ^ 26 * (a1 mod 2 ^ 26) + 2 ^ 52 * (a2 mod 2 ^ 26) + 2 ^ 78 * (a3 mod 2 ^ 26) +
      2 ^ 104 * a4 = h0 + 2 ^ 26 * h1 + 2 ^ 52 * h2 + 2 ^ 78 * h3 + 2 ^ 104 * h4 + 5"
proof -
  have split: "\<exists>q m. x div 2 ^ 26 = q \<and> x mod 2 ^ 26 = m \<and> x = 2 ^ 26 * q + m" for x :: nat by simp
  obtain q0 m0 where 0: "a0 div 2 ^ 26 = q0" "a0 mod 2 ^ 26 = m0" "a0 = 2 ^ 26 * q0 + m0" using split by blast
  obtain q1 m1 where 1: "a1 div 2 ^ 26 = q1" "a1 mod 2 ^ 26 = m1" "a1 = 2 ^ 26 * q1 + m1" using split by blast
  obtain q2 m2 where 2: "a2 div 2 ^ 26 = q2" "a2 mod 2 ^ 26 = m2" "a2 = 2 ^ 26 * q2 + m2" using split by blast
  obtain q3 m3 where 3: "a3 div 2 ^ 26 = q3" "a3 mod 2 ^ 26 = m3" "a3 = 2 ^ 26 * q3 + m3" using split by blast
  note A = assms [unfolded 0(1,2) 1(1) 2(1) 3(1)]
  show ?thesis unfolding 0(2) 1(2) 2(2) 3(2) using A 0(3) 1(3) 2(3) 3(3) by simp
qed

lemma top_bit_mask:
  fixes a :: u32
  assumes "unat a \<le> 2 ^ 26"
  shows "drop_bit 31 (a - push_bit 26 1) - 1 = (if unat a = 2 ^ 26 then - 1 else 0)"
proof (cases "unat a = 2 ^ 26")
  case True
  then have "a = 2 ^ 26" by (intro unat_inj) simp
  then show ?thesis by simp
next
  case False
  have "a - push_bit 26 1 = a + 0xfc000000" by simp
  moreover have "unat (a + 0xfc000000) = unat a + 0xfc000000"
    using False assms by (subst unat_add_small) simp_all
  ultimately have "unat (a - push_bit 26 1) = unat a + 0xfc000000" by (simp only:)
  then have "unat (drop_bit 31 (a - push_bit 26 1)) = (unat a + 0xfc000000) div 2 ^ 31"
    by (simp only: unat_drop_bit_div)
  also have "\<dots> = 1" using False assms by (intro div_nat_eqI) simp_all
  finally have "drop_bit 31 (a - push_bit 26 1) = 1" by (intro unat_inj) simp
  with False show ?thesis by simp
qed

lemma finish_reduce_val:
  assumes "limbs_le (2 ^ 26 - 1) h"
  shows "limbs_val (finish_reduce h) = limbs_val h mod p1305"
    and "limbs_le (2 ^ 26 - 1) (finish_reduce h)"
proof -
  obtain h0 h1 h2 h3 h4 where h: "h = (h0, h1, h2, h3, h4)" by (metis prod.collapse)
  have i: "unat h0 < 2 ^ 26" "unat h1 < 2 ^ 26" "unat h2 < 2 ^ 26" "unat h3 < 2 ^ 26" "unat h4 < 2 ^ 26"
    using assms by (simp_all add: h)
  define a0 where "a0 = h0 + 5"
  define a1 where "a1 = h1 + drop_bit 26 a0"
  define a2 where "a2 = h2 + drop_bit 26 a1"
  define a3 where "a3 = h3 + drop_bit 26 a2"
  define a4 where "a4 = h4 + drop_bit 26 a3"
  define m where "m = drop_bit 31 (a4 - push_bit 26 1) - (1 :: u32)"
  have r: "finish_reduce h =
      ((h0 AND NOT m) OR ((a0 AND 0x3ffffff) AND m), (h1 AND NOT m) OR ((a1 AND 0x3ffffff) AND m),
       (h2 AND NOT m) OR ((a2 AND 0x3ffffff) AND m), (h3 AND NOT m) OR ((a3 AND 0x3ffffff) AND m),
       (h4 AND NOT m) OR ((a4 - push_bit 26 1) AND m))"
    unfolding finish_reduce_def h Let_def prod.case a0_def [symmetric] a1_def [symmetric] a2_def [symmetric]
      a3_def [symmetric] a4_def [symmetric] m_def [symmetric] ..
  have step: "unat (y + drop_bit 26 x) = unat y + unat x div 2 ^ 26 \<and> unat (y + drop_bit 26 x) \<le> 2 ^ 26"
    if "unat x < 2 ^ 26 + 5" "unat y < 2 ^ 26" for x y :: u32
  proof -
    have "unat x div 2 ^ 26 < 2" using that by (simp add: div_less_iff_less_mult)
    with that show ?thesis by (simp add: unat_add_drop)
  qed
  have 0: "unat a0 = unat h0 + 5" using i(1) by (simp add: a0_def unat_add_small)
  have 1: "unat a1 = unat h1 + unat a0 div 2 ^ 26" "unat a1 \<le> 2 ^ 26"
    using step [of a0 h1] i 0 by (simp_all add: a1_def)
  have 2: "unat a2 = unat h2 + unat a1 div 2 ^ 26" "unat a2 \<le> 2 ^ 26"
    using step [of a1 h2] i 1 by (simp_all add: a2_def)
  have 3: "unat a3 = unat h3 + unat a2 div 2 ^ 26" "unat a3 \<le> 2 ^ 26"
    using step [of a2 h3] i 2 by (simp_all add: a3_def)
  have 4: "unat a4 = unat h4 + unat a3 div 2 ^ 26" "unat a4 \<le> 2 ^ 26"
    using step [of a3 h4] i 3 by (simp_all add: a4_def)
  have V: "unat a0 mod 2 ^ 26 + 2 ^ 26 * (unat a1 mod 2 ^ 26) + 2 ^ 52 * (unat a2 mod 2 ^ 26) +
      2 ^ 78 * (unat a3 mod 2 ^ 26) + 2 ^ 104 * unat a4 = limbs_val h + 5"
    unfolding h limbs_val_def prod.case by (rule add5_arith [OF 0 1(1) 2(1) 3(1) 4(1)])
  have less: "limbs_val h < 2 ^ 130" using i by (simp add: h limbs_val_def)
  have "limbs_val (finish_reduce h) = limbs_val h mod p1305 \<and> limbs_le (2 ^ 26 - 1) (finish_reduce h)"
  proof (cases "unat a4 = 2 ^ 26")
    case True
    then have m: "m = - 1" unfolding m_def top_bit_mask [OF 4(2)] by simp
    have "a4 = push_bit 26 1" using True by (intro unat_inj) simp
    then have r': "finish_reduce h = (a0 AND 0x3ffffff, a1 AND 0x3ffffff, a2 AND 0x3ffffff, a3 AND 0x3ffffff, 0)"
      unfolding r m by simp
    have "limbs_val (finish_reduce h) + p1305 = limbs_val h"
      unfolding r' using V True by (simp add: limbs_val_def unat_and_26 p1305_def)
    moreover have "limbs_val (finish_reduce h) < p1305"
      using calculation less by (simp add: p1305_def)
    ultimately have "limbs_val (finish_reduce h) = limbs_val h mod p1305" by (metis mod_add_self2 mod_less)
    moreover have "limbs_le (2 ^ 26 - 1) (finish_reduce h)"
      unfolding r' limbs_le.simps unat_and_26 by (intro conjI mod_26_le) simp
    ultimately show ?thesis by blast
  next
    case False
    then have m: "m = 0" unfolding m_def top_bit_mask [OF 4(2)] by simp
    have r': "finish_reduce h = h" unfolding r m by (simp add: h)
    have "unat a4 + 1 \<le> 2 ^ 26" using False 4(2) by simp
    then have "limbs_val h < p1305"
      using V mod_26_le [of "unat a0"] mod_26_le [of "unat a1"] mod_26_le [of "unat a2"] mod_26_le [of "unat a3"]
      by (simp add: p1305_def)
    with assms show ?thesis by (simp add: r')
  qed
  then show "limbs_val (finish_reduce h) = limbs_val h mod p1305" "limbs_le (2 ^ 26 - 1) (finish_reduce h)"
    by simp_all
qed


lemma le_of_nat_eqI: "nat_of_le bs = x mod 256 ^ length bs \<Longrightarrow> bs = le_of_nat (length bs) x"
  using be_of_nat_of_be [of "rev bs"] be_of_nat_mod [of "length bs" "length bs" x]
  by (simp add: le_of_nat_def nat_of_le_def rev_swap)

lemma unat_or_push_32:
  fixes a b :: u32
  assumes "unat a < 2 ^ n" "n \<le> 32"
  shows "unat (a OR push_bit n b) = unat a + 2 ^ n * (unat b mod 2 ^ (32 - n))"
proof -
  have "(2 ^ 32 :: nat) = 2 ^ n * 2 ^ (32 - n)" using assms(2) by (simp only: power_add [symmetric]) simp
  then have "2 ^ n * unat b mod 2 ^ 32 = 2 ^ n * (unat b mod 2 ^ (32 - n))" by (simp only: mult_mod_right)
  with assms show ?thesis by (simp add: unat_or_push)
qed

lemma pack_128:
  assumes "limbs_le (2 ^ 26 - 1) (h0, h1, h2, h3, h4)"
  shows "unat (h0 OR push_bit 26 h1) + 2 ^ 32 * unat (drop_bit 6 h1 OR push_bit 20 h2) +
     2 ^ 64 * unat (drop_bit 12 h2 OR push_bit 14 h3) + 2 ^ 96 * unat (drop_bit 18 h3 OR push_bit 8 h4) =
     limbs_val (h0, h1, h2, h3, h4) mod 2 ^ 128"
proof -
  have i: "unat h0 < 2 ^ 26" "unat h1 < 2 ^ 26" "unat h2 < 2 ^ 26" "unat h3 < 2 ^ 26" "unat h4 < 2 ^ 26"
    using assms by simp_all
  have w0: "unat (h0 OR push_bit 26 h1) = unat h0 + 2 ^ 26 * (unat h1 mod 2 ^ 6)"
    using i by (subst unat_or_push_32) simp_all
  have w1: "unat (drop_bit 6 h1 OR push_bit 20 h2) = unat h1 div 2 ^ 6 + 2 ^ 20 * (unat h2 mod 2 ^ 12)"
    using i by (subst unat_or_push_32) (simp_all only: unat_drop_bit_div, simp_all add: div_less_iff_less_mult)
  have w2: "unat (drop_bit 12 h2 OR push_bit 14 h3) = unat h2 div 2 ^ 12 + 2 ^ 14 * (unat h3 mod 2 ^ 18)"
    using i by (subst unat_or_push_32) (simp_all only: unat_drop_bit_div, simp_all add: div_less_iff_less_mult)
  have w3: "unat (drop_bit 18 h3 OR push_bit 8 h4) = unat h3 div 2 ^ 18 + 2 ^ 8 * (unat h4 mod 2 ^ 24)"
    using i by (subst unat_or_push_32) (simp_all only: unat_drop_bit_div, simp_all add: div_less_iff_less_mult)
  have s: "\<exists>q m. x div 2 ^ n = q \<and> x mod 2 ^ n = m \<and> x = 2 ^ n * q + m \<and> m < 2 ^ n" for x n :: nat by simp
  obtain q1 m1 where 1: "unat h1 div 2 ^ 6 = q1" "unat h1 mod 2 ^ 6 = m1" "unat h1 = 2 ^ 6 * q1 + m1" using s by blast
  obtain q2 m2 where 2: "unat h2 div 2 ^ 12 = q2" "unat h2 mod 2 ^ 12 = m2" "unat h2 = 2 ^ 12 * q2 + m2" using s by blast
  obtain q3 m3 where 3: "unat h3 div 2 ^ 18 = q3" "unat h3 mod 2 ^ 18 = m3" "unat h3 = 2 ^ 18 * q3 + m3" using s by blast
  obtain q4 m4 where 4: "unat h4 div 2 ^ 24 = q4" "unat h4 mod 2 ^ 24 = m4" "unat h4 = 2 ^ 24 * q4 + m4" "m4 < 2 ^ 24"
    using s by blast
  have "limbs_val (h0, h1, h2, h3, h4) =
      2 ^ 128 * q4 + (unat h0 + 2 ^ 26 * unat h1 + 2 ^ 52 * unat h2 + 2 ^ 78 * unat h3 + 2 ^ 104 * m4)"
    using 4(3) by (simp add: limbs_val_def)
  moreover have "unat h0 + 2 ^ 26 * unat h1 + 2 ^ 52 * unat h2 + 2 ^ 78 * unat h3 + 2 ^ 104 * m4 < 2 ^ 128"
    using i 4(4) by simp
  ultimately have "limbs_val (h0, h1, h2, h3, h4) mod 2 ^ 128 =
      unat h0 + 2 ^ 26 * unat h1 + 2 ^ 52 * unat h2 + 2 ^ 78 * unat h3 + 2 ^ 104 * m4"
    by (simp only: mod_mult_self4 mod_less)
  then show ?thesis unfolding w0 w1 w2 w3 1(1,2) 2(1,2) 3(1,2) 4(2) using 1(3) 2(3) 3(3) by simp
qed

lemma add_128_arith:
  fixes w0 w1 w2 w3 s0 s1 s2 s3 :: nat
  assumes "f0 = w0 + s0" "f1 = f0 div 2 ^ 32 + w1 + s1" "f2 = f1 div 2 ^ 32 + w2 + s2"
    "f3 = f2 div 2 ^ 32 + w3 + s3"
  shows "f0 mod 2 ^ 32 + 2 ^ 32 * (f1 mod 2 ^ 32) + 2 ^ 64 * (f2 mod 2 ^ 32) + 2 ^ 96 * (f3 mod 2 ^ 32) =
    (w0 + 2 ^ 32 * w1 + 2 ^ 64 * w2 + 2 ^ 96 * w3 + (s0 + 2 ^ 32 * s1 + 2 ^ 64 * s2 + 2 ^ 96 * s3)) mod 2 ^ 128"
proof -
  have s: "\<exists>q m. x div 2 ^ 32 = q \<and> x mod 2 ^ 32 = m \<and> x = 2 ^ 32 * q + m \<and> m < 2 ^ 32" for x :: nat by simp
  obtain q0 m0 where 0: "f0 div 2 ^ 32 = q0" "f0 mod 2 ^ 32 = m0" "f0 = 2 ^ 32 * q0 + m0" "m0 < 2 ^ 32" using s by blast
  obtain q1 m1 where 1: "f1 div 2 ^ 32 = q1" "f1 mod 2 ^ 32 = m1" "f1 = 2 ^ 32 * q1 + m1" "m1 < 2 ^ 32" using s by blast
  obtain q2 m2 where 2: "f2 div 2 ^ 32 = q2" "f2 mod 2 ^ 32 = m2" "f2 = 2 ^ 32 * q2 + m2" "m2 < 2 ^ 32" using s by blast
  obtain q3 m3 where 3: "f3 div 2 ^ 32 = q3" "f3 mod 2 ^ 32 = m3" "f3 = 2 ^ 32 * q3 + m3" "m3 < 2 ^ 32" using s by blast
  note A = assms [unfolded 0(1) 1(1) 2(1)]
  let ?m = "m0 + 2 ^ 32 * m1 + 2 ^ 64 * m2 + 2 ^ 96 * m3"
  have "w0 + 2 ^ 32 * w1 + 2 ^ 64 * w2 + 2 ^ 96 * w3 + (s0 + 2 ^ 32 * s1 + 2 ^ 64 * s2 + 2 ^ 96 * s3) =
      2 ^ 128 * q3 + ?m"
    using A 0(3) 1(3) 2(3) 3(3) by simp
  moreover have "?m < 2 ^ 128" using 0(4) 1(4) 2(4) 3(4) by simp
  ultimately show ?thesis unfolding 0(2) 1(2) 2(2) 3(2) by (simp only: mod_mult_self4 mod_less)
qed

lemma unat_cast_32: "unat (ucast (f :: u64) :: u32) = unat f mod 2 ^ 32"
  by (simp add: unsigned_ucast_eq take_bit_eq_mod)

lemma add_step:
  fixes f :: u64 and w s :: u32
  shows "unat (drop_bit 32 f + ucast w + ucast s) = unat f div 2 ^ 32 + unat w + unat s"
proof -
  have d: "unat (drop_bit 32 f) = unat f div 2 ^ 32" by (rule unat_drop_bit_div)
  have "unat f div 2 ^ 32 < 2 ^ 32" using unat_word_less(3) [of f] by (simp add: div_less_iff_less_mult)
  moreover have "unat (ucast w :: u64) = unat w" "unat (ucast s :: u64) = unat s" by (simp_all add: unat_ucast_up)
  ultimately show ?thesis
    using unat_word_less(2) [of w] unat_word_less(2) [of s] by (simp add: unat_add_small d)
qed

definition s_val :: "u32 \<times> u32 \<times> u32 \<times> u32 \<Rightarrow> nat" where
  "s_val s = (case s of (s0, s1, s2, s3) \<Rightarrow>
     unat s0 + 2 ^ 32 * unat s1 + 2 ^ 64 * unat s2 + 2 ^ 96 * unat s3)"

lemma finish_val:
  assumes "poly_inv (drv_h this)"
  shows "finish this = le_of_nat 16 (limbs_val (drv_h this) mod p1305 + s_val (drv_s this))"
proof -
  obtain h0 h1 h2 h3 h4 where h: "finish_reduce (finish_carry (drv_h this)) = (h0, h1, h2, h3, h4)"
    by (metis prod.collapse)
  obtain s0 s1 s2 s3 where s: "drv_s this = (s0, s1, s2, s3)" by (metis prod.collapse)
  note c = finish_carry_val [OF assms]
  note v = finish_reduce_val [OF c(1), unfolded c(2) h]
  define w0 w1 w2 w3 where "w0 = h0 OR push_bit 26 h1" and "w1 = drop_bit 6 h1 OR push_bit 20 h2"
    and "w2 = drop_bit 12 h2 OR push_bit 14 h3" and "w3 = drop_bit 18 h3 OR push_bit 8 h4"
  define f0 :: u64 where "f0 = ucast w0 + ucast s0"
  define f1 where "f1 = drop_bit 32 f0 + ucast w1 + ucast s1"
  define f2 where "f2 = drop_bit 32 f1 + ucast w2 + ucast s2"
  define f3 where "f3 = drop_bit 32 f2 + ucast w3 + ucast s3"
  let ?mac = "htoule32 (ucast f0) @ htoule32 (ucast f1) @ htoule32 (ucast f2) @ htoule32 (ucast f3)"
  have fin: "finish this = ?mac"
    by (simp add: finish_def h s Let_def w0_def w1_def w2_def w3_def f0_def f1_def f2_def f3_def)
  have f: "unat f0 = unat w0 + unat s0" "unat f1 = unat f0 div 2 ^ 32 + unat w1 + unat s1"
    "unat f2 = unat f1 div 2 ^ 32 + unat w2 + unat s2" "unat f3 = unat f2 div 2 ^ 32 + unat w3 + unat s3"
    subgoal using add_step [of 0 w0 s0] by (simp add: f0_def)
    unfolding f1_def f2_def f3_def add_step by simp_all
  have "nat_of_le ?mac = unat f0 mod 2 ^ 32 + 2 ^ 32 * (unat f1 mod 2 ^ 32) + 2 ^ 64 * (unat f2 mod 2 ^ 32) +
      2 ^ 96 * (unat f3 mod 2 ^ 32)"
    by (simp add: nat_of_le_append nat_of_le_htoule32 unat_cast_32)
  also have "\<dots> = (limbs_val (h0, h1, h2, h3, h4) mod 2 ^ 128 + s_val (drv_s this)) mod 2 ^ 128"
    unfolding add_128_arith [OF f] pack_128 [OF v(2), folded w0_def w1_def w2_def w3_def] s s_val_def prod.case ..
  also have "\<dots> = (limbs_val (drv_h this) mod p1305 + s_val (drv_s this)) mod 256 ^ length ?mac"
    unfolding v(1) by (simp add: mod_add_left_eq)
  finally show ?thesis using le_of_nat_eqI [of ?mac] unfolding fin by simp
qed

text \<open>
  C21. The limb arithmetic refines Poly1305 on natural numbers: from an accumulator within its bounds, \<open>poly\<close>
  leaves an accumulator within its bounds (no 32 or 64 bit sum or product wraps) whose value modulo 2^130 - 5 is
  the accumulator of RFC 8439 after the same blocks; and the tag \<open>finish\<close> writes is that value plus the second
  half of the key, modulo 2^128.
\<close>

theorem poly_refines_poly1305:
  assumes "limbs_le (2 ^ 26 - 1) (drv_r d)" "poly_inv (drv_h d)" "16 * n \<le> length data"
  shows "poly_inv (drv_h (poly d data n)) \<and>
    limbs_val (drv_h (poly d data n)) mod p1305 =
      poly1305_acc (limbs_val (drv_r d)) (limbs_val (drv_h d) mod p1305) (take (16 * n) data) \<and>
    finish (poly d data n) =
      le_of_nat 16 (poly1305_acc (limbs_val (drv_r d)) (limbs_val (drv_h d) mod p1305) (take (16 * n) data) + s_val (drv_s d))"
proof -
  have "poly_inv (drv_h (poly d data n))"
    "limbs_val (drv_h (poly d data n)) mod p1305 =
      poly1305_acc (limbs_val (drv_r d)) (limbs_val (drv_h d) mod p1305) (take (16 * n) data)"
    using poly_loop_val [OF assms refl] by (simp_all add: poly_def)
  then show ?thesis using finish_val [of "poly d data n"] by (simp add: poly_def)
qed

theorem poly_refines_poly1305_witness:
  "poly_inv (drv_h (poly (chapoly_drv_portable_create\<lparr>drv_r := (1, 2, 3, 4, 5)\<rparr>) (replicate 32 7) 2))"
  by (rule poly_refines_poly1305 [THEN conjunct1]) (simp_all add: chapoly_drv_portable_create_def)

end
