(* ===== verification/Chacha20.thy ===== *)
theory Chacha20
  imports Poly1305
begin

text \<open>
  The block function of the driver is the ChaCha20 block function of RFC 8439: the four interleaved
  quarter rounds of the code are the column and diagonal rounds of the standard.
\<close>


section \<open>ChaCha20\<close>

text \<open>The definitions of RFC 8439, sections 2.1 to 2.4, on the matrix of sixteen words.\<close>

definition qround :: "u32 \<Rightarrow> u32 \<Rightarrow> u32 \<Rightarrow> u32 \<Rightarrow> u32 \<times> u32 \<times> u32 \<times> u32" where
  "qround a b c d =
     (let a = a + b; d = word_rotl 16 (d XOR a);
          c = c + d; b = word_rotl 12 (b XOR c);
          a = a + b; d = word_rotl 8 (d XOR a);
          c = c + d; b = word_rotl 7 (b XOR c)
      in (a, b, c, d))"

definition quarter_round :: "nat \<Rightarrow> nat \<Rightarrow> nat \<Rightarrow> nat \<Rightarrow> u32 list \<Rightarrow> u32 list" where
  "quarter_round x y z w st =
     (let (a, b, c, d) = qround (st ! x) (st ! y) (st ! z) (st ! w) in st[x := a, y := b, z := c, w := d])"

definition inner_block :: "u32 list \<Rightarrow> u32 list" where
  "inner_block st =
     (quarter_round 3 4 9 14 \<circ> quarter_round 2 7 8 13 \<circ> quarter_round 1 6 11 12 \<circ> quarter_round 0 5 10 15 \<circ>
      quarter_round 3 7 11 15 \<circ> quarter_round 2 6 10 14 \<circ> quarter_round 1 5 9 13 \<circ> quarter_round 0 4 8 12) st"

definition chacha20_block :: "u32 list \<Rightarrow> chunk" where
  "chacha20_block st = concat (map htoule32 (map2 (+) ((inner_block ^^ 10) st) st))"

fun chacha20_xor :: "u32 list \<Rightarrow> chunk \<Rightarrow> chunk" where
  "chacha20_xor st data = (if data = [] then [] else
     map2 (XOR) (take 64 data) (chacha20_block st) @ chacha20_xor (st[12 := st ! 12 + 1]) (drop 64 data))"

declare chacha20_xor.simps [simp del]

lemma rotl32_word_rotl:
  assumes "0 < n" "n < 32"
  shows "rotl32 v n = word_rotl n v"
proof (rule bit_word_eqI)
  fix k assume "k < LENGTH(32)"
  then have k: "k < 32" by simp
  show "bit (rotl32 v n) k = bit (word_rotl n v) k"
  proof (cases "n \<le> k")
    case True
    then have "(k + 32 - n) mod 32 = k - n" using k by (simp add: mod_if)
    moreover have "\<not> bit v (32 - n + k)" using True assms by (auto dest: bit_imp_le_length)
    ultimately show ?thesis using assms k True by (simp add: rotl32_def bit_simps bit_word_rotl_iff)
  next
    case False
    then have "(k + 32 - n) mod 32 = 32 - n + k" using k assms by simp
    with False show ?thesis using assms k by (simp add: rotl32_def bit_simps bit_word_rotl_iff)
  qed
qed

lemma length_16:
  assumes "length x = 16"
  obtains x0 x1 x2 x3 x4 x5 x6 x7 x8 x9 xa xb xc xd xe xf
  where "x = [x0, x1, x2, x3, x4, x5, x6, x7, x8, x9, xa, xb, xc, xd, xe, xf]"
  using assms by (auto simp: length_Suc_conv numeral_eq_Suc)

lemma quarter_rounds:
  "quarter_round 0 4 8 12 [x0, x1, x2, x3, x4, x5, x6, x7, x8, x9, xa, xb, xc, xd, xe, xf] =
     (let (a, b, c, d) = qround x0 x4 x8 xc in [a, x1, x2, x3, b, x5, x6, x7, c, x9, xa, xb, d, xd, xe, xf])"
  "quarter_round 1 5 9 13 [x0, x1, x2, x3, x4, x5, x6, x7, x8, x9, xa, xb, xc, xd, xe, xf] =
     (let (a, b, c, d) = qround x1 x5 x9 xd in [x0, a, x2, x3, x4, b, x6, x7, x8, c, xa, xb, xc, d, xe, xf])"
  "quarter_round 2 6 10 14 [x0, x1, x2, x3, x4, x5, x6, x7, x8, x9, xa, xb, xc, xd, xe, xf] =
     (let (a, b, c, d) = qround x2 x6 xa xe in [x0, x1, a, x3, x4, x5, b, x7, x8, x9, c, xb, xc, xd, d, xf])"
  "quarter_round 3 7 11 15 [x0, x1, x2, x3, x4, x5, x6, x7, x8, x9, xa, xb, xc, xd, xe, xf] =
     (let (a, b, c, d) = qround x3 x7 xb xf in [x0, x1, x2, a, x4, x5, x6, b, x8, x9, xa, c, xc, xd, xe, d])"
  "quarter_round 0 5 10 15 [x0, x1, x2, x3, x4, x5, x6, x7, x8, x9, xa, xb, xc, xd, xe, xf] =
     (let (a, b, c, d) = qround x0 x5 xa xf in [a, x1, x2, x3, x4, b, x6, x7, x8, x9, c, xb, xc, xd, xe, d])"
  "quarter_round 1 6 11 12 [x0, x1, x2, x3, x4, x5, x6, x7, x8, x9, xa, xb, xc, xd, xe, xf] =
     (let (a, b, c, d) = qround x1 x6 xb xc in [x0, a, x2, x3, x4, x5, b, x7, x8, x9, xa, c, d, xd, xe, xf])"
  "quarter_round 2 7 8 13 [x0, x1, x2, x3, x4, x5, x6, x7, x8, x9, xa, xb, xc, xd, xe, xf] =
     (let (a, b, c, d) = qround x2 x7 x8 xd in [x0, x1, a, x3, x4, x5, x6, b, c, x9, xa, xb, xc, d, xe, xf])"
  "quarter_round 3 4 9 14 [x0, x1, x2, x3, x4, x5, x6, x7, x8, x9, xa, xb, xc, xd, xe, xf] =
     (let (a, b, c, d) = qround x3 x4 x9 xe in [x0, x1, x2, a, b, x5, x6, x7, x8, c, xa, xb, xc, xd, d, xf])"
  by (simp_all add: quarter_round_def split: prod.split)

lemma double_round_inner_block:
  assumes "length x = 16"
  shows "double_round x = inner_block x"
proof -
  obtain x0 x1 x2 x3 x4 x5 x6 x7 x8 x9 xa xb xc xd xe xf
    where x: "x = [x0, x1, x2, x3, x4, x5, x6, x7, x8, x9, xa, xb, xc, xd, xe, xf]"
    using assms by (rule length_16)
  have r: "rotl32 v 16 = word_rotl 16 v" "rotl32 v 12 = word_rotl 12 v" "rotl32 v 8 = word_rotl 8 v"
    "rotl32 v 7 = word_rotl 7 v" for v
    by (simp_all add: rotl32_word_rotl)
  show ?thesis
    by (simp only: x double_round_def list.case inner_block_def comp_def quarter_rounds qround_def Let_def prod.case r)
qed

lemma length_quarter_round [simp]: "length (quarter_round x y z w st) = length st"
  by (simp add: quarter_round_def split: prod.split)

lemma length_inner_block [simp]: "length (inner_block st) = length st"
  by (simp add: inner_block_def)

lemma length_inner_block_pow [simp]: "length ((inner_block ^^ n) st) = length st"
  by (induction n) simp_all

lemma double_rounds: "length m = 16 \<Longrightarrow> (double_round ^^ n) m = (inner_block ^^ n) m"
  by (induction n) (simp_all add: double_round_inner_block)

lemma length_chacha20_block [simp]: "length st = 16 \<Longrightarrow> length (chacha20_block st) = 64"
  by (simp add: chacha20_block_def length_concat comp_def sum_list_triv)

text \<open>One call of the driver XORs one block of the key stream and steps the counter.\<close>

lemma map2_xor_concat:
  assumes "4 * length ws \<le> length data"
  shows "concat (map (\<lambda>i. xor32u (drop (4 * i) data) (ws ! i)) [0..<length ws]) =
    map2 (XOR) data (concat (map htoule32 ws))"
  using assms
proof (induction ws arbitrary: data)
  case (Cons w ws)
  have "concat (map (\<lambda>i. xor32u (drop (4 * i) data) ((w # ws) ! i)) [0..<length (w # ws)]) =
      xor32u data w @ concat (map (\<lambda>i. xor32u (drop (4 * i) (drop 4 data)) (ws ! i)) [0..<length ws])"
  proof -
    have "[0..<length (w # ws)] = 0 # map Suc [0..<length ws]"
      by (simp add: map_Suc_upt upt_conv_Cons del: upt_Suc)
    then show ?thesis by (simp add: comp_def add.commute del: upt_Suc)
  qed
  also have "\<dots> = map2 (XOR) (take 4 data) (htoule32 w) @ map2 (XOR) (drop 4 data) (concat (map htoule32 ws))"
    using Cons.IH [of "drop 4 data"] Cons.prems by (simp add: xor32u_bytes del: drop_drop)
  also have "\<dots> = map2 (XOR) (take 4 data @ drop 4 data) (htoule32 w @ concat (map htoule32 ws))"
    using Cons.prems by (subst zip_append) simp_all
  finally show ?case by simp
qed simp

lemma chacha_block_xor_val:
  assumes "length (drv_m this) = 16" "64 \<le> length data"
  shows "chacha_block_xor this data =
    (this\<lparr>drv_m := (drv_m this)[12 := drv_m this ! 12 + 1]\<rparr>, map2 (XOR) data (chacha20_block (drv_m this)))"
proof -
  let ?x = "(inner_block ^^ 10) (drv_m this)"
  let ?ws = "map2 (+) ?x (drv_m this)"
  have "map (\<lambda>i. xor32u (drop (4 * i) data) (?x ! i + drv_m this ! i)) [0..<16] =
      map (\<lambda>i. xor32u (drop (4 * i) data) (?ws ! i)) [0..<length ?ws]"
    using assms by simp
  moreover have "4 * length ?ws \<le> length data" using assms by simp
  ultimately have "concat (map (\<lambda>i. xor32u (drop (4 * i) data) (?x ! i + drv_m this ! i)) [0..<16]) =
      map2 (XOR) data (chacha20_block (drv_m this))"
    by (simp only: map2_xor_concat chacha20_block_def)
  with assms(1) show ?thesis
    by (simp add: chacha_block_xor_def Let_def CHACHA_DOUBLEROUNDS_def double_rounds)
qed

text \<open>
  C22. The interleaved rounds of the code compute the ChaCha20 block function of RFC 8439: a call replaces the
  first 64 bytes of the data by their XOR with the key stream block of the current matrix and steps the block
  counter, nothing else.
\<close>

theorem chacha_block_xor_rfc8439:
  assumes "length (drv_m this) = 16" "64 \<le> length data"
  shows "chacha_block_xor this data =
    (this\<lparr>drv_m := (drv_m this)[12 := drv_m this ! 12 + 1]\<rparr>, map2 (XOR) (take 64 data) (chacha20_block (drv_m this)))"
proof -
  have "zip (take 64 data) (chacha20_block (drv_m this)) = zip data (chacha20_block (drv_m this))"
    using assms by (intro nth_equalityI) auto
  then show ?thesis by (simp only: chacha_block_xor_val [OF assms])
qed

theorem chacha_block_xor_rfc8439_witness:
  "snd (chacha_block_xor chapoly_drv_portable_create (replicate 64 1)) =
     map2 (XOR) (take 64 (replicate 64 1)) (chacha20_block (drv_m chapoly_drv_portable_create))"
  by (subst chacha_block_xor_rfc8439) (simp_all add: chapoly_drv_portable_create_def)

end
