(* ===== verification/Iv_Gen.thy ===== *)
theory Iv_Gen
  imports Prelude
begin

text \<open>
  The generators of initialisation vectors, \<open>crypto/iv/iv_gen_seq.c\<close>, \<open>iv_gen_rand.c\<close>, \<open>iv_gen_null.c\<close> and
  their selection in \<open>iv_gen.c\<close>.  The random number generators come from plugins: \<open>rng_get_bytes\<close> is a
  parameter on a state \<open>'r\<close>, and the salt of a sequential generator is the argument of its constructor
  (\<open>None\<close> if there is no strong generator or it fails).
\<close>

datatype (plugins only: code size) encryption_algorithm_t = ENCR_DES_IV64 | ENCR_DES | ENCR_3DES | ENCR_RC5 | ENCR_IDEA | ENCR_CAST
  | ENCR_BLOWFISH | ENCR_3IDEA | ENCR_DES_IV32 | ENCR_NULL | ENCR_AES_CBC | ENCR_AES_CTR
  | ENCR_AES_CCM_ICV8 | ENCR_AES_CCM_ICV12 | ENCR_AES_CCM_ICV16 | ENCR_AES_GCM_ICV8
  | ENCR_AES_GCM_ICV12 | ENCR_AES_GCM_ICV16 | ENCR_NULL_AUTH_AES_GMAC | ENCR_CAMELLIA_CBC
  | ENCR_CAMELLIA_CTR | ENCR_CAMELLIA_CCM_ICV8 | ENCR_CAMELLIA_CCM_ICV12 | ENCR_CAMELLIA_CCM_ICV16
  | ENCR_CHACHA20_POLY1305 | ENCR_UNDEFINED | ENCR_DES_ECB | ENCR_SERPENT_CBC | ENCR_TWOFISH_CBC
  | ENCR_RC2_CBC | ENCR_AES_ECB | ENCR_AES_CFB

section \<open>The sequential generator\<close>

definition SEQ_IV_INIT_STATE :: u64 where "SEQ_IV_INIT_STATE = NOT 0"
definition SEQ_IV_HIGH_MASK :: u64 where "SEQ_IV_HIGH_MASK = push_bit 63 1"

record iv_gen_seq =
  prevl :: u64
  prevh :: u64
  iv_salt :: "chunk option"

definition seq_get_iv :: "iv_gen_seq \<Rightarrow> u64 \<Rightarrow> nat \<Rightarrow> chunk option \<times> iv_gen_seq" where
  "seq_get_iv this seq n = (case iv_salt this of None \<Rightarrow> (None, this) | Some salt \<Rightarrow>
     if n < 8 then (None, this)
     else
       let low = prevl this \<noteq> SEQ_IV_INIT_STATE \<and> seq \<le> prevl this;
           seq = (if low then seq OR SEQ_IV_HIGH_MASK else seq)
       in if low \<and> prevh this \<noteq> SEQ_IV_INIT_STATE \<and> seq \<le> prevh this then (None, this)
       else if seq OR SEQ_IV_HIGH_MASK = SEQ_IV_INIT_STATE then (None, this)
       else
         let this = (if seq AND SEQ_IV_HIGH_MASK \<noteq> 0 then this\<lparr>prevh := seq\<rparr> else this\<lparr>prevl := seq\<rparr>)
         in (Some (replicate (n - 8) 0 @ memxor (htoun64 seq) salt 8), this))"

definition iv_gen_seq_create :: "chunk option \<Rightarrow> iv_gen_seq" where
  "iv_gen_seq_create rng = \<lparr>prevl = SEQ_IV_INIT_STATE, prevh = SEQ_IV_INIT_STATE, iv_salt = rng\<rparr>"

section \<open>All generators\<close>

datatype 'r iv_gen = Iv_Seq iv_gen_seq | Iv_Rand "'r option" | Iv_Null

definition rand_get_iv :: "('r \<Rightarrow> nat \<Rightarrow> chunk option \<times> 'r) \<Rightarrow> 'r option \<Rightarrow> nat \<Rightarrow> chunk option \<times> 'r option" where
  "rand_get_iv rng_get_bytes rng n = (case rng of None \<Rightarrow> (None, None)
   | Some r \<Rightarrow> (let (iv, r) = rng_get_bytes r n in (iv, Some r)))"

definition null_get_iv :: "nat \<Rightarrow> chunk option" where
  "null_get_iv n = (if n = 0 then Some [] else None)"

definition get_iv :: "('r \<Rightarrow> nat \<Rightarrow> chunk option \<times> 'r) \<Rightarrow> 'r iv_gen \<Rightarrow> u64 \<Rightarrow> nat \<Rightarrow> chunk option \<times> 'r iv_gen" where
  "get_iv rng_get_bytes this seq n = (case this of
     Iv_Seq s \<Rightarrow> (let (iv, s) = seq_get_iv s seq n in (iv, Iv_Seq s))
   | Iv_Rand r \<Rightarrow> (let (iv, r) = rand_get_iv rng_get_bytes r n in (iv, Iv_Rand r))
   | Iv_Null \<Rightarrow> (null_get_iv n, Iv_Null))"

text \<open>\<open>allocate_iv\<close> of the sequential generator allocates the buffer that \<open>get_iv\<close> fills.\<close>

definition seq_allocate_iv :: "iv_gen_seq \<Rightarrow> u64 \<Rightarrow> nat \<Rightarrow> chunk option \<times> iv_gen_seq" where
  "seq_allocate_iv this seq n = seq_get_iv this seq n"

definition iv_gen_create_for_alg :: "chunk option \<Rightarrow> 'r option \<Rightarrow> encryption_algorithm_t \<Rightarrow> 'r iv_gen option" where
  "iv_gen_create_for_alg strong weak alg =
     (if alg \<in> {ENCR_DES, ENCR_3DES, ENCR_RC5, ENCR_IDEA, ENCR_CAST, ENCR_BLOWFISH, ENCR_3IDEA, ENCR_AES_CBC,
          ENCR_CAMELLIA_CBC, ENCR_SERPENT_CBC, ENCR_TWOFISH_CBC, ENCR_RC2_CBC, ENCR_AES_CFB}
      then Some (Iv_Rand weak)
      else if alg \<in> {ENCR_AES_CTR, ENCR_AES_CCM_ICV8, ENCR_AES_CCM_ICV12, ENCR_AES_CCM_ICV16,
          ENCR_AES_GCM_ICV8, ENCR_AES_GCM_ICV12, ENCR_AES_GCM_ICV16, ENCR_CAMELLIA_CTR, ENCR_CAMELLIA_CCM_ICV8,
          ENCR_CAMELLIA_CCM_ICV12, ENCR_CAMELLIA_CCM_ICV16, ENCR_CHACHA20_POLY1305, ENCR_NULL_AUTH_AES_GMAC}
      then Some (Iv_Seq (iv_gen_seq_create strong))
      else if alg = ENCR_NULL then Some Iv_Null
      else None)"

section \<open>Uniqueness of sequential vectors\<close>

text \<open>The vectors a generator returns for a sequence of external sequence numbers.\<close>

primrec generate_ivs :: "iv_gen_seq \<Rightarrow> u64 list \<Rightarrow> nat \<Rightarrow> chunk list" where
  "generate_ivs this [] n = []"
| "generate_ivs this (s # ss) n = (case seq_get_iv this s n of
     (None, this) \<Rightarrow> generate_ivs this ss n
   | (Some iv, this) \<Rightarrow> iv # generate_ivs this ss n)"

definition iv_of :: "chunk \<Rightarrow> nat \<Rightarrow> u64 \<Rightarrow> chunk" where
  "iv_of salt n c = replicate (n - 8) 0 @ memxor (htoun64 c) salt 8"

lemma iv_of_inject:
  assumes "length salt = 8" "iv_of salt n c = iv_of salt n d"
  shows "c = d"
proof -
  have "memxor (htoun64 c) salt 8 = memxor (htoun64 d) salt 8"
    using assms(2) by (simp add: iv_of_def)
  then have "memxor (memxor (htoun64 c) salt 8) salt 8 = memxor (memxor (htoun64 d) salt 8) salt 8"
    by simp
  then have "htoun64 c = htoun64 d" using assms(1) by (simp add: memxor_memxor)
  then show ?thesis using untoh64_htoun64 [of c "[]"] untoh64_htoun64 [of d "[]"] by simp
qed

lemma high_bit_less: "seq AND SEQ_IV_HIGH_MASK = 0 \<longleftrightarrow> seq < 2 ^ 63"
proof -
  have m: "SEQ_IV_HIGH_MASK = 2 ^ 63" by (simp add: SEQ_IV_HIGH_MASK_def push_bit_eq_mult)
  have "seq AND SEQ_IV_HIGH_MASK = 0 \<longleftrightarrow> \<not> bit seq 63"
    unfolding m by (rule and_exp_eq_0_iff_not_bit)
  also have "\<dots> \<longleftrightarrow> unat seq < 2 ^ 63"
  proof -
    have "bit (unat seq) 63 = bit seq 63" by (simp add: bit_unsigned_iff)
    then have "bit seq 63 \<longleftrightarrow> odd (unat seq div 2 ^ 63)" by (simp only: bit_iff_odd [of "unat seq"])
    moreover have "unat seq div 2 ^ 63 < 2"
      using unat_word_less(3) [of seq] by (simp add: div_less_iff_less_mult)
    ultimately have "bit seq 63 \<longleftrightarrow> unat seq div 2 ^ 63 \<noteq> 0"
      by (metis One_nat_def dvd_0_right less_2_cases odd_one)
    then show ?thesis by (simp add: div_eq_0_iff)
  qed
  finally show ?thesis by (simp add: word_less_nat_alt)
qed

lemma or_high_less: "seq < 2 ^ 63 \<Longrightarrow> \<not> seq OR SEQ_IV_HIGH_MASK < 2 ^ 63"
proof -
  have "(seq OR SEQ_IV_HIGH_MASK) AND SEQ_IV_HIGH_MASK = SEQ_IV_HIGH_MASK"
    by (rule bit_word_eqI) (auto simp: bit_simps)
  moreover have "SEQ_IV_HIGH_MASK \<noteq> 0" by (simp add: SEQ_IV_HIGH_MASK_def)
  ultimately show ?thesis by (metis high_bit_less)
qed

text \<open>
  The counter that goes into a vector: above every earlier one in its half of the number space.
\<close>

lemma seq_get_iv_cases:
  assumes "iv_salt this = Some salt" "8 \<le> n" "seq < 2 ^ 63" "seq_get_iv this seq n = (r, this')"
  obtains "r = None" "this' = this"
  | "r = Some (iv_of salt n seq)" "this' = this\<lparr>prevl := seq\<rparr>"
    "prevl this = SEQ_IV_INIT_STATE \<or> prevl this < seq"
  | c where "r = Some (iv_of salt n c)" "this' = this\<lparr>prevh := c\<rparr>" "\<not> c < 2 ^ 63"
    "prevh this = SEQ_IV_INIT_STATE \<or> prevh this < c" "c \<noteq> SEQ_IV_INIT_STATE"
proof (cases "prevl this \<noteq> SEQ_IV_INIT_STATE \<and> seq \<le> prevl this")
  case True
  have h: "(seq OR SEQ_IV_HIGH_MASK) AND SEQ_IV_HIGH_MASK \<noteq> 0"
    using or_high_less [OF assms(3)] by (simp only: high_bit_less not_False_eq_True)
  show ?thesis
    using assms(4) True h or_high_less [OF assms(3)] that(1) that(3) [of "seq OR SEQ_IV_HIGH_MASK"] assms(1,2)
    by (auto simp: seq_get_iv_def Let_def iv_of_def or.assoc not_le split: if_splits)
next
  case False
  have "seq AND SEQ_IV_HIGH_MASK = 0" using assms(3) by (simp only: high_bit_less)
  then show ?thesis
    using assms(4) False that(1,2) assms(1,2)
    by (auto simp: seq_get_iv_def Let_def iv_of_def not_le split: if_splits)
qed

definition above :: "iv_gen_seq \<Rightarrow> u64 \<Rightarrow> bool" where
  "above this c \<longleftrightarrow>
     (if c < 2 ^ 63 then prevl this = SEQ_IV_INIT_STATE \<or> prevl this < c
      else prevh this = SEQ_IV_INIT_STATE \<or> prevh this < c)"

lemma above_prevl:
  "above this seq \<Longrightarrow> seq < 2 ^ 63 \<Longrightarrow> above (this\<lparr>prevl := seq\<rparr>) d \<Longrightarrow> above this d \<and> d \<noteq> seq"
  by (auto simp: above_def SEQ_IV_INIT_STATE_def split: if_splits)

lemma above_prevh:
  "above this c \<Longrightarrow> \<not> c < 2 ^ 63 \<Longrightarrow> c \<noteq> SEQ_IV_INIT_STATE \<Longrightarrow> above (this\<lparr>prevh := c\<rparr>) d \<Longrightarrow>
     above this d \<and> d \<noteq> c"
  by (auto simp: above_def split: if_splits)

lemma generate_ivs_above:
  assumes "length salt = 8" "8 \<le> n"
  shows "iv_salt this = Some salt \<Longrightarrow> \<forall>s\<in>set ss. s < 2 ^ 63 \<Longrightarrow>
    distinct (generate_ivs this ss n) \<and> (\<forall>iv\<in>set (generate_ivs this ss n). \<exists>c. iv = iv_of salt n c \<and> above this c)"
proof (induction ss arbitrary: this)
  case (Cons s ss)
  obtain r this' where g: "seq_get_iv this s n = (r, this')" by fastforce
  have s: "s < 2 ^ 63" using Cons.prems by simp
  from Cons.prems(1) assms(2) s g show ?case
  proof (cases rule: seq_get_iv_cases)
    case 1
    then show ?thesis using Cons g by simp
  next
    case 2
    have "iv_salt this' = Some salt" using 2 Cons.prems(1) by simp
    then have IH: "distinct (generate_ivs this' ss n)"
      "\<forall>iv\<in>set (generate_ivs this' ss n). \<exists>c. iv = iv_of salt n c \<and> above this' c"
      using Cons.IH [of this'] Cons.prems(2) by simp_all
    have a: "above this s" using 2 s by (simp add: above_def)
    have up: "above this c \<and> c \<noteq> s" if "above this' c" for c
      using above_prevl [OF a s, of c] that 2(2) by simp
    have "iv_of salt n s \<notin> set (generate_ivs this' ss n)"
      using IH(2) up iv_of_inject [OF assms(1)] by metis
    then show ?thesis using IH up a g 2(1) by auto
  next
    case (3 c)
    have "iv_salt this' = Some salt" using 3 Cons.prems(1) by simp
    then have IH: "distinct (generate_ivs this' ss n)"
      "\<forall>iv\<in>set (generate_ivs this' ss n). \<exists>c. iv = iv_of salt n c \<and> above this' c"
      using Cons.IH [of this'] Cons.prems(2) by simp_all
    have a: "above this c" using 3(3,4) by (simp add: above_def)
    have up: "above this d \<and> d \<noteq> c" if "above this' d" for d
      using above_prevh [OF a 3(3,5), of d] that 3(2) by simp
    have "iv_of salt n c \<notin> set (generate_ivs this' ss n)"
      using IH(2) up iv_of_inject [OF assms(1)] by metis
    then show ?thesis using IH up a g 3(1) by auto
  qed
qed simp

lemma or_high_init: "s < 2 ^ 63 - 1 \<Longrightarrow> s OR SEQ_IV_HIGH_MASK \<noteq> SEQ_IV_INIT_STATE"
proof
  assume s: "s < 2 ^ 63 - 1" and "s OR SEQ_IV_HIGH_MASK = SEQ_IV_INIT_STATE"
  then have "unat (s OR push_bit 63 1) = unat (- 1 :: u64)"
    by (simp only: SEQ_IV_HIGH_MASK_def SEQ_IV_INIT_STATE_def bit.compl_zero)
  moreover have "unat s < 2 ^ 63 - 1" using s by (simp add: word_less_nat_alt)
  moreover have "unat (s OR push_bit 63 1) = unat s + 2 ^ 63"
    using \<open>unat s < 2 ^ 63 - 1\<close> by (subst unat_or_push) simp_all
  moreover have "unat (- 1 :: u64) = 2 ^ 64 - 1" by (simp add: unsigned_minus_1_eq_mask mask_eq_exp_minus_1)
  ultimately show False by simp
qed

lemma seq_get_iv_next:
  assumes "iv_salt this = Some salt" "8 \<le> n" "s < 2 ^ 63 - 1" "prevl this = SEQ_IV_INIT_STATE \<or> prevl this < s"
  shows "seq_get_iv this s n = (Some (iv_of salt n s), this\<lparr>prevl := s\<rparr>)"
proof -
  have "s < 2 ^ 63" using assms(3) by (rule less_trans) simp
  then have "s AND SEQ_IV_HIGH_MASK = 0" by (simp only: high_bit_less)
  moreover have "s OR SEQ_IV_HIGH_MASK \<noteq> SEQ_IV_INIT_STATE" using assms(3) by (rule or_high_init)
  ultimately show ?thesis
    using assms(1,2,4) by (auto simp: seq_get_iv_def Let_def iv_of_def)
qed

lemma generate_ivs_increasing:
  assumes "length salt = 8" "8 \<le> n"
  shows "iv_salt this = Some salt \<Longrightarrow> sorted_wrt (<) ss \<Longrightarrow>
    \<forall>s\<in>set ss. s < 2 ^ 63 - 1 \<and> (prevl this = SEQ_IV_INIT_STATE \<or> prevl this < s) \<Longrightarrow>
    generate_ivs this ss n = map (iv_of salt n) ss"
proof (induction ss arbitrary: this)
  case (Cons s ss)
  have s: "s < 2 ^ 63 - 1" "prevl this = SEQ_IV_INIT_STATE \<or> prevl this < s" using Cons.prems by simp_all
  have "seq_get_iv this s n = (Some (iv_of salt n s), this\<lparr>prevl := s\<rparr>)"
    using Cons.prems(1) assms(2) s by (rule seq_get_iv_next)
  then show ?case using Cons.IH [of "this\<lparr>prevl := s\<rparr>"] Cons.prems by simp
qed simp

text \<open>
  C18. The vectors of a sequential generator are pairwise distinct, in whatever order external
  sequence numbers below 2^63 are passed and however often they are repeated; and if they are passed in
  increasing order (below 2^63 - 1) no call fails.
\<close>

theorem seq_ivs_unique:
  assumes "length salt = 8" "8 \<le> n" "\<forall>s\<in>set ss. s < 2 ^ 63"
  shows "distinct (generate_ivs (iv_gen_seq_create (Some salt)) ss n) \<and>
    (sorted_wrt (<) ss \<and> list_all (\<lambda>s. s < 2 ^ 63 - 1) ss \<longrightarrow>
       length (generate_ivs (iv_gen_seq_create (Some salt)) ss n) = length ss)"
proof -
  have salt: "iv_salt (iv_gen_seq_create (Some salt)) = Some salt"
    and init: "prevl (iv_gen_seq_create (Some salt)) = SEQ_IV_INIT_STATE"
    by (simp_all add: iv_gen_seq_create_def)
  show ?thesis
    using generate_ivs_above [OF assms(1,2) salt assms(3)] generate_ivs_increasing [OF assms(1,2) salt, of ss] init
    by (auto simp: list_all_iff)
qed

theorem seq_ivs_unique_witness:
  "distinct (generate_ivs (iv_gen_seq_create (Some (replicate 8 7))) [5, 5, 3, 9] 8) \<and>
   length (generate_ivs (iv_gen_seq_create (Some (replicate 8 7))) [1, 2, 3] 8) = 3"
proof -
  have "distinct (generate_ivs (iv_gen_seq_create (Some (replicate 8 7))) [5, 5, 3, 9] 8)"
    using seq_ivs_unique [of "replicate 8 7" 8 "[5, 5, 3, 9]"] by simp
  moreover have "length (generate_ivs (iv_gen_seq_create (Some (replicate 8 7))) [1, 2, 3] 8) = length [1, 2, 3 :: u64]"
    using seq_ivs_unique [of "replicate 8 7" 8 "[1, 2, 3]"] by simp
  ultimately show ?thesis by simp
qed

text \<open>
  Sequence numbers that have the top bit set themselves are not checked against the upper half: the same
  number gives the same vector again.
\<close>

lemma high_seqno_repeats_iv:
  assumes "8 \<le> n" "seq AND SEQ_IV_HIGH_MASK \<noteq> 0" "seq OR SEQ_IV_HIGH_MASK \<noteq> SEQ_IV_INIT_STATE"
  shows "generate_ivs (iv_gen_seq_create (Some salt)) [seq, seq] n = [iv_of salt n seq, iv_of salt n seq]"
  using assms by (simp add: seq_get_iv_def iv_gen_seq_create_def iv_of_def)

end
