(* ===== verification/Aead.thy ===== *)
theory Aead
  imports Iv_Gen
begin

text \<open>
  The interface \<open>aead_t\<close> of authenticated encryption (\<open>crypto/aead.h\<close>) and its implementation on a
  traditional crypter and signer (\<open>crypto/aead.c\<close>).

  An object is a state \<open>'a\<close> with a record of its methods.  \<open>encrypt\<close> is the variant that works in place: it
  returns the bytes it leaves in the buffer, the encrypted data followed by the ICV.  Crypters and signers come
  from plugins and are parameters: the records \<open>crypter_ops\<close> and \<open>signer_ops\<close>.
\<close>

section \<open>Interfaces\<close>

record 'a aead_ops =
  op_encrypt :: "'a \<Rightarrow> chunk \<Rightarrow> chunk \<Rightarrow> chunk \<Rightarrow> chunk option \<times> 'a"
  op_decrypt :: "'a \<Rightarrow> chunk \<Rightarrow> chunk \<Rightarrow> chunk \<Rightarrow> chunk option \<times> 'a"
  op_block_size :: "'a \<Rightarrow> nat"
  op_icv_size :: "'a \<Rightarrow> nat"
  op_iv_size :: "'a \<Rightarrow> nat"
  op_iv_gen :: "'a \<Rightarrow> (u64 \<Rightarrow> nat \<Rightarrow> chunk option \<times> 'a) option"

record 'c crypter_ops =
  crypter_encrypt :: "'c \<Rightarrow> chunk \<Rightarrow> chunk \<Rightarrow> chunk option \<times> 'c"
  crypter_decrypt :: "'c \<Rightarrow> chunk \<Rightarrow> chunk \<Rightarrow> chunk option \<times> 'c"
  crypter_block_size :: "'c \<Rightarrow> nat"
  crypter_iv_size :: "'c \<Rightarrow> nat"
  crypter_key_size :: "'c \<Rightarrow> nat"
  crypter_set_key :: "'c \<Rightarrow> chunk \<Rightarrow> bool \<times> 'c"

text \<open>
  \<open>get_signature\<close> with a \<open>NULL\<close> buffer only processes data: \<open>signer_append\<close>.  \<open>signer_sign\<close> stands for
  \<open>get_signature\<close> with a buffer and for \<open>allocate_signature\<close>.
\<close>

record 's signer_ops =
  signer_append :: "'s \<Rightarrow> chunk \<Rightarrow> bool \<times> 's"
  signer_sign :: "'s \<Rightarrow> chunk \<Rightarrow> chunk option \<times> 's"
  signer_verify :: "'s \<Rightarrow> chunk \<Rightarrow> chunk \<Rightarrow> bool \<times> 's"
  signer_block_size :: "'s \<Rightarrow> nat"
  signer_key_size :: "'s \<Rightarrow> nat"
  signer_set_key :: "'s \<Rightarrow> chunk \<Rightarrow> bool \<times> 's"

section \<open>Crypter and signer combined\<close>

record ('c, 's, 'r) trad_aead =
  crypter :: 'c
  signer :: 's
  trad_iv_gen :: "'r iv_gen"

definition aead_create :: "'c \<Rightarrow> 's \<Rightarrow> 'r iv_gen \<Rightarrow> ('c, 's, 'r) trad_aead" where
  "aead_create c s g = \<lparr>crypter = c, signer = s, trad_iv_gen = g\<rparr>"

text \<open>The associated data and the IV go into the signer first; false if one of the calls fails.\<close>

definition sign_header :: "'s signer_ops \<Rightarrow> 's \<Rightarrow> chunk \<Rightarrow> chunk \<Rightarrow> bool \<times> 's" where
  "sign_header sops s assoc iv =
     (let (ok, s) = signer_append sops s assoc in if \<not> ok then (False, s) else signer_append sops s iv)"

definition trad_encrypt :: "'c crypter_ops \<Rightarrow> 's signer_ops \<Rightarrow> ('c, 's, 'r) trad_aead \<Rightarrow> chunk \<Rightarrow> chunk \<Rightarrow> chunk \<Rightarrow>
    chunk option \<times> ('c, 's, 'r) trad_aead" where
  "trad_encrypt cops sops this plain assoc iv =
     (let (ok, s) = sign_header sops (signer this) assoc iv; this = this\<lparr>signer := s\<rparr>
      in if \<not> ok then (None, this)
         else
           let (encr, c) = crypter_encrypt cops (crypter this) plain iv; this = this\<lparr>crypter := c\<rparr>
           in case encr of None \<Rightarrow> (None, this) | Some encr \<Rightarrow>
                let (sig, s) = signer_sign sops (signer this) encr; this = this\<lparr>signer := s\<rparr>
                in case sig of None \<Rightarrow> (None, this) | Some sig \<Rightarrow> (Some (encr @ sig), this))"

text \<open>The variant that allocates its result puts the IV in front of it.\<close>

definition trad_encrypt_alloc :: "'c crypter_ops \<Rightarrow> 's signer_ops \<Rightarrow> ('c, 's, 'r) trad_aead \<Rightarrow> chunk \<Rightarrow> chunk \<Rightarrow> chunk \<Rightarrow>
    chunk option \<times> ('c, 's, 'r) trad_aead" where
  "trad_encrypt_alloc cops sops this plain assoc iv =
     (let (ok, s) = sign_header sops (signer this) assoc iv; this = this\<lparr>signer := s\<rparr>
      in if \<not> ok then (None, this)
         else
           let (encr, c) = crypter_encrypt cops (crypter this) plain iv; this = this\<lparr>crypter := c\<rparr>
           in case encr of None \<Rightarrow> (None, this) | Some encr \<Rightarrow>
                let (sig, s) = signer_sign sops (signer this) encr; this = this\<lparr>signer := s\<rparr>
                in case sig of None \<Rightarrow> (None, this) | Some sig \<Rightarrow> (Some (iv @ encr @ sig), this))"

definition trad_decrypt :: "'c crypter_ops \<Rightarrow> 's signer_ops \<Rightarrow> ('c, 's, 'r) trad_aead \<Rightarrow> chunk \<Rightarrow> chunk \<Rightarrow> chunk \<Rightarrow>
    chunk option \<times> ('c, 's, 'r) trad_aead" where
  "trad_decrypt cops sops this encrypted assoc iv =
     (let bs = crypter_block_size cops (crypter this);
          siglen = signer_block_size sops (signer this)
      in if siglen > length encrypted \<or> (length encrypted - siglen) mod bs \<noteq> 0 then (None, this)
         else
           let encr = take (length encrypted - siglen) encrypted;
               sig = drop (length encrypted - siglen) encrypted;
               (ok, s) = sign_header sops (signer this) assoc iv; this = this\<lparr>signer := s\<rparr>
           in if \<not> ok then (None, this)
              else
                let (ok, s) = signer_verify sops (signer this) encr sig; this = this\<lparr>signer := s\<rparr>
                in if \<not> ok then (None, this)
                   else let (plain, c) = crypter_decrypt cops (crypter this) encr iv in (plain, this\<lparr>crypter := c\<rparr>))"

definition trad_block_size :: "'c crypter_ops \<Rightarrow> ('c, 's, 'r) trad_aead \<Rightarrow> nat" where
  "trad_block_size cops this = crypter_block_size cops (crypter this)"

definition trad_icv_size :: "'s signer_ops \<Rightarrow> ('c, 's, 'r) trad_aead \<Rightarrow> nat" where
  "trad_icv_size sops this = signer_block_size sops (signer this)"

definition trad_iv_size :: "'c crypter_ops \<Rightarrow> ('c, 's, 'r) trad_aead \<Rightarrow> nat" where
  "trad_iv_size cops this = crypter_iv_size cops (crypter this)"

definition trad_get_iv :: "('r \<Rightarrow> nat \<Rightarrow> chunk option \<times> 'r) \<Rightarrow> ('c, 's, 'r) trad_aead \<Rightarrow> u64 \<Rightarrow> nat \<Rightarrow>
    chunk option \<times> ('c, 's, 'r) trad_aead" where
  "trad_get_iv rng this seq n = (let (iv, g) = get_iv rng (trad_iv_gen this) seq n in (iv, this\<lparr>trad_iv_gen := g\<rparr>))"

definition trad_key_size :: "'c crypter_ops \<Rightarrow> 's signer_ops \<Rightarrow> ('c, 's, 'r) trad_aead \<Rightarrow> nat" where
  "trad_key_size cops sops this = crypter_key_size cops (crypter this) + signer_key_size sops (signer this)"

definition trad_set_key :: "'c crypter_ops \<Rightarrow> 's signer_ops \<Rightarrow> ('c, 's, 'r) trad_aead \<Rightarrow> chunk \<Rightarrow>
    bool \<times> ('c, 's, 'r) trad_aead" where
  "trad_set_key cops sops this key =
     (let n = signer_key_size sops (signer this);
          sig = take n key;
          enc = take (crypter_key_size cops (crypter this)) (drop n key);
          (ok, s) = signer_set_key sops (signer this) sig; this = this\<lparr>signer := s\<rparr>
      in if \<not> ok then (False, this)
         else let (ok, c) = crypter_set_key cops (crypter this) enc in (ok, this\<lparr>crypter := c\<rparr>))"

definition trad_ops :: "'c crypter_ops \<Rightarrow> 's signer_ops \<Rightarrow> ('r \<Rightarrow> nat \<Rightarrow> chunk option \<times> 'r) \<Rightarrow> ('c, 's, 'r) trad_aead aead_ops" where
  "trad_ops cops sops rng =
     \<lparr>op_encrypt = trad_encrypt cops sops, op_decrypt = trad_decrypt cops sops,
      op_block_size = trad_block_size cops, op_icv_size = trad_icv_size sops, op_iv_size = trad_iv_size cops,
      op_iv_gen = (\<lambda>a. Some (trad_get_iv rng a))\<rparr>"

section \<open>Encrypt-then-MAC\<close>

text \<open>
  What \<open>crypters/crypter.h\<close> and \<open>signers/signer.h\<close> document.  A keyed crypter (\<open>kc\<close>) computes a function \<open>ce\<close> of
  data and IV that decryption inverts.  A keyed signer (\<open>ks\<close>) collects data until a signature is asked for; \<open>pend\<close>
  is what it has collected, \<open>mac\<close> the signature.
\<close>

definition crypter_contract :: "'c crypter_ops \<Rightarrow> ('c \<Rightarrow> bool) \<Rightarrow> (chunk \<Rightarrow> chunk \<Rightarrow> chunk) \<Rightarrow> nat \<Rightarrow> nat \<Rightarrow> bool" where
  "crypter_contract cops kc ce bs ivs \<longleftrightarrow>
     (\<forall>c. kc c \<longrightarrow> crypter_block_size cops c = bs) \<and>
     (\<forall>c p iv. kc c \<and> length iv = ivs \<and> length p mod bs = 0 \<longrightarrow>
        length (ce p iv) = length p \<and>
        (\<exists>c'. crypter_encrypt cops c p iv = (Some (ce p iv), c') \<and> kc c') \<and>
        (\<exists>c'. crypter_decrypt cops c (ce p iv) iv = (Some p, c') \<and> kc c'))"

definition signer_contract :: "'s signer_ops \<Rightarrow> ('s \<Rightarrow> bool) \<Rightarrow> ('s \<Rightarrow> chunk) \<Rightarrow> (chunk \<Rightarrow> chunk) \<Rightarrow> nat \<Rightarrow> bool" where
  "signer_contract sops ks pend mac n \<longleftrightarrow>
     (\<forall>d. length (mac d) = n) \<and>
     (\<forall>s. ks s \<longrightarrow> signer_block_size sops s = n) \<and>
     (\<forall>s d. ks s \<longrightarrow> (\<exists>s'. signer_append sops s d = (True, s') \<and> ks s' \<and> pend s' = pend s @ d)) \<and>
     (\<forall>s d. ks s \<longrightarrow> (\<exists>s'. signer_sign sops s d = (Some (mac (pend s @ d)), s') \<and> ks s' \<and> pend s' = [])) \<and>
     (\<forall>s d sig. ks s \<longrightarrow> (\<exists>s'. signer_verify sops s d sig = (sig = mac (pend s @ d), s') \<and> ks s' \<and> pend s' = []))"

definition trad_keyed :: "('c \<Rightarrow> bool) \<Rightarrow> ('s \<Rightarrow> bool) \<Rightarrow> ('s \<Rightarrow> chunk) \<Rightarrow> ('c, 's, 'r) trad_aead \<Rightarrow> bool" where
  "trad_keyed kc ks pend a \<longleftrightarrow> kc (crypter a) \<and> ks (signer a) \<and> pend (signer a) = []"

lemma signer_contractD:
  assumes "signer_contract sops ks pend mac n" "ks s"
  shows "\<exists>s'. signer_append sops s d = (True, s') \<and> ks s' \<and> pend s' = pend s @ d"
    and "\<exists>s'. signer_sign sops s d = (Some (mac (pend s @ d)), s') \<and> ks s' \<and> pend s' = []"
    and "\<exists>s'. signer_verify sops s d sig = (sig = mac (pend s @ d), s') \<and> ks s' \<and> pend s' = []"
    and "signer_block_size sops s = n" "length (mac d) = n"
  using assms unfolding signer_contract_def by simp_all

lemma crypter_contractD:
  assumes "crypter_contract cops kc ce bs ivs" "kc c"
  shows "crypter_block_size cops c = bs"
    and "length iv = ivs \<Longrightarrow> length p mod bs = 0 \<Longrightarrow> length (ce p iv) = length p"
    and "length iv = ivs \<Longrightarrow> length p mod bs = 0 \<Longrightarrow> \<exists>c'. crypter_encrypt cops c p iv = (Some (ce p iv), c') \<and> kc c'"
    and "length iv = ivs \<Longrightarrow> length p mod bs = 0 \<Longrightarrow> \<exists>c'. crypter_decrypt cops c (ce p iv) iv = (Some p, c') \<and> kc c'"
  using assms unfolding crypter_contract_def by simp_all

lemma sign_header_contract:
  assumes "signer_contract sops ks pend mac n" "ks s" "pend s = []"
  obtains s' where "sign_header sops s assoc iv = (True, s')" "ks s'" "pend s' = assoc @ iv"
proof -
  obtain s1 where 1: "signer_append sops s assoc = (True, s1)" "ks s1" "pend s1 = pend s @ assoc"
    using signer_contractD(1) [OF assms(1,2), of assoc] by blast
  obtain s2 where 2: "signer_append sops s1 iv = (True, s2)" "ks s2" "pend s2 = pend s1 @ iv"
    using signer_contractD(1) [OF assms(1) 1(2), of iv] by blast
  show ?thesis by (rule that [of s2]) (simp_all add: sign_header_def 1 2 assms(3))
qed

lemma trad_encrypt_contract:
  assumes "crypter_contract cops kc ce bs ivs" "signer_contract sops ks pend mac n" "trad_keyed kc ks pend a"
    "length iv = ivs" "length p mod bs = 0"
  shows "\<exists>a'. trad_encrypt cops sops a p assoc iv = (Some (ce p iv @ mac (assoc @ iv @ ce p iv)), a') \<and> trad_keyed kc ks pend a'"
proof -
  obtain s1 where s1: "sign_header sops (signer a) assoc iv = (True, s1)" "ks s1" "pend s1 = assoc @ iv"
    using sign_header_contract [OF assms(2), of "signer a" assoc iv] assms(3) by (auto simp: trad_keyed_def)
  obtain c1 where c1: "crypter_encrypt cops (crypter a) p iv = (Some (ce p iv), c1)" "kc c1"
    using crypter_contractD(3) [OF assms(1) _ assms(4,5)] assms(3) by (auto simp: trad_keyed_def)
  obtain s2 where s2: "signer_sign sops s1 (ce p iv) = (Some (mac (pend s1 @ ce p iv)), s2)" "ks s2" "pend s2 = []"
    using signer_contractD(2) [OF assms(2) s1(2), of "ce p iv"] by blast
  show ?thesis by (simp add: trad_encrypt_def s1 c1 s2 trad_keyed_def)
qed

lemma trad_decrypt_contract:
  assumes "crypter_contract cops kc ce bs ivs" "signer_contract sops ks pend mac n" "trad_keyed kc ks pend a"
    "length iv = ivs" "length p mod bs = 0"
  shows "\<exists>a'. trad_decrypt cops sops a (ce p iv @ mac (assoc @ iv @ ce p iv)) assoc iv = (Some p, a') \<and> trad_keyed kc ks pend a'"
proof -
  obtain s1 where s1: "sign_header sops (signer a) assoc iv = (True, s1)" "ks s1" "pend s1 = assoc @ iv"
    using sign_header_contract [OF assms(2), of "signer a" assoc iv] assms(3) by (auto simp: trad_keyed_def)
  obtain c1 where c1: "crypter_decrypt cops (crypter a) (ce p iv) iv = (Some p, c1)" "kc c1" "length (ce p iv) = length p"
    using crypter_contractD(2,4) [OF assms(1) _ assms(4,5)] assms(3) by (auto simp: trad_keyed_def)
  obtain s2 where s2: "signer_verify sops s1 (ce p iv) (mac (assoc @ iv @ ce p iv)) = (True, s2)" "ks s2" "pend s2 = []"
    using signer_contractD(3) [OF assms(2) s1(2), of "ce p iv" "mac (assoc @ iv @ ce p iv)"] by (auto simp: s1(3))
  have n: "signer_block_size sops (signer a) = n" "length (mac (assoc @ iv @ ce p iv)) = n"
      "crypter_block_size cops (crypter a) = bs"
    using assms(3) signer_contractD(4,5) [OF assms(2)] crypter_contractD(1) [OF assms(1)] by (auto simp: trad_keyed_def)
  show ?thesis by (simp add: trad_decrypt_def s1 c1 s2 n assms(5) trad_keyed_def)
qed

lemma trad_decrypt_rejects:
  assumes "signer_contract sops ks pend mac n" "trad_keyed kc ks pend a"
    "n \<le> length x" "drop (length x - n) x \<noteq> mac (assoc @ iv @ take (length x - n) x)"
  shows "fst (trad_decrypt cops sops a x assoc iv) = None \<and> crypter (snd (trad_decrypt cops sops a x assoc iv)) = crypter a"
proof -
  obtain s1 where s1: "sign_header sops (signer a) assoc iv = (True, s1)" "ks s1" "pend s1 = assoc @ iv"
    using sign_header_contract [OF assms(1), of "signer a" assoc iv] assms(2) by (auto simp: trad_keyed_def)
  obtain s2 where s2: "signer_verify sops s1 (take (length x - n) x) (drop (length x - n) x) = (False, s2)"
    using signer_contractD(3) [OF assms(1) s1(2), of "take (length x - n) x" "drop (length x - n) x"] assms(4)
    by (auto simp: s1(3))
  have n: "signer_block_size sops (signer a) = n"
    using assms(2) signer_contractD(4) [OF assms(1)] by (simp add: trad_keyed_def)
  show ?thesis by (simp add: trad_decrypt_def s1 s2 n Let_def)
qed


definition example_crypter :: "unit crypter_ops" where
  "example_crypter = \<lparr>crypter_encrypt = \<lambda>c p iv. (Some (rev p), c), crypter_decrypt = \<lambda>c p iv. (Some (rev p), c),
     crypter_block_size = \<lambda>_. 1, crypter_iv_size = \<lambda>_. 2, crypter_key_size = \<lambda>_. 0, crypter_set_key = \<lambda>c _. (True, c)\<rparr>"

definition example_signer :: "chunk signer_ops" where
  "example_signer = \<lparr>signer_append = \<lambda>s d. (True, s @ d), signer_sign = \<lambda>s d. (Some [sum_list (s @ d)], []),
     signer_verify = \<lambda>s d sig. (sig = [sum_list (s @ d)], []), signer_block_size = \<lambda>_. 1, signer_key_size = \<lambda>_. 0,
     signer_set_key = \<lambda>s _. (True, s)\<rparr>"


text \<open>
  The allocating variant returns the IV in front of what the variant in place leaves in the buffer, so that its
  result is not what \<open>decrypt\<close> takes.
\<close>

lemma trad_encrypt_alloc_prepends_iv:
  "trad_encrypt_alloc cops sops a p assoc iv =
     (let (r, a') = trad_encrypt cops sops a p assoc iv in (map_option (\<lambda>c. iv @ c) r, a'))"
  by (simp add: trad_encrypt_alloc_def trad_encrypt_def Let_def split: prod.splits option.splits)

text \<open>
  When the crypter fails the signer keeps the data it was given: the next signature covers it too.
\<close>

lemma trad_encrypt_failure_keeps_pending:
  assumes "sign_header sops (signer a) assoc iv = (True, s')" "crypter_encrypt cops (crypter a) p iv = (None, c')"
  shows "trad_encrypt cops sops a p assoc iv = (None, a\<lparr>signer := s', crypter := c'\<rparr>)"
  using assms by (simp add: trad_encrypt_def)

section \<open>The contract of an AEAD\<close>

text \<open>
  What the packet layer relies on.  \<open>keyed a k\<close>: the object has the key \<open>k\<close>; it then encrypts with the function
  \<open>enc k\<close> of plain text, associated data and IV, and decrypts exactly what that function returns.  \<open>can_iv a n\<close>: it
  can still generate vectors for all sequence numbers above \<open>n\<close>.  The block size is 1 or, like the IV size, a
  multiple of 4.
\<close>

locale aead_spec =
  fixes ops :: "'a aead_ops" and gen :: "'a \<Rightarrow> u64 \<Rightarrow> nat \<Rightarrow> chunk option \<times> 'a"
    and keyed :: "'a \<Rightarrow> 'k \<Rightarrow> bool" and can_iv :: "'a \<Rightarrow> nat \<Rightarrow> bool"
    and enc :: "'k \<Rightarrow> chunk \<Rightarrow> chunk \<Rightarrow> chunk \<Rightarrow> chunk" and bs icvs ivs maxlen :: nat
  assumes sizes: "keyed a k \<Longrightarrow> op_block_size ops a = bs \<and> op_icv_size ops a = icvs \<and> op_iv_size ops a = ivs"
    and iv_gen: "keyed a k \<Longrightarrow> op_iv_gen ops a = Some (gen a)"
    and bs_bounds: "0 < bs" "bs \<le> 128"
    and align: "bs = 1 \<or> 4 dvd bs \<and> 4 dvd ivs"
    and small: "ivs < 2 ^ 16" "icvs < 2 ^ 16" "2 ^ 18 \<le> maxlen" "maxlen \<le> 2 ^ 32"
    and length_enc: "length (enc k p assoc iv) = length p + icvs"
    and gen_ok: "keyed a k \<Longrightarrow> can_iv a n \<Longrightarrow> n < unat seq \<Longrightarrow> unat seq < 2 ^ 32 \<Longrightarrow>
      \<exists>iv a'. gen a seq ivs = (Some iv, a') \<and> length iv = ivs \<and> keyed a' k \<and> can_iv a' (unat seq)"
    and encrypt_ok: "keyed a k \<Longrightarrow> can_iv a n \<Longrightarrow> length iv = ivs \<Longrightarrow> length p mod bs = 0 \<Longrightarrow> length p < maxlen \<Longrightarrow>
      length assoc < maxlen \<Longrightarrow> \<exists>a'. op_encrypt ops a p assoc iv = (Some (enc k p assoc iv), a') \<and> keyed a' k \<and> can_iv a' n"
    and decrypt_ok: "keyed a k \<Longrightarrow> length iv = ivs \<Longrightarrow> length c < maxlen \<Longrightarrow> length assoc < maxlen \<Longrightarrow>
      \<exists>r a'. op_decrypt ops a c assoc iv = (r, a') \<and> keyed a' k \<and> (\<forall>p. r = Some p \<longleftrightarrow> c = enc k p assoc iv)"

end
