(* ===== verification/Chapoly_Aead.thy ===== *)
theory Chapoly_Aead
  imports Chacha20 Aead
begin

text \<open>
  The ChaCha20-Poly1305 AEAD, \<open>plugins/chapoly/chapoly_aead.c\<close>, on the portable driver (the driver
  \<open>chapoly_drv_probe\<close> selects on every target without SSSE3).  It computes the AEAD construction of RFC 8439
  and decryption inverts encryption.

  \<open>u_int\<close> variables and the products of \<open>u_int\<close> values are 32 bit, \<open>size_t\<close> is 64 bit.
\<close>

section \<open>The AEAD\<close>

definition CHACHA_IV_SIZE :: nat where "CHACHA_IV_SIZE = 8"
definition CHACHA_SALT_SIZE :: nat where "CHACHA_SALT_SIZE = 4"
definition CHACHA_KEY_SIZE :: nat where "CHACHA_KEY_SIZE = 32"
definition POLY_ICV_SIZE :: nat where "POLY_ICV_SIZE = 16"
definition P_MAX :: nat where "P_MAX = 247877906880"

record chapoly_aead =
  iv_gen :: iv_gen_seq
  drv :: chapoly_drv

definition u_int :: "nat \<Rightarrow> nat" where
  "u_int n = n mod 2 ^ 32"

definition poly_update_padded :: "chapoly_drv \<Rightarrow> chunk \<Rightarrow> nat \<Rightarrow> chapoly_drv" where
  "poly_update_padded d inp len = poly d (take len inp @ replicate (POLY_BLOCK_SIZE - len) 0) 1"

definition poly_head :: "chapoly_drv \<Rightarrow> chunk \<Rightarrow> chapoly_drv" where
  "poly_head d assoc =
     (let blocks = u_int (length assoc div POLY_BLOCK_SIZE);
          rem = length assoc mod POLY_BLOCK_SIZE;
          d = poly d assoc blocks
      in if rem \<noteq> 0 then poly_update_padded d (drop (u_int (blocks * POLY_BLOCK_SIZE)) assoc) rem else d)"

definition poly_tail :: "chapoly_drv \<Rightarrow> nat \<Rightarrow> nat \<Rightarrow> chapoly_drv" where
  "poly_tail d alen clen = poly d (htole64_bytes (of_nat alen) @ htole64_bytes (of_nat clen)) 1"

text \<open>The last, partial ChaCha20 block is authenticated in Poly1305 blocks.\<close>

definition poly_rest :: "chapoly_drv \<Rightarrow> chunk \<Rightarrow> nat \<Rightarrow> chapoly_drv" where
  "poly_rest d data rem =
     (let blocks = rem div POLY_BLOCK_SIZE;
          d = poly d data blocks;
          prem = rem mod POLY_BLOCK_SIZE
      in if prem \<noteq> 0 then poly_update_padded d (drop (blocks * POLY_BLOCK_SIZE) data) prem else d)"

text \<open>Both return the driver, the data in place, and the ICV.\<close>

definition do_encrypt :: "chapoly_drv \<Rightarrow> chunk \<Rightarrow> chunk \<Rightarrow> chunk \<Rightarrow> chapoly_drv \<times> chunk \<times> chunk" where
  "do_encrypt d data iv assoc =
     (let len = length data;
          d = poly_head (drv_init d iv) assoc;
          blocks = u_int (len div CHACHA_BLOCK_SIZE);
          (d, data) = drv_encrypt d data blocks;
          rem = len mod CHACHA_BLOCK_SIZE;
          (d, data) =
            (if rem \<noteq> 0 then
               let off = u_int (blocks * CHACHA_BLOCK_SIZE);
                   (d, stream) = chacha d;
                   rest = memxor (drop off data) stream rem
               in (poly_rest d rest rem, take off data @ rest)
             else (d, data));
          d = poly_tail d (length assoc) len
      in (d, data, finish d))"

definition do_decrypt :: "chapoly_drv \<Rightarrow> chunk \<Rightarrow> chunk \<Rightarrow> chunk \<Rightarrow> chapoly_drv \<times> chunk \<times> chunk" where
  "do_decrypt d data iv assoc =
     (let len = length data;
          d = poly_head (drv_init d iv) assoc;
          blocks = u_int (len div CHACHA_BLOCK_SIZE);
          (d, data) = drv_decrypt d data blocks;
          rem = len mod CHACHA_BLOCK_SIZE;
          (d, data) =
            (if rem \<noteq> 0 then
               let off = u_int (blocks * CHACHA_BLOCK_SIZE);
                   d = poly_rest d (drop off data) rem;
                   (d, stream) = chacha d
               in (d, take off data @ memxor (drop off data) stream rem)
             else (d, data));
          d = poly_tail d (length assoc) len
      in (d, data, finish d))"

text \<open>
  The result of \<open>chapoly_encrypt\<close> is what is written at the output, the encrypted data and the ICV; that of
  \<open>chapoly_decrypt\<close> is the plain text if the ICV is right.
\<close>

definition chapoly_encrypt :: "chapoly_aead \<Rightarrow> chunk \<Rightarrow> chunk \<Rightarrow> chunk \<Rightarrow> chunk option \<times> chapoly_aead" where
  "chapoly_encrypt this plain assoc iv =
     (if length plain > P_MAX then (None, this)
      else if length iv \<noteq> CHACHA_IV_SIZE then (None, this)
      else let (d, out, icv) = do_encrypt (drv this) plain iv assoc
           in (Some (out @ icv), this\<lparr>drv := d\<rparr>))"

definition chapoly_decrypt :: "chapoly_aead \<Rightarrow> chunk \<Rightarrow> chunk \<Rightarrow> chunk \<Rightarrow> chunk option \<times> chapoly_aead" where
  "chapoly_decrypt this encr assoc iv =
     (if length iv \<noteq> CHACHA_IV_SIZE \<or> length encr < POLY_ICV_SIZE then (None, this)
      else
        let len = length encr - POLY_ICV_SIZE
        in if len > P_MAX then (None, this)
        else let (d, out, icv) = do_decrypt (drv this) (take len encr) iv assoc;
                 valid = memeq icv (drop len encr) POLY_ICV_SIZE
             in (if valid then Some out else None, this\<lparr>drv := d\<rparr>))"

definition chapoly_block_size :: "chapoly_aead \<Rightarrow> nat" where "chapoly_block_size this = 1"
definition chapoly_icv_size :: "chapoly_aead \<Rightarrow> nat" where "chapoly_icv_size this = POLY_ICV_SIZE"
definition chapoly_iv_size :: "chapoly_aead \<Rightarrow> nat" where "chapoly_iv_size this = CHACHA_IV_SIZE"

definition chapoly_get_iv :: "chapoly_aead \<Rightarrow> u64 \<Rightarrow> nat \<Rightarrow> chunk option \<times> chapoly_aead" where
  "chapoly_get_iv this seq n = (let (iv, g) = seq_get_iv (iv_gen this) seq n in (iv, this\<lparr>iv_gen := g\<rparr>))"

definition chapoly_key_size :: "chapoly_aead \<Rightarrow> nat" where
  "chapoly_key_size this = CHACHA_KEY_SIZE + CHACHA_SALT_SIZE"

text \<open>The string \<open>"expand 32-byte k"\<close>.\<close>

definition chacha_constant :: chunk where
  "chacha_constant = [0x65, 0x78, 0x70, 0x61, 0x6e, 0x64, 0x20, 0x33, 0x32, 0x2d, 0x62, 0x79, 0x74, 0x65, 0x20, 0x6b]"

definition chapoly_set_key :: "chapoly_aead \<Rightarrow> chunk \<Rightarrow> bool \<times> chapoly_aead" where
  "chapoly_set_key this key =
     (if length key \<noteq> CHACHA_KEY_SIZE + CHACHA_SALT_SIZE then (False, this)
      else (True, this\<lparr>drv := set_key (drv this) chacha_constant key (drop CHACHA_KEY_SIZE key)\<rparr>))"

definition chapoly_aead_create :: "chunk option \<Rightarrow> encryption_algorithm_t \<Rightarrow> nat \<Rightarrow> nat \<Rightarrow> chapoly_aead option" where
  "chapoly_aead_create rng algo key_size salt_size =
     (if algo \<noteq> ENCR_CHACHA20_POLY1305 then None
      else if key_size \<noteq> 0 \<and> key_size \<noteq> CHACHA_KEY_SIZE then None
      else if salt_size \<noteq> 0 \<and> salt_size \<noteq> CHACHA_SALT_SIZE then None
      else Some \<lparr>iv_gen = iv_gen_seq_create rng, drv = chapoly_drv_portable_create\<rparr>)"

section \<open>The construction of RFC 8439\<close>

definition pad16 :: "chunk \<Rightarrow> chunk" where
  "pad16 x = x @ replicate (pad_len (length x) 16) 0"

definition chacha20_state :: "chunk \<Rightarrow> chunk \<Rightarrow> u32 \<Rightarrow> u32 list" where
  "chacha20_state key nonce counter =
     map (\<lambda>i. uletoh32 (drop (4 * i) chacha_constant)) [0..<4] @ map (\<lambda>i. uletoh32 (drop (4 * i) key)) [0..<8] @
     counter # map (\<lambda>i. uletoh32 (drop (4 * i) nonce)) [0..<3]"

definition rfc_tag :: "chunk \<Rightarrow> chunk \<Rightarrow> chunk \<Rightarrow> chunk \<Rightarrow> chunk" where
  "rfc_tag key nonce aad ct = poly1305 (take 32 (chacha20_block (chacha20_state key nonce 0)))
     (pad16 aad @ pad16 ct @ le_of_nat 8 (length aad) @ le_of_nat 8 (length ct))"

definition rfc_encrypt :: "chunk \<Rightarrow> chunk \<Rightarrow> chunk \<Rightarrow> chunk \<Rightarrow> chunk" where
  "rfc_encrypt key nonce aad plain =
     (let ct = chacha20_xor (chacha20_state key nonce 1) plain in ct @ rfc_tag key nonce aad ct)"

section \<open>What the driver has authenticated\<close>

text \<open>The accumulator of the driver stands for the Poly1305 state after a message of whole blocks.\<close>

definition absorbed :: "chapoly_drv \<Rightarrow> chunk \<Rightarrow> bool" where
  "absorbed d msg \<longleftrightarrow> limbs_le (2 ^ 26 - 1) (drv_r d) \<and> poly_inv (drv_h d) \<and> 16 dvd length msg \<and>
     limbs_val (drv_h d) mod p1305 = poly1305_acc (limbs_val (drv_r d)) 0 msg"

definition tag_key :: "chapoly_drv \<Rightarrow> chunk \<Rightarrow> bool" where
  "tag_key d key \<longleftrightarrow> limbs_val (drv_r d) = clamp (nat_of_le (take 16 key)) \<and> s_val (drv_s d) = nat_of_le (take 16 (drop 16 key))"

lemma poly_absorbs: "absorbed d msg \<Longrightarrow> 16 * n \<le> length data \<Longrightarrow> absorbed (poly d data n) (msg @ take (16 * n) data)"
  using poly_loop_val [of "drv_r d" "drv_h d" n data]
  by (simp add: absorbed_def poly_def poly1305_acc_append)

lemma poly_keeps [simp]: "drv_m (poly d data n) = drv_m d" "tag_key (poly d data n) key = tag_key d key"
  by (simp_all add: poly_def tag_key_def)

lemma finish_absorbed: "absorbed d msg \<Longrightarrow> tag_key d key \<Longrightarrow> finish d = poly1305 key msg"
  by (simp add: absorbed_def tag_key_def finish_val poly1305_def)

lemma poly_update_padded_absorbs:
  assumes "absorbed d msg" "len \<le> 16" "len \<le> length data"
  shows "absorbed (poly_update_padded d data len) (msg @ take len data @ replicate (16 - len) 0)"
  using poly_absorbs [OF assms(1), of 1 "take len data @ replicate (16 - len) 0"] assms(2,3)
  by (simp add: poly_update_padded_def POLY_BLOCK_SIZE_def)

lemma poly_update_padded_keeps [simp]:
  "drv_m (poly_update_padded d data n) = drv_m d" "tag_key (poly_update_padded d data n) key = tag_key d key"
  by (simp_all add: poly_update_padded_def)

text \<open>Whole blocks, then the rest with padding, authenticate the padded data.\<close>

lemma poly_rest_absorbs:
  assumes "absorbed d msg" "rem \<le> length data"
  shows "absorbed (poly_rest d data rem) (msg @ pad16 (take rem data))"
proof -
  let ?b = "rem div 16"
  have b: "16 * ?b \<le> rem" by simp
  have a: "absorbed (poly d data ?b) (msg @ take (16 * ?b) data)"
    using poly_absorbs [OF assms(1), of ?b data] b assms(2) by simp
  show ?thesis
  proof (cases "rem mod 16 = 0")
    case True
    then have "16 * ?b = rem" by auto
    with a True show ?thesis
      using assms(2) by (simp add: poly_rest_def POLY_BLOCK_SIZE_def pad16_def pad_len_def min_absorb2)
  next
    case False
    have s: "rem = 16 * ?b + rem mod 16" by simp
    have "take rem data = take (16 * ?b) data @ take (rem mod 16) (drop (16 * ?b) data)"
      by (subst s) (rule take_add)
    moreover have "rem mod 16 \<le> length (drop (16 * ?b) data)" using s assms(2) by (simp only: length_drop)
    ultimately show ?thesis
      using poly_update_padded_absorbs [OF a, of "rem mod 16" "drop (16 * ?b) data"] False assms(2)
      by (simp add: poly_rest_def POLY_BLOCK_SIZE_def pad16_def pad_len_def Let_def min_absorb2 mult.commute)
  qed
qed

lemma poly_rest_keeps [simp]:
  "drv_m (poly_rest d data n) = drv_m d" "tag_key (poly_rest d data n) key = tag_key d key"
  by (simp_all add: poly_rest_def Let_def)

lemma poly_head_rest: "length assoc < 2 ^ 32 \<Longrightarrow> poly_head d assoc = poly_rest d assoc (length assoc)"
proof -
  assume *: "length assoc < 2 ^ 32"
  have "length assoc div 16 \<le> length assoc" "16 * (length assoc div 16) \<le> length assoc" by simp_all
  with * have "u_int (length assoc div 16) = length assoc div 16" "u_int (length assoc div 16 * 16) = length assoc div 16 * 16"
    by (simp_all add: u_int_def)
  then show ?thesis by (simp add: poly_head_def poly_rest_def POLY_BLOCK_SIZE_def Let_def)
qed

lemma poly_tail_absorbs:
  "absorbed d msg \<Longrightarrow> absorbed (poly_tail d alen clen) (msg @ le_of_nat 8 alen @ le_of_nat 8 clen)"
proof -
  have b: "htole64_bytes (of_nat n) = le_of_nat 8 n" for n
    using be_of_nat_mod [of 8 8 n] by (simp add: htole64_bytes_def le_of_nat_def unat_of_nat)
  assume "absorbed d msg"
  from poly_absorbs [OF this, of 1 "le_of_nat 8 alen @ le_of_nat 8 clen"] show ?thesis
    by (simp add: poly_tail_def b) (simp add: le_of_nat_def)
qed

lemma poly_tail_keeps [simp]: "tag_key (poly_tail d alen clen) key = tag_key d key"
  by (simp add: poly_tail_def)

section \<open>The key stream\<close>

definition bump :: "u32 list \<Rightarrow> nat \<Rightarrow> u32 list" where
  "bump m n = m[12 := m ! 12 + of_nat n]"

lemma length_bump [simp]: "length (bump m n) = length m"
  by (simp add: bump_def)

lemma bump_0 [simp]: "bump m 0 = m"
  by (simp add: bump_def)

lemma bump_bump [simp]: "length m = 16 \<Longrightarrow> bump (bump m i) j = bump m (i + j)"
  by (simp add: bump_def add.assoc)

lemma bump_1: "m[12 := m ! 12 + 1] = bump m 1"
  by (simp add: bump_def)

lemma chacha20_xor_Nil [simp]: "chacha20_xor m [] = []"
  by (simp add: chacha20_xor.simps)

lemma chacha20_xor_step:
  "chacha20_xor m data = map2 (XOR) (take 64 data) (chacha20_block m) @ chacha20_xor (bump m 1) (drop 64 data)"
  by (cases "data = []") (simp_all add: chacha20_xor.simps [of m data] bump_1)

lemma chacha20_xor_block:
  "length b = 64 \<Longrightarrow> chacha20_xor m (b @ r) = map2 (XOR) b (chacha20_block m) @ chacha20_xor (bump m 1) r"
  by (simp add: chacha20_xor_step [of m "b @ r"])

lemma chacha20_xor_short: "length b \<le> 64 \<Longrightarrow> chacha20_xor m b = map2 (XOR) b (chacha20_block m)"
  by (simp add: chacha20_xor_step [of m b])

lemma length_chacha20_xor [simp]: "length m = 16 \<Longrightarrow> length (chacha20_xor m data) = length data"
proof (induction m data rule: chacha20_xor.induct)
  case (1 m data)
  then show ?case by (cases "data = []") (simp_all add: chacha20_xor_step [of m data] bump_1)
qed

lemma chacha20_xor_append:
  "length m = 16 \<Longrightarrow> length xs = 64 * n \<Longrightarrow>
     chacha20_xor m (xs @ ys) = chacha20_xor m xs @ chacha20_xor (bump m n) ys"
proof (induction n arbitrary: m xs)
  case (Suc n)
  then show ?case
    using Suc.IH [of "bump m 1" "drop 64 xs"] by (simp add: chacha20_xor_step [of m "xs @ ys"] chacha20_xor_step [of m xs])
qed simp

lemma zip_take_left: "length ys \<le> n \<Longrightarrow> zip (take n xs) ys = zip xs ys"
  by (rule nth_equalityI) auto

text \<open>Applying the key stream twice gives the data back.\<close>

lemma chacha20_xor_xor: "length m = 16 \<Longrightarrow> chacha20_xor m (chacha20_xor m data) = data"
proof (induction m data rule: chacha20_xor.induct)
  case (1 m data)
  show ?case
  proof (cases "data = []")
    case False
    let ?b = "map2 (XOR) (take 64 data) (chacha20_block m)" and ?r = "chacha20_xor (bump m 1) (drop 64 data)"
    have x: "chacha20_xor m data = ?b @ ?r" by (rule chacha20_xor_step)
    have xx: "map2 (XOR) ?b (chacha20_block m) = take 64 data"
      by (rule map2_xor_xor) (use "1.prems" in simp)
    show ?thesis
    proof (cases "64 \<le> length data")
      case True
      then have "length ?b = 64" using "1.prems" by simp
      then have "chacha20_xor m (?b @ ?r) = map2 (XOR) ?b (chacha20_block m) @ chacha20_xor (bump m 1) ?r"
        by (rule chacha20_xor_block)
      then show ?thesis using "1.IH" "1.prems" False x xx by (simp add: bump_1)
    next
      case short: False
      then have "?r = []" "length ?b < 64" using "1.prems" by simp_all
      then have "chacha20_xor m (?b @ ?r) = map2 (XOR) ?b (chacha20_block m)"
        by (simp only: append_Nil2 chacha20_xor_short less_imp_le)
      then show ?thesis using x xx short by simp
    qed
  qed simp
qed

section \<open>Encryption and decryption with the driver\<close>

lemma chacha_block_xor_bump:
  "length (drv_m d) = 16 \<Longrightarrow> 64 \<le> length data \<Longrightarrow>
     chacha_block_xor d data = (d\<lparr>drv_m := bump (drv_m d) 1\<rparr>, map2 (XOR) data (chacha20_block (drv_m d)))"
  by (simp add: chacha_block_xor_val bump_1)

lemma absorbed_m [simp]: "absorbed (d\<lparr>drv_m := m\<rparr>) msg = absorbed d msg" "tag_key (d\<lparr>drv_m := m\<rparr>) key = tag_key d key"
  by (simp_all add: absorbed_def tag_key_def)

lemma drv_encrypt_val:
  "length (drv_m d) = 16 \<Longrightarrow> 64 * n \<le> length data \<Longrightarrow> absorbed d msg \<Longrightarrow> tag_key d key \<Longrightarrow>
   \<exists>d'. drv_encrypt d data n = (d', chacha20_xor (drv_m d) (take (64 * n) data) @ drop (64 * n) data) \<and>
     drv_m d' = bump (drv_m d) n \<and> absorbed d' (msg @ chacha20_xor (drv_m d) (take (64 * n) data)) \<and> tag_key d' key"
proof (induction n arbitrary: d data msg)
  case (Suc n)
  let ?c = "map2 (XOR) data (chacha20_block (drv_m d))"
  have c: "?c = map2 (XOR) (take 64 data) (chacha20_block (drv_m d))" "length ?c = 64"
    using Suc.prems by (simp_all add: zip_take_left)
  define d1 where "d1 = poly (d\<lparr>drv_m := bump (drv_m d) 1\<rparr>) ?c 4"
  have a: "absorbed d1 (msg @ ?c)"
    using poly_absorbs [of "d\<lparr>drv_m := bump (drv_m d) 1\<rparr>" msg 4 ?c] Suc.prems(1-3) by (simp add: d1_def)
  have m: "drv_m d1 = bump (drv_m d) 1" "tag_key d1 key" using Suc.prems(4) by (simp_all add: d1_def)
  have l: "length (drv_m d1) = 16" "64 * n \<le> length (drop 64 data)" using Suc.prems m(1) by simp_all
  obtain d' where d': "drv_encrypt d1 (drop 64 data) n = (d', chacha20_xor (drv_m d1) (take (64 * n) (drop 64 data)) @ drop (64 * n) (drop 64 data))"
      "drv_m d' = bump (drv_m d1) n" "tag_key d' key"
      "absorbed d' ((msg @ ?c) @ chacha20_xor (drv_m d1) (take (64 * n) (drop 64 data)))"
    using Suc.IH [OF l a m(2)] by blast
  have x: "chacha20_xor (drv_m d) (take (64 * Suc n) data) = ?c @ chacha20_xor (drv_m d1) (take (64 * n) (drop 64 data))"
    using chacha20_xor_step [of "drv_m d" "take (64 * Suc n) data"] Suc.prems(2) c(1) m(1)
    by (simp add: drop_take)
  have "chacha_block_xor d data = (d\<lparr>drv_m := bump (drv_m d) 1\<rparr>, ?c)"
    using Suc.prems by (simp add: chacha_block_xor_bump)
  then have "drv_encrypt d data (Suc n) = (d', ?c @ chacha20_xor (drv_m d1) (take (64 * n) (drop 64 data)) @ drop (64 * n) (drop 64 data))"
    using d'(1) by (simp add: CHACHA_BLOCK_SIZE_def d1_def)
  then show ?case using x d'(2-4) Suc.prems(1) m(1) by (simp add: add.commute)
qed simp

lemma drv_decrypt_val:
  "length (drv_m d) = 16 \<Longrightarrow> 64 * n \<le> length data \<Longrightarrow> absorbed d msg \<Longrightarrow> tag_key d key \<Longrightarrow>
   \<exists>d'. drv_decrypt d data n = (d', chacha20_xor (drv_m d) (take (64 * n) data) @ drop (64 * n) data) \<and>
     drv_m d' = bump (drv_m d) n \<and> absorbed d' (msg @ take (64 * n) data) \<and> tag_key d' key"
proof (induction n arbitrary: d data msg)
  case (Suc n)
  let ?c = "map2 (XOR) data (chacha20_block (drv_m d))"
  have c: "?c = map2 (XOR) (take 64 data) (chacha20_block (drv_m d))"
    using Suc.prems by (simp add: zip_take_left)
  define d1 where "d1 = (poly d data 4)\<lparr>drv_m := bump (drv_m d) 1\<rparr>"
  have a: "absorbed d1 (msg @ take 64 data)"
    using poly_absorbs [of d msg 4 data] Suc.prems(2,3) by (simp add: d1_def)
  have m: "drv_m d1 = bump (drv_m d) 1" "tag_key d1 key" using Suc.prems(4) by (simp_all add: d1_def)
  have l: "length (drv_m d1) = 16" "64 * n \<le> length (drop 64 data)" using Suc.prems m(1) by simp_all
  obtain d' where d': "drv_decrypt d1 (drop 64 data) n = (d', chacha20_xor (drv_m d1) (take (64 * n) (drop 64 data)) @ drop (64 * n) (drop 64 data))"
      "drv_m d' = bump (drv_m d1) n" "tag_key d' key"
      "absorbed d' ((msg @ take 64 data) @ take (64 * n) (drop 64 data))"
    using Suc.IH [OF l a m(2)] by blast
  have x: "chacha20_xor (drv_m d) (take (64 * Suc n) data) = ?c @ chacha20_xor (drv_m d1) (take (64 * n) (drop 64 data))"
    using chacha20_xor_step [of "drv_m d" "take (64 * Suc n) data"] Suc.prems(2) c m(1)
    by (simp add: drop_take)
  have t: "take (64 * Suc n) data = take 64 data @ take (64 * n) (drop 64 data)"
    using take_add [of 64 "64 * n" data] by simp
  have "chacha_block_xor (poly d data 4) data = (d1, ?c)"
    using Suc.prems by (simp add: chacha_block_xor_bump d1_def)
  then have "drv_decrypt d data (Suc n) = (d', ?c @ chacha20_xor (drv_m d1) (take (64 * n) (drop 64 data)) @ drop (64 * n) (drop 64 data))"
    using d'(1) by (simp add: CHACHA_BLOCK_SIZE_def)
  then show ?case using x t d'(2-4) Suc.prems(1) m(1) by (simp add: add.commute)
qed simp

lemma pad16_append: "16 dvd length xs \<Longrightarrow> pad16 (xs @ ys) = xs @ pad16 ys"
  by (auto simp: pad16_def pad_len_def elim!: dvdE)

lemma pad16_dvd: "16 dvd length xs \<Longrightarrow> pad16 xs = xs"
  by (auto simp: pad16_def pad_len_def elim!: dvdE)

lemma dvd_length_pad16: "16 dvd length (pad16 xs)"
  using dvd_add_pad_len [of 16 "length xs"] by (simp add: pad16_def)

lemma map2_xor_zeros: "length ys = n \<Longrightarrow> map2 (XOR) (replicate n 0) ys = (ys :: chunk)"
  by (induction n arbitrary: ys) (auto simp: length_Suc_conv)

lemma chacha_val:
  "length (drv_m d) = 16 \<Longrightarrow> chacha d = (d\<lparr>drv_m := bump (drv_m d) 1\<rparr>, chacha20_block (drv_m d))"
  by (simp add: chacha_def CHACHA_BLOCK_SIZE_def chacha_block_xor_bump map2_xor_zeros)

lemma memxor_short:
  assumes "length data = n" "n \<le> 64" "length m = 16"
  shows "memxor data (chacha20_block m) n = chacha20_xor m data"
proof -
  have "zip data (take n (chacha20_block m)) = zip data (chacha20_block m)"
    using zip_take_left [of data n "chacha20_block m"] assms
    by (metis order_refl take_zip take_all length_zip min.cobounded1)
  then show ?thesis using assms by (simp add: memxor_def chacha20_xor_short)
qed

section \<open>The key\<close>

definition keyed :: "chapoly_drv \<Rightarrow> chunk \<Rightarrow> bool" where
  "keyed d key \<longleftrightarrow> length key = 36 \<and> (\<exists>x y z. drv_m d =
     map (\<lambda>i. uletoh32 (drop (4 * i) chacha_constant)) [0..<4] @ map (\<lambda>i. uletoh32 (drop (4 * i) key)) [0..<8] @
     [x, uletoh32 (drop 32 key), y, z])"

definition nonce :: "chunk \<Rightarrow> chunk \<Rightarrow> chunk" where
  "nonce key iv = drop 32 key @ iv"

lemma chacha20_state_words:
  assumes "length key = 36" "length iv = 8"
  shows "chacha20_state (take 32 key) (nonce key iv) c =
    map (\<lambda>i. uletoh32 (drop (4 * i) chacha_constant)) [0..<4] @ map (\<lambda>i. uletoh32 (drop (4 * i) key)) [0..<8] @
    [c, uletoh32 (drop 32 key), uletoh32 iv, uletoh32 (drop 4 iv)]"
proof -
  let ?f = "\<lambda>key i. uletoh32 (drop (4 * i) key)"
  have k: "map (?f (take 32 key)) [0..<8] = map (?f key) [0..<8]"
    by (auto simp: uletoh32_def drop_take min_def)
  have n: "map (?f (nonce key iv)) [0..<3] = [uletoh32 (drop 32 key), uletoh32 iv, uletoh32 (drop 4 iv)]"
    using assms by (simp add: nonce_def uletoh32_def upt_rec)
  show ?thesis unfolding chacha20_state_def k n ..
qed

lemma keyed_state:
  assumes "keyed d key" "length iv = 8"
  shows "(drv_m d)[12 := c, 14 := uletoh32 iv, 15 := uletoh32 (drop 4 iv)] = chacha20_state (take 32 key) (nonce key iv) c"
  using assms by (auto simp: keyed_def chacha20_state_words list_update_append)

lemma keyed_length: "keyed d key \<Longrightarrow> length (drv_m d) = 16"
  by (auto simp: keyed_def)

lemma length_chacha20_state [simp]: "length (chacha20_state key n c) = 16"
  by (simp add: chacha20_state_def)

lemma bump_state [simp]: "bump (chacha20_state key n c) i = chacha20_state key n (c + of_nat i)"
  by (simp add: bump_def chacha20_state_def list_update_append nth_append)

lemma keyedI:
  "length key = 36 \<Longrightarrow> length iv = 8 \<Longrightarrow> drv_m d = chacha20_state (take 32 key) (nonce key iv) c \<Longrightarrow> keyed d key"
  by (auto simp: keyed_def chacha20_state_words)

lemma set_key_keyed:
  assumes "length key = 36" "length (drv_m d) = 16"
  shows "keyed (set_key d chacha_constant key (drop 32 key)) key"
proof -
  obtain x0 x1 x2 x3 x4 x5 x6 x7 x8 x9 xa xb xc xd xe xf
    where x: "drv_m d = [x0, x1, x2, x3, x4, x5, x6, x7, x8, x9, xa, xb, xc, xd, xe, xf]"
    using assms(2) by (rule length_16)
  show ?thesis using assms(1) by (simp add: keyed_def set_key_def x list_update_append)
qed

lemma unat_uletoh32_words:
  "unat (uletoh32 (drop 16 x)) + 2 ^ 32 * unat (uletoh32 (drop 20 x)) + 2 ^ 64 * unat (uletoh32 (drop 24 x)) +
     2 ^ 96 * unat (uletoh32 (drop 28 x)) = nat_of_le (take 16 (drop 16 x))" if "32 \<le> length x"
proof -
  have u: "unat (uletoh32 y) = nat_of_le (take 4 y)" for y
    using unat_uletoh32 [of 0 y] by (simp add: nat_of_le_take)
  have t: "take 16 y = take 4 y @ take 4 (drop 4 y) @ take 4 (drop 8 y) @ take 4 (drop 12 y)" for y :: chunk
    using take_add [of 4 12 y] take_add [of 4 8 "drop 4 y"] take_add [of 4 4 "drop 8 y"] by simp
  show ?thesis unfolding t u using that by (simp add: nat_of_le_append)
qed

lemma drv_init_val:
  assumes "keyed d key" "length iv = 8"
  defines "st \<equiv> chacha20_state (take 32 key) (nonce key iv)"
  shows "drv_m (drv_init d iv) = st 1" "absorbed (drv_init d iv) []"
    "tag_key (drv_init d iv) (take 32 (chacha20_block (st 0)))"
proof -
  let ?k = "chacha20_block (st 0)"
  have len: "length ?k = 64" by (simp add: st_def)
  have c: "chacha_block_xor (d\<lparr>drv_m := st 0\<rparr>) (replicate CHACHA_BLOCK_SIZE 0) = (d\<lparr>drv_m := st 1\<rparr>, ?k)"
    by (simp add: chacha_block_xor_bump CHACHA_BLOCK_SIZE_def map2_xor_zeros st_def)
  note s = keyed_state [OF assms(1,2), of 0, folded st_def]
  have i: "drv_init d iv = d\<lparr>drv_m := st 1, drv_r :=
           (uletoh32 ?k AND 0x3ffffff, drop_bit 2 (uletoh32 (drop 3 ?k)) AND 0x3ffff03,
            drop_bit 4 (uletoh32 (drop 6 ?k)) AND 0x3ffc0ff, drop_bit 6 (uletoh32 (drop 9 ?k)) AND 0x3f03fff,
            drop_bit 8 (uletoh32 (drop 12 ?k)) AND 0x00fffff), drv_h := (0, 0, 0, 0, 0),
         drv_s := (uletoh32 (drop 16 ?k), uletoh32 (drop 20 ?k), uletoh32 (drop 24 ?k), uletoh32 (drop 28 ?k))\<rparr>"
    unfolding drv_init_def Let_def s c prod.case by simp
  have r: "limbs_le (2 ^ 26 - 1) (drv_r (drv_init d iv))" "limbs_val (drv_r (drv_init d iv)) = clamp (nat_of_le (take 16 ?k))"
    using key_limbs [of ?k] len by (simp_all only: i) simp_all
  show "drv_m (drv_init d iv) = st 1" by (simp add: i)
  show "absorbed (drv_init d iv) []"
    using r by (simp add: absorbed_def) (simp add: i limbs_val_def)
  have "s_val (drv_s (drv_init d iv)) = nat_of_le (take 16 (drop 16 ?k))"
    unfolding i s_val_def using unat_uletoh32_words [of ?k] len by simp
  with r(2) show "tag_key (drv_init d iv) (take 32 ?k)" by (simp add: tag_key_def drop_take)
qed

section \<open>The AEAD computes the construction of RFC 8439\<close>

lemma u_int_blocks:
  assumes "len < 2 ^ 32"
  shows "u_int (len div CHACHA_BLOCK_SIZE) = len div 64"
    "u_int (len div 64 * CHACHA_BLOCK_SIZE) = 64 * (len div 64)"
proof -
  have "len div 64 \<le> len" "64 * (len div 64) \<le> len" by simp_all
  then show "u_int (len div CHACHA_BLOCK_SIZE) = len div 64"
    "u_int (len div 64 * CHACHA_BLOCK_SIZE) = 64 * (len div 64)"
    using assms by (simp_all add: u_int_def CHACHA_BLOCK_SIZE_def mult.commute)
qed

lemma chacha20_xor_split:
  assumes "length m = 16"
  shows "chacha20_xor m data = chacha20_xor m (take (64 * (length data div 64)) data) @
    chacha20_xor (bump m (length data div 64)) (drop (64 * (length data div 64)) data)"
  using chacha20_xor_append [OF assms, of "take (64 * (length data div 64)) data" "length data div 64"
      "drop (64 * (length data div 64)) data"] by (simp add: min_absorb2)

lemma poly_head_val:
  assumes "keyed d key" "length iv = 8" "length assoc < 2 ^ 32"
  defines "st \<equiv> chacha20_state (take 32 key) (nonce key iv)" and "d0 \<equiv> poly_head (drv_init d iv) assoc"
  shows "drv_m d0 = st 1" "absorbed d0 (pad16 assoc)" "tag_key d0 (take 32 (chacha20_block (st 0)))"
  using drv_init_val [OF assms(1,2)] poly_rest_absorbs [of "drv_init d iv" "[]" "length assoc" assoc]
  by (simp_all add: st_def d0_def poly_head_rest [OF assms(3)])

lemma poly_tail_val:
  assumes "absorbed d (pad16 assoc @ pad16 ct)"
    "tag_key d (take 32 (chacha20_block (chacha20_state key nc 0)))"
  shows "finish (poly_tail d (length assoc) (length ct)) = rfc_tag key nc assoc ct"
  using finish_absorbed [OF poly_tail_absorbs [OF assms(1)]] assms(2) by (simp add: rfc_tag_def)

text \<open>The blocks and the rest of the message.\<close>

lemma blocks_and_rest:
  fixes data :: chunk
  defines "n \<equiv> length data div 64"
  shows "64 * n \<le> length data" "length (drop (64 * n) data) = length data mod 64" "length data mod 64 \<le> 64"
    "16 dvd 64 * n"
  by (simp_all add: n_def minus_mult_div_eq_mod dvd_mult2)

lemma keyed_tail: "keyed d key \<Longrightarrow> length iv = 8 \<Longrightarrow> drv_m d' = chacha20_state (take 32 key) (nonce key iv) c \<Longrightarrow>
    keyed (poly_tail d' alen clen) key"
  using keyedI [of key iv "poly_tail d' alen clen" c] by (simp add: poly_tail_def keyed_def)

lemma encrypt_rest:
  assumes "absorbed d (msg @ c1)" "tag_key d key" "drv_m d = m" "length m = 16" "length rest < 64" "16 dvd length c1"
  shows "\<exists>d'. (if length rest \<noteq> 0 then let (d, stream) = chacha d; r = memxor rest stream (length rest)
           in (poly_rest d r (length rest), c1 @ r) else (d, c1 @ rest)) = (d', c1 @ chacha20_xor m rest) \<and>
    absorbed d' (msg @ pad16 (c1 @ chacha20_xor m rest)) \<and> tag_key d' key \<and> (drv_m d' = m \<or> drv_m d' = bump m 1)"
proof (cases "rest = []")
  case True
  then show ?thesis using assms pad16_dvd [of c1] by auto
next
  case False
  have x: "memxor rest (chacha20_block m) (length rest) = chacha20_xor m rest"
    using assms(4,5) by (simp add: memxor_short)
  have "chacha d = (d\<lparr>drv_m := bump m 1\<rparr>, chacha20_block m)" using chacha_val [of d] assms(3,4) by simp
  moreover have "absorbed (poly_rest (d\<lparr>drv_m := bump m 1\<rparr>) (chacha20_xor m rest) (length rest))
      ((msg @ c1) @ pad16 (take (length rest) (chacha20_xor m rest)))"
    by (rule poly_rest_absorbs) (use assms in simp_all)
  moreover have "pad16 (c1 @ chacha20_xor m rest) = c1 @ pad16 (chacha20_xor m rest)"
    using assms(6) by (rule pad16_append)
  ultimately show ?thesis using False assms(2,4) x by (simp add: Let_def)
qed

lemma decrypt_rest:
  assumes "absorbed d (msg @ c1)" "tag_key d key" "drv_m d = m" "length m = 16" "length rest < 64" "16 dvd length c1"
  shows "\<exists>d'. (if length rest \<noteq> 0 then let d = poly_rest d rest (length rest); (d, stream) = chacha d
           in (d, p1 @ memxor rest stream (length rest)) else (d, p1 @ rest)) = (d', p1 @ chacha20_xor m rest) \<and>
    absorbed d' (msg @ pad16 (c1 @ rest)) \<and> tag_key d' key \<and> (drv_m d' = m \<or> drv_m d' = bump m 1)"
proof (cases "rest = []")
  case True
  then show ?thesis using assms pad16_dvd [of c1] by auto
next
  case False
  have x: "memxor rest (chacha20_block m) (length rest) = chacha20_xor m rest"
    using assms(4,5) by (simp add: memxor_short)
  let ?d = "poly_rest d rest (length rest)"
  have "chacha ?d = (?d\<lparr>drv_m := bump m 1\<rparr>, chacha20_block m)" using chacha_val [of ?d] assms(3,4) by simp
  moreover have "absorbed ?d ((msg @ c1) @ pad16 (take (length rest) rest))"
    using assms(1) by (rule poly_rest_absorbs) simp
  moreover have "pad16 (c1 @ rest) = c1 @ pad16 rest" using assms(6) by (rule pad16_append)
  ultimately show ?thesis using False assms(2,4) x by (simp add: Let_def)
qed

lemma do_encrypt_val:
  assumes "keyed d key" "length iv = 8" "length data < 2 ^ 32" "length assoc < 2 ^ 32"
  defines "ct \<equiv> chacha20_xor (chacha20_state (take 32 key) (nonce key iv) 1) data"
  shows "\<exists>d'. do_encrypt d data iv assoc = (d', ct, rfc_tag (take 32 key) (nonce key iv) assoc ct) \<and> keyed d' key"
proof -
  define st where "st = chacha20_state (take 32 key) (nonce key iv)"
  define n where "n = length data div 64"
  let ?k = "take 32 (chacha20_block (st 0))"
  define d0 where "d0 = poly_head (drv_init d iv) assoc"
  note 0 = poly_head_val [OF assms(1,2,4), folded st_def d0_def]
  note r = blocks_and_rest [of data, folded n_def]
  let ?c1 = "chacha20_xor (st 1) (take (64 * n) data)" and ?m = "st (1 + of_nat n)"
  have len: "length (st c) = 16" for c by (simp add: st_def)
  have l1: "length ?c1 = 64 * n" using r(1) by (simp add: len)
  have ct: "ct = ?c1 @ chacha20_xor ?m (drop (64 * n) data)"
    using chacha20_xor_split [of "st 1" data] by (simp add: ct_def st_def n_def)
  obtain d1 where d1: "drv_encrypt d0 data n = (d1, ?c1 @ drop (64 * n) data)" "drv_m d1 = ?m"
      "absorbed d1 (pad16 assoc @ ?c1)" "tag_key d1 ?k"
    using drv_encrypt_val [OF _ r(1) 0(2,3)] 0(1) by (auto simp: st_def)
  have dvd: "16 dvd length ?c1" using r(4) by (simp only: l1)
  have short: "length (drop (64 * n) data) < 64" unfolding r(2) by simp
  from encrypt_rest [OF d1(3,4,2) len short dvd] obtain d2
    where d2: "(if length data mod 64 \<noteq> 0 then let (d, stream) = chacha d1; r = memxor (drop (64 * n) data) stream (length data mod 64)
           in (poly_rest d r (length data mod 64), ?c1 @ r) else (d1, ?c1 @ drop (64 * n) data)) = (d2, ct)"
      "absorbed d2 (pad16 assoc @ pad16 ct)" "tag_key d2 ?k" "\<exists>c. drv_m d2 = st c"
    unfolding r(2) ct [symmetric] by (auto simp: st_def simp del: length_drop)
  have un: "u_int (n * CHACHA_BLOCK_SIZE) = 64 * n" using u_int_blocks(2) [OF assms(3)] by (simp only: n_def)
  have td: "take (64 * n) (?c1 @ x) = ?c1" "drop (64 * n) (?c1 @ x) = x" for x by (simp_all add: l1)
  have "do_encrypt d data iv assoc =
      (poly_tail d2 (length assoc) (length data), ct, finish (poly_tail d2 (length assoc) (length data)))"
    unfolding do_encrypt_def Let_def u_int_blocks(1) [OF assms(3)] d0_def [symmetric] n_def [symmetric] un d1(1) prod.case td
    using d2(1) [unfolded Let_def] by (simp only: CHACHA_BLOCK_SIZE_def prod.case)
  moreover have "length ct = length data" by (simp add: ct_def)
  ultimately show ?thesis
    using poly_tail_val [OF d2(2,3) [unfolded st_def]] keyed_tail [OF assms(1,2)] d2(4) by (auto simp: st_def)
qed

lemma do_decrypt_val:
  assumes "keyed d key" "length iv = 8" "length data < 2 ^ 32" "length assoc < 2 ^ 32"
  defines "pt \<equiv> chacha20_xor (chacha20_state (take 32 key) (nonce key iv) 1) data"
  shows "\<exists>d'. do_decrypt d data iv assoc = (d', pt, rfc_tag (take 32 key) (nonce key iv) assoc data) \<and> keyed d' key"
proof -
  define st where "st = chacha20_state (take 32 key) (nonce key iv)"
  define n where "n = length data div 64"
  let ?k = "take 32 (chacha20_block (st 0))"
  define d0 where "d0 = poly_head (drv_init d iv) assoc"
  note 0 = poly_head_val [OF assms(1,2,4), folded st_def d0_def]
  note r = blocks_and_rest [of data, folded n_def]
  let ?p1 = "chacha20_xor (st 1) (take (64 * n) data)" and ?m = "st (1 + of_nat n)"
  have len: "length (st c) = 16" for c by (simp add: st_def)
  have l1: "length ?p1 = 64 * n" using r(1) by (simp add: len)
  have pt: "pt = ?p1 @ chacha20_xor ?m (drop (64 * n) data)"
    using chacha20_xor_split [of "st 1" data] by (simp add: pt_def st_def n_def)
  obtain d1 where d1: "drv_decrypt d0 data n = (d1, ?p1 @ drop (64 * n) data)" "drv_m d1 = ?m"
      "absorbed d1 (pad16 assoc @ take (64 * n) data)" "tag_key d1 ?k"
    using drv_decrypt_val [OF _ r(1) 0(2,3)] 0(1) by (auto simp: st_def)
  have dvd: "16 dvd length (take (64 * n) data)" using r(1,4) by (simp only: length_take min_absorb2)
  have short: "length (drop (64 * n) data) < 64" unfolding r(2) by simp
  from decrypt_rest [OF d1(3,4,2) len short dvd, of ?p1] obtain d2
    where d2: "(if length data mod 64 \<noteq> 0 then let d = poly_rest d1 (drop (64 * n) data) (length data mod 64); (d, stream) = chacha d
           in (d, ?p1 @ memxor (drop (64 * n) data) stream (length data mod 64)) else (d1, ?p1 @ drop (64 * n) data)) = (d2, pt)"
      "absorbed d2 (pad16 assoc @ pad16 data)" "tag_key d2 ?k" "\<exists>c. drv_m d2 = st c"
    unfolding r(2) pt [symmetric] append_take_drop_id by (auto simp: st_def simp del: length_drop)
  have un: "u_int (n * CHACHA_BLOCK_SIZE) = 64 * n" using u_int_blocks(2) [OF assms(3)] by (simp only: n_def)
  have td: "take (64 * n) (?p1 @ x) = ?p1" "drop (64 * n) (?p1 @ x) = x" for x by (simp_all add: l1)
  have "do_decrypt d data iv assoc =
      (poly_tail d2 (length assoc) (length data), pt, finish (poly_tail d2 (length assoc) (length data)))"
    unfolding do_decrypt_def Let_def u_int_blocks(1) [OF assms(3)] d0_def [symmetric] n_def [symmetric] un d1(1) prod.case td
    using d2(1) [unfolded Let_def] by (simp only: CHACHA_BLOCK_SIZE_def prod.case)
  then show ?thesis
    using poly_tail_val [OF d2(2,3) [unfolded st_def]] keyed_tail [OF assms(1,2)] d2(4) by (auto simp: st_def)
qed

lemma length_rfc_tag [simp]: "length (rfc_tag key nc aad ct) = 16"
  by (simp add: rfc_tag_def poly1305_def le_of_nat_def)

lemma length_rfc_encrypt [simp]: "length (rfc_encrypt key nc aad plain) = length plain + 16"
  by (simp add: rfc_encrypt_def Let_def)

lemma chapoly_encrypt_val:
  assumes "keyed (drv this) key" "length iv = 8" "length plain < 2 ^ 32" "length assoc < 2 ^ 32"
  shows "\<exists>d'. chapoly_encrypt this plain assoc iv =
      (Some (rfc_encrypt (take 32 key) (nonce key iv) assoc plain), this\<lparr>drv := d'\<rparr>) \<and> keyed d' key"
  using do_encrypt_val [OF assms] assms(2,3)
  by (auto simp: chapoly_encrypt_def P_MAX_def CHACHA_IV_SIZE_def rfc_encrypt_def Let_def)

lemma rfc_encrypt_iff:
  assumes "16 \<le> length encr"
  shows "encr = rfc_encrypt key nc aad plain \<longleftrightarrow>
    plain = chacha20_xor (chacha20_state key nc 1) (take (length encr - 16) encr) \<and>
    drop (length encr - 16) encr = rfc_tag key nc aad (take (length encr - 16) encr)"
proof -
  have s: "encr = take (length encr - 16) encr @ drop (length encr - 16) encr" by simp
  show ?thesis
  proof
    assume e: "encr = rfc_encrypt key nc aad plain"
    then have "length encr - 16 = length (chacha20_xor (chacha20_state key nc 1) plain)" by simp
    with e show "plain = chacha20_xor (chacha20_state key nc 1) (take (length encr - 16) encr) \<and>
      drop (length encr - 16) encr = rfc_tag key nc aad (take (length encr - 16) encr)"
      by (simp add: rfc_encrypt_def Let_def chacha20_xor_xor)
  next
    assume "plain = chacha20_xor (chacha20_state key nc 1) (take (length encr - 16) encr) \<and>
      drop (length encr - 16) encr = rfc_tag key nc aad (take (length encr - 16) encr)"
    then show "encr = rfc_encrypt key nc aad plain"
      using s by (simp add: rfc_encrypt_def Let_def chacha20_xor_xor)
  qed
qed

lemma chapoly_decrypt_val:
  assumes "keyed (drv this) key" "length iv = 8" "length encr < 2 ^ 32" "length assoc < 2 ^ 32"
  shows "\<exists>r this'. chapoly_decrypt this encr assoc iv = (r, this') \<and> keyed (drv this') key \<and>
    iv_gen this' = iv_gen this \<and> (\<forall>plain. r = Some plain \<longleftrightarrow> encr = rfc_encrypt (take 32 key) (nonce key iv) assoc plain)"
proof (cases "length encr < 16")
  case True
  then have "encr \<noteq> rfc_encrypt k n a p" for k n a p using length_rfc_encrypt [of k n a p] by auto
  with True assms(1) show ?thesis by (simp add: chapoly_decrypt_def POLY_ICV_SIZE_def)
next
  case False
  let ?len = "length encr - 16"
  have "length (take ?len encr) < 2 ^ 32" using assms(3) by simp
  from do_decrypt_val [OF assms(1,2) this assms(4)] obtain d' where
    d: "do_decrypt (drv this) (take ?len encr) iv assoc =
      (d', chacha20_xor (chacha20_state (take 32 key) (nonce key iv) 1) (take ?len encr),
       rfc_tag (take 32 key) (nonce key iv) assoc (take ?len encr))" "keyed d' key" by blast
  have "\<not> P_MAX < ?len" using assms(3) by (simp add: P_MAX_def)
  then show ?thesis
    using False d assms(2) rfc_encrypt_iff [of encr "take 32 key" "nonce key iv" assoc]
    by (auto simp: chapoly_decrypt_def POLY_ICV_SIZE_def CHACHA_IV_SIZE_def Let_def)
qed

lemma chapoly_set_key_keyed:
  assumes "chapoly_aead_create rng ENCR_CHACHA20_POLY1305 32 4 = Some a" "length key = 36"
  shows "fst (chapoly_set_key a key)" "keyed (drv (snd (chapoly_set_key a key))) key"
  using assms set_key_keyed [of key "drv a"]
  by (auto simp: chapoly_set_key_def chapoly_aead_create_def CHACHA_KEY_SIZE_def CHACHA_SALT_SIZE_def
      chapoly_drv_portable_create_def)

text \<open>An instance for examples.\<close>

definition chapoly_example :: chapoly_aead where
  "chapoly_example = snd (chapoly_set_key (the (chapoly_aead_create (Some (replicate 8 1)) ENCR_CHACHA20_POLY1305 32 4)) (replicate 36 5))"

lemma keyed_example: "keyed (drv chapoly_example) (replicate 36 5)"
proof -
  have "chapoly_aead_create (Some (replicate 8 1)) ENCR_CHACHA20_POLY1305 32 4 =
      Some (the (chapoly_aead_create (Some (replicate 8 1)) ENCR_CHACHA20_POLY1305 32 4))"
    by (simp add: chapoly_aead_create_def CHACHA_KEY_SIZE_def CHACHA_SALT_SIZE_def)
  then show ?thesis unfolding chapoly_example_def by (rule chapoly_set_key_keyed(2)) simp
qed

text \<open>
  C19. Encryption is the AEAD construction of RFC 8439: for a keyed instance, an 8 byte IV and data below
  4 GiB, the output is the ChaCha20 encryption of the plain text followed by the Poly1305 tag over the padded
  associated data, the padded cipher text and their lengths; and the instance stays keyed for the next message.
\<close>

theorem chapoly_encrypt_rfc8439:
  assumes "keyed (drv this) key" "length iv = 8" "length plain < 2 ^ 32" "length assoc < 2 ^ 32"
  shows "fst (chapoly_encrypt this plain assoc iv) = Some (rfc_encrypt (take 32 key) (drop 32 key @ iv) assoc plain) \<and>
    keyed (drv (snd (chapoly_encrypt this plain assoc iv))) key"
  using chapoly_encrypt_val [OF assms] by (auto simp: nonce_def)

theorem chapoly_encrypt_rfc8439_witness:
  "fst (chapoly_encrypt chapoly_example [1, 2, 3] [4] (replicate 8 0)) =
   Some (rfc_encrypt (take 32 (replicate 36 5)) (drop 32 (replicate 36 5) @ replicate 8 0) [4] [1, 2, 3])"
  by (rule chapoly_encrypt_rfc8439 [OF keyed_example, THEN conjunct1]) simp_all

text \<open>
  C20. Decryption accepts exactly what encryption produces: a keyed instance returns a plain text if and only if
  the input is the RFC 8439 encryption of that plain text with the same key, IV and associated data.
\<close>

theorem chapoly_decrypt_iff:
  assumes "keyed (drv this) key" "length iv = 8" "length encr < 2 ^ 32" "length assoc < 2 ^ 32"
  shows "fst (chapoly_decrypt this encr assoc iv) = Some plain \<longleftrightarrow>
    encr = rfc_encrypt (take 32 key) (drop 32 key @ iv) assoc plain"
proof -
  obtain r this' where "chapoly_decrypt this encr assoc iv = (r, this')"
    and "\<forall>plain. r = Some plain \<longleftrightarrow> encr = rfc_encrypt (take 32 key) (nonce key iv) assoc plain"
    using chapoly_decrypt_val [OF assms] by blast
  then show ?thesis by (simp only: nonce_def fst_conv)
qed

theorem chapoly_decrypt_iff_witness:
  "fst (chapoly_decrypt chapoly_example
     (rfc_encrypt (take 32 (replicate 36 5)) (drop 32 (replicate 36 5) @ replicate 8 0) [4] [1, 2, 3]) [4] (replicate 8 0)) =
   Some [1, 2, 3]"
  by (rule chapoly_decrypt_iff [OF keyed_example, THEN iffD2]) (simp_all del: take_replicate drop_replicate)

section \<open>The AEAD satisfies the interface of the packet layer\<close>

definition chapoly_ops :: "chapoly_aead aead_ops" where
  "chapoly_ops = \<lparr>op_encrypt = chapoly_encrypt, op_decrypt = chapoly_decrypt, op_block_size = chapoly_block_size,
     op_icv_size = chapoly_icv_size, op_iv_size = chapoly_iv_size, op_iv_gen = (\<lambda>a. Some (chapoly_get_iv a))\<rparr>"

definition chapoly_keyed :: "chapoly_aead \<Rightarrow> chunk \<Rightarrow> bool" where
  "chapoly_keyed a key \<longleftrightarrow> keyed (drv a) key"

definition chapoly_can_iv :: "chapoly_aead \<Rightarrow> nat \<Rightarrow> bool" where
  "chapoly_can_iv a n \<longleftrightarrow> (\<exists>s. iv_salt (iv_gen a) = Some s \<and> length s = 8) \<and>
     (prevl (iv_gen a) = SEQ_IV_INIT_STATE \<or> unat (prevl (iv_gen a)) \<le> n)"

definition chapoly_enc :: "chunk \<Rightarrow> chunk \<Rightarrow> chunk \<Rightarrow> chunk \<Rightarrow> chunk" where
  "chapoly_enc key p assoc iv = rfc_encrypt (take 32 key) (nonce key iv) assoc p"

lemma chapoly_gen_ok:
  assumes "chapoly_keyed a k" "chapoly_can_iv a n" "n < unat seq" "unat seq < 2 ^ 32"
  shows "\<exists>iv a'. chapoly_get_iv a seq 8 = (Some iv, a') \<and> length iv = 8 \<and> chapoly_keyed a' k \<and> chapoly_can_iv a' (unat seq)"
proof -
  obtain s where s: "iv_salt (iv_gen a) = Some s" "length s = 8" using assms(2) by (auto simp: chapoly_can_iv_def)
  have "prevl (iv_gen a) = SEQ_IV_INIT_STATE \<or> prevl (iv_gen a) < seq"
    using assms(2,3) by (auto simp: chapoly_can_iv_def word_less_nat_alt)
  moreover have "seq < 2 ^ 63 - 1" using assms(4) by (simp add: word_less_nat_alt)
  ultimately have "chapoly_get_iv a seq 8 = (Some (iv_of s 8 seq), a\<lparr>iv_gen := (iv_gen a)\<lparr>prevl := seq\<rparr>\<rparr>)"
    using seq_get_iv_next [OF s(1), of 8 seq] by (simp add: chapoly_get_iv_def)
  then show ?thesis
    using assms(1,2) s by (simp add: chapoly_keyed_def chapoly_can_iv_def iv_of_def)
qed

interpretation chapoly: aead_spec chapoly_ops chapoly_get_iv chapoly_keyed chapoly_can_iv chapoly_enc 1 16 8 "2 ^ 32"
proof unfold_locales
  fix a k n and iv p assoc :: chunk
  assume *: "chapoly_keyed a k" "chapoly_can_iv a n" "length iv = 8" "length p < 2 ^ 32" "length assoc < 2 ^ 32"
  then obtain d' where "chapoly_encrypt a p assoc iv = (Some (rfc_encrypt (take 32 k) (nonce k iv) assoc p), a\<lparr>drv := d'\<rparr>)" "keyed d' k"
    using chapoly_encrypt_val [of a k iv p assoc] by (auto simp: chapoly_keyed_def)
  with * show "\<exists>a'. op_encrypt chapoly_ops a p assoc iv = (Some (chapoly_enc k p assoc iv), a') \<and> chapoly_keyed a' k \<and> chapoly_can_iv a' n"
    by (simp add: chapoly_ops_def chapoly_enc_def chapoly_keyed_def chapoly_can_iv_def)
next
  fix a k and iv c assoc :: chunk
  assume "chapoly_keyed a k" "length iv = 8" "length c < 2 ^ 32" "length assoc < 2 ^ 32"
  then obtain r a' where "chapoly_decrypt a c assoc iv = (r, a')" "keyed (drv a') k"
      "\<forall>p. r = Some p \<longleftrightarrow> c = rfc_encrypt (take 32 k) (nonce k iv) assoc p"
    using chapoly_decrypt_val [of a k iv c assoc] unfolding chapoly_keyed_def by blast
  then show "\<exists>r a'. op_decrypt chapoly_ops a c assoc iv = (r, a') \<and> chapoly_keyed a' k \<and> (\<forall>p. r = Some p \<longleftrightarrow> c = chapoly_enc k p assoc iv)"
    by (simp add: chapoly_ops_def chapoly_enc_def chapoly_keyed_def)
qed (use chapoly_gen_ok in \<open>simp_all add: chapoly_ops_def chapoly_block_size_def chapoly_icv_size_def chapoly_iv_size_def
    POLY_ICV_SIZE_def CHACHA_IV_SIZE_def chapoly_enc_def\<close>)

end
