(* ===== verification/Esp_Packet.thy ===== *)
theory Esp_Packet
  imports Esp_Context Bio Ip_Packet Packet Chapoly_Aead
begin

text \<open>
  ESP packets, \<open>libipsec/esp_packet.c\<close>: parsing of the header, decryption with the checks of sequence number,
  authentication tag and padding, and encryption.  The AEAD object of the context is used through its interface
  \<open>aead_ops\<close>.
\<close>

definition IPPROTO_IPIP :: byte where "IPPROTO_IPIP = 4"
definition IPPROTO_IPV6 :: byte where "IPPROTO_IPV6 = 41"
definition IPPROTO_NONE :: byte where "IPPROTO_NONE = 59"

record esp_packet =
  esp_pkt :: pkt
  esp_payload :: "ip_packet option"
  esp_next_header :: byte

section \<open>Construction and access\<close>

definition esp_packet_create_internal :: "pkt \<Rightarrow> esp_packet" where
  "esp_packet_create_internal p = \<lparr>esp_pkt = p, esp_payload = None, esp_next_header = IPPROTO_NONE\<rparr>"

definition esp_packet_create_from_packet :: "pkt \<Rightarrow> esp_packet" where
  "esp_packet_create_from_packet p = esp_packet_create_internal p"

definition esp_packet_create_from_payload :: "host option \<Rightarrow> host option \<Rightarrow> ip_packet option \<Rightarrow> esp_packet" where
  "esp_packet_create_from_payload s d pl =
     (let this = esp_packet_create_internal (packet_create_from_data s d []);
          this = this\<lparr>esp_payload := pl\<rparr>
      in case pl of
           Some ip \<Rightarrow> this\<lparr>esp_next_header := (if get_version ip = 4 then IPPROTO_IPIP else IPPROTO_IPV6)\<rparr>
         | None \<Rightarrow> this\<lparr>esp_next_header := IPPROTO_NONE\<rparr>)"

definition esp_get_source :: "esp_packet \<Rightarrow> host option" where "esp_get_source this = pkt_get_source (esp_pkt this)"
definition esp_get_destination :: "esp_packet \<Rightarrow> host option" where "esp_get_destination this = pkt_get_destination (esp_pkt this)"
definition esp_set_source :: "esp_packet \<Rightarrow> host option \<Rightarrow> esp_packet" where
  "esp_set_source this h = this\<lparr>esp_pkt := set_source (esp_pkt this) h\<rparr>"
definition esp_set_destination :: "esp_packet \<Rightarrow> host option \<Rightarrow> esp_packet" where
  "esp_set_destination this h = this\<lparr>esp_pkt := set_destination (esp_pkt this) h\<rparr>"
definition esp_get_data :: "esp_packet \<Rightarrow> chunk" where "esp_get_data this = get_data (esp_pkt this)"
definition esp_set_data :: "esp_packet \<Rightarrow> chunk \<Rightarrow> esp_packet" where
  "esp_set_data this d = this\<lparr>esp_pkt := set_data (esp_pkt this) d\<rparr>"
definition esp_get_dscp :: "esp_packet \<Rightarrow> byte" where "esp_get_dscp this = get_dscp (esp_pkt this)"
definition esp_set_dscp :: "esp_packet \<Rightarrow> byte \<Rightarrow> esp_packet" where
  "esp_set_dscp this v = this\<lparr>esp_pkt := set_dscp (esp_pkt this) v\<rparr>"
definition esp_skip_bytes :: "esp_packet \<Rightarrow> nat \<Rightarrow> esp_packet" where
  "esp_skip_bytes this n = this\<lparr>esp_pkt := skip_bytes (esp_pkt this) n\<rparr>"
definition esp_get_next_header :: "esp_packet \<Rightarrow> byte" where "esp_get_next_header this = esp_next_header this"
definition esp_get_payload :: "esp_packet \<Rightarrow> ip_packet option" where "esp_get_payload this = esp_payload this"

definition extract_payload :: "esp_packet \<Rightarrow> ip_packet option \<times> esp_packet" where
  "extract_payload this = (esp_payload this, this\<lparr>esp_payload := None\<rparr>)"

text \<open>The SPI of a header, in network order as the rest of the library keeps it.\<close>

definition parse_header :: "esp_packet \<Rightarrow> u32 option" where
  "parse_header this =
     (case read_uint32 (bio_reader_create (esp_get_data this)) of
        (None, _) \<Rightarrow> None
      | (Some spi, r) \<Rightarrow> (case read_uint32 r of (None, _) \<Rightarrow> None | (Some seq, _) \<Rightarrow> Some (htonl spi)))"

section \<open>Decryption\<close>

definition check_padding :: "chunk \<Rightarrow> bool" where
  "check_padding padding = list_all (\<lambda>i. padding ! i = of_nat (i + 1)) [0..<length padding]"

definition remove_padding :: "esp_packet \<Rightarrow> chunk \<Rightarrow> bool \<times> esp_packet" where
  "remove_padding this plaintext =
     (case read_uint8_end (bio_reader_create plaintext) of
        (None, _) \<Rightarrow> (False, this)
      | (Some nh, r) \<Rightarrow> (case read_uint8_end r of
          (None, _) \<Rightarrow> (False, this)
        | (Some pad_length, r) \<Rightarrow> (case read_data_end r (ucast pad_length) of
            (None, _) \<Rightarrow> (False, this)
          | (Some padding, r) \<Rightarrow>
              if \<not> check_padding padding then (False, this)
              else (case ip_packet_create (peek r) of
                  None \<Rightarrow> (False, this\<lparr>esp_payload := None\<rparr>)
                | Some ip \<Rightarrow> (True, this\<lparr>esp_payload := Some ip, esp_next_header := nh\<rparr>)))))"

text \<open>The fields of a packet; \<open>None\<close> if its length is invalid.\<close>

definition parse_esp :: "nat \<Rightarrow> nat \<Rightarrow> nat \<Rightarrow> chunk \<Rightarrow> (u32 \<times> u32 \<times> chunk \<times> chunk \<times> chunk) option" where
  "parse_esp ivs icvs bs d =
     (case read_uint32 (bio_reader_create d) of (None, _) \<Rightarrow> None | (Some spi, r) \<Rightarrow>
      (case read_uint32 r of (None, _) \<Rightarrow> None | (Some seq, r) \<Rightarrow>
      (case read_data r (of_nat ivs) of (None, _) \<Rightarrow> None | (Some iv, r) \<Rightarrow>
      (case read_data_end r (of_nat icvs) of (None, _) \<Rightarrow> None | (Some icv, r) \<Rightarrow>
       if unat (remaining r) mod bs \<noteq> 0 then None else Some (spi, seq, iv, icv, peek r)))))"

definition esp_decrypt :: "'a aead_ops \<Rightarrow> esp_packet \<Rightarrow> 'a esp_context \<Rightarrow> status_t \<times> esp_packet \<times> 'a esp_context" where
  "esp_decrypt ops this ctx =
     (let this = this\<lparr>esp_payload := None\<rparr>;
          d = esp_get_data this;
          a = aead ctx
      in case parse_esp (op_iv_size ops a) (op_icv_size ops a) (op_block_size ops a) d of
           None \<Rightarrow> (PARSE_ERROR, this, ctx)
         | Some (spi, seq, iv, icv, ciphertext) \<Rightarrow>
             if \<not> verify_seqno ctx seq then (VERIFY_ERROR, this, ctx)
             else (case op_decrypt ops a (ciphertext @ icv) (take 8 d) iv of
                 (None, a) \<Rightarrow> (FAILED, this, ctx\<lparr>aead := a\<rparr>)
               | (Some plaintext, a) \<Rightarrow>
                   let ctx = set_authenticated_seqno (ctx\<lparr>aead := a\<rparr>) seq;
                       (ok, this) = remove_padding this plaintext
                   in (if ok then SUCCESS else PARSE_ERROR, this, ctx)))"

section \<open>Encryption\<close>

definition generate_padding :: "nat \<Rightarrow> chunk" where
  "generate_padding n = map (\<lambda>i. of_nat (i + 1)) [0..<n]"

text \<open>
  The packet is built in the buffer of a writer: \<open>mem\<close> is the contents of fresh memory, and \<open>None\<close> stands for a
  writer whose buffer loop does not end.  The pointers into the buffer that the code keeps are offsets.
\<close>

definition esp_encrypt :: "(nat \<Rightarrow> byte) \<Rightarrow> 'a aead_ops \<Rightarrow> esp_packet \<Rightarrow> 'a esp_context \<Rightarrow> u32 \<Rightarrow>
    (status_t \<times> esp_packet \<times> 'a esp_context) option" where
  "esp_encrypt mem ops this ctx spi =
     (let this = esp_set_data this [] in
      case next_seqno ctx of None \<Rightarrow> Some (FAILED, this, ctx) | Some (seq, ctx) \<Rightarrow>
      case op_iv_gen ops (aead ctx) of None \<Rightarrow> Some (NOT_FOUND, this, ctx) | Some gen_iv \<Rightarrow>
      let a = aead ctx;
          blocksize = op_block_size ops a;
          ivlen = op_iv_size ops a;
          icvlen = op_icv_size ops a;
          pl = (case esp_payload this of None \<Rightarrow> [] | Some ip \<Rightarrow> get_encoding ip);
          plainlen = length pl + 2;
          padlen = pad_len plainlen blocksize;
          padlen = padlen + pad_len (ivlen + plainlen + padlen) 4;
          plainlen = plainlen + padlen
      in do {
        let w = bio_writer_create mem (of_nat (2 * 4 + ivlen + plainlen + icvlen));
        w \<leftarrow> write_uint32 mem w (ntohl spi);
        w \<leftarrow> write_uint32 mem w seq;
        let iv_off = used w;
        (_, w) \<leftarrow> skip mem w ivlen;
        (case gen_iv (ucast seq) ivlen of
           (None, a) \<Rightarrow> Some (FAILED, this, ctx\<lparr>aead := a\<rparr>)
         | (Some iv, a) \<Rightarrow> do {
             let w = w\<lparr>buf := store_at (buf w) iv_off iv\<rparr>;
             let off = length (get_buf w);
             w \<leftarrow> write_data mem w pl;
             let pad_off = used w;
             (padding, w) \<leftarrow> skip mem w padlen;
             let w = w\<lparr>buf := store_at (buf w) pad_off (generate_padding (length padding))\<rparr>;
             w \<leftarrow> write_uint8 mem w (of_nat padlen);
             w \<leftarrow> write_uint8 mem w (esp_next_header this);
             let aad = take 8 (get_buf w);
             (_, w) \<leftarrow> skip mem w icvlen;
             (case op_encrypt ops a (take plainlen (drop off (buf w))) aad iv of
                (None, a) \<Rightarrow> Some (FAILED, this, ctx\<lparr>aead := a\<rparr>)
              | (Some c, a) \<Rightarrow>
                  let w = w\<lparr>buf := store_at (buf w) off c\<rparr>
                  in Some (SUCCESS, esp_set_data this (fst (extract_buf w)), ctx\<lparr>aead := a\<rparr>))
           })
      })"

text \<open>A clone has its own copy of the payload.\<close>

definition esp_clone :: "esp_packet \<Rightarrow> esp_packet" where
  "esp_clone this =
     (let p = esp_packet_create_internal (clone_packet (esp_pkt this) False)
      in p\<lparr>esp_payload := (case esp_payload this of None \<Rightarrow> None | Some ip \<Rightarrow> ip_packet_clone ip),
           esp_next_header := esp_next_header this\<rparr>)"

section \<open>Padding\<close>

lemma length_generate_padding [simp]: "length (generate_padding n) = n"
  by (simp add: generate_padding_def)

lemma check_padding_iff: "check_padding p \<longleftrightarrow> p = generate_padding (length p)"
proof -
  have "p = generate_padding (length p) \<longleftrightarrow> (\<forall>i<length p. p ! i = of_nat (i + 1))"
    unfolding generate_padding_def list_eq_iff_nth_eq by (simp del: of_nat_add of_nat_Suc)
  then show ?thesis
    unfolding check_padding_def list_all_iff by (simp del: of_nat_add of_nat_Suc add: Ball_def)
qed

text \<open>The plain text of a packet: payload, padding, its length and the next header.\<close>

definition esp_padding :: "nat \<Rightarrow> nat \<Rightarrow> nat \<Rightarrow> nat" where
  "esp_padding bs ivs n = (let padlen = pad_len (n + 2) bs in padlen + pad_len (ivs + (n + 2) + padlen) 4)"

definition esp_plaintext :: "nat \<Rightarrow> nat \<Rightarrow> chunk \<Rightarrow> byte \<Rightarrow> chunk" where
  "esp_plaintext bs ivs pl nh =
     (let padlen = esp_padding bs ivs (length pl) in pl @ generate_padding padlen @ [of_nat padlen, nh])"

lemma esp_padding_bounds:
  assumes "0 < bs"
  shows "esp_padding bs ivs n < bs + 3"
  using pad_len_less [OF assms, of "n + 2"] pad_len_less [of 4 "ivs + (n + 2) + pad_len (n + 2) bs"]
  by (simp add: esp_padding_def Let_def)

lemma length_esp_plaintext: "length (esp_plaintext bs ivs pl nh) = length pl + 2 + esp_padding bs ivs (length pl)"
  by (simp add: esp_plaintext_def Let_def)

text \<open>The encrypted part has whole blocks and ends on a 4 byte boundary.\<close>

lemma esp_plaintext_aligned:
  assumes "0 < bs" "bs = 1 \<or> 4 dvd bs \<and> 4 dvd ivs"
  shows "length (esp_plaintext bs ivs pl nh) mod bs = 0" "(ivs + length (esp_plaintext bs ivs pl nh)) mod 4 = 0"
proof -
  define m where "m = length pl + 2 + pad_len (length pl + 2) bs"
  have l: "length (esp_plaintext bs ivs pl nh) = m + pad_len (ivs + m) 4"
    by (simp add: length_esp_plaintext esp_padding_def m_def Let_def add.assoc)
  have "4 dvd (ivs + m) + pad_len (ivs + m) 4" by (rule dvd_add_pad_len) simp
  then show "(ivs + length (esp_plaintext bs ivs pl nh)) mod 4 = 0" by (simp add: l add.assoc)
  have d: "bs dvd m" unfolding m_def by (rule dvd_add_pad_len [OF assms(1)])
  show "length (esp_plaintext bs ivs pl nh) mod bs = 0"
  proof (cases "bs = 1")
    case False
    then have "4 dvd ivs + m" using assms(2) d by (meson dvd_add dvd_trans)
    then have "pad_len (ivs + m) 4 = 0" by (simp add: pad_len_def)
    with d show ?thesis by (simp add: l)
  qed simp
qed

section \<open>Building a packet in the buffer\<close>

lemma skip_appends:
  assumes "wf_writer w"
  obtains r w' where "skip mem w n = Some (r, w')" "length r = n" "wf_writer w'" "get_buf w' = get_buf w @ r"
proof -
  from assms obtain w1 where w1: "increase mem w n = Some w1" "wf_writer w1" "used w1 = used w"
    "used w + n \<le> length (buf w1)" "get_buf w1 = get_buf w"
    by (rule increase_Some [where mem = mem and n = n])
  show ?thesis
  proof (rule that [of "take n (drop (used w1) (buf w1))" "w1\<lparr>used := used w1 + n\<rparr>"])
    show "skip mem w n = Some (take n (drop (used w1) (buf w1)), w1\<lparr>used := used w1 + n\<rparr>)"
      by (simp add: skip_def w1)
    show "get_buf (w1\<lparr>used := used w1 + n\<rparr>) = get_buf w @ take n (drop (used w1) (buf w1))"
      using w1(5) by (simp add: get_buf_def take_add)
  qed (use w1 in \<open>simp_all add: wf_writer_def\<close>)
qed

lemma used_get_buf: "wf_writer w \<Longrightarrow> used w = length (get_buf w)"
  by (simp add: wf_writer_def get_buf_def)

lemma store_get_buf:
  assumes "wf_writer w" "get_buf w = xs @ r @ ys" "length bs = length r"
  shows "wf_writer (w\<lparr>buf := store_at (buf w) (length xs) bs\<rparr>)"
    "get_buf (w\<lparr>buf := store_at (buf w) (length xs) bs\<rparr>) = xs @ bs @ ys"
proof -
  obtain zs where b: "buf w = (xs @ r @ ys) @ zs" using assms(1,2) unfolding get_buf_def by (metis append_take_drop_id)
  have u: "used w = length (xs @ r @ ys)" using used_get_buf [OF assms(1)] assms(2) by simp
  show "wf_writer (w\<lparr>buf := store_at (buf w) (length xs) bs\<rparr>)"
    using assms(1,3) by (simp add: wf_writer_def store_at_def b)
  show "get_buf (w\<lparr>buf := store_at (buf w) (length xs) bs\<rparr>) = xs @ bs @ ys"
    using assms(3) by (simp add: get_buf_def store_at_def b u)
qed

text \<open>The buffer is allocated in full, so that the pointers into it stay valid: no operation that fits moves it.\<close>

lemma increase_fits: "used w + n \<le> length (buf w) \<Longrightarrow> increase mem w n = Some w"
  by (simp add: increase_def while_option_unfold)

lemma buf_get_buf: "wf_writer w \<Longrightarrow> \<exists>zs. buf w = get_buf w @ zs"
  unfolding get_buf_def by (metis append_take_drop_id)

definition esp_header :: "u32 \<Rightarrow> u32 \<Rightarrow> chunk" where
  "esp_header spi seq = htoun32 (ntohl spi) @ htoun32 seq"

lemma length_esp_header [simp]: "length (esp_header spi seq) = 8"
  by (simp add: esp_header_def)

lemma padding_written:
  assumes "wf_writer w"
  obtains r w' w'' where "skip mem w n = Some (r, w')" "length r = n"
    "w'' = w'\<lparr>buf := store_at (buf w') (used w) (generate_padding n)\<rparr>"
    "wf_writer w''" "get_buf w'' = get_buf w @ generate_padding n"
proof -
  from assms obtain r w' where s: "skip mem w n = Some (r, w')" "length r = n" "wf_writer w'" "get_buf w' = get_buf w @ r"
    by (rule skip_appends [where mem = mem and n = n])
  show ?thesis
    by (rule that [OF s(1,2) refl])
      (use store_get_buf [OF s(3), of "get_buf w" r "[]"] s used_get_buf [OF assms] in simp_all)
qed

lemma header_written:
  obtains w0 w1 r w where "write_uint32 mem (bio_writer_create mem n) a = Some w0" "write_uint32 mem w0 b = Some w1"
    "used w1 = 8" "skip mem w1 ivlen = Some (r, w)" "length r = ivlen" "wf_writer w"
    "get_buf w = htoun32 a @ htoun32 b @ r"
proof -
  let ?c = "bio_writer_create mem n"
  have c: "wf_writer ?c" "get_buf ?c = []" by (simp_all add: wf_writer_create) (simp add: get_buf_def bio_writer_create_def)
  then obtain w0 where w0: "write_uint32 mem ?c a = Some w0" "wf_writer w0" "get_buf w0 = htoun32 a"
    using write_appends(4) [of ?c mem a] by (auto simp: appends_def)
  then obtain w1 where w1: "write_uint32 mem w0 b = Some w1" "wf_writer w1" "get_buf w1 = htoun32 a @ htoun32 b"
    using write_appends(4) [of w0 mem b] by (auto simp: appends_def)
  then obtain r w where w: "skip mem w1 ivlen = Some (r, w)" "length r = ivlen" "wf_writer w" "get_buf w = get_buf w1 @ r"
    by (auto elim: skip_appends [where mem = mem and n = ivlen])
  show ?thesis
    by (rule that [OF w0(1) w1(1) _ w(1,2,3)]) (use w w1 used_get_buf in simp_all)
qed

lemma trailer_written:
  assumes "wf_writer w"
  obtains w1 w2 r w3 where "write_uint8 mem w a = Some w1" "write_uint8 mem w1 b = Some w2"
    "wf_writer w2" "get_buf w2 = get_buf w @ [a, b]"
    "skip mem w2 n = Some (r, w3)" "length r = n" "wf_writer w3" "get_buf w3 = get_buf w @ [a, b] @ r"
proof -
  obtain w1 where w1: "write_uint8 mem w a = Some w1" "wf_writer w1" "get_buf w1 = get_buf w @ [a]"
    using write_appends(1) [OF assms, of mem a] by (auto simp: appends_def)
  then obtain w2 where w2: "write_uint8 mem w1 b = Some w2" "wf_writer w2" "get_buf w2 = get_buf w @ [a, b]"
    using write_appends(1) [of w1 mem b] by (auto simp: appends_def)
  then obtain r w3 where w3: "skip mem w2 n = Some (r, w3)" "length r = n" "wf_writer w3" "get_buf w3 = get_buf w2 @ r"
    by (auto elim: skip_appends [where mem = mem and n = n])
  show ?thesis
    by (rule that [OF w1(1) w2(1,2) _ w3(1,2,3)]) (use w2 w3 in simp_all)
qed

definition encoded_payload :: "esp_packet \<Rightarrow> chunk" where
  "encoded_payload this = (case esp_payload this of None \<Rightarrow> [] | Some ip \<Rightarrow> get_encoding ip)"

text \<open>What the AEAD object is called with, and what becomes of its result.\<close>

lemma esp_encrypt_eq:
  fixes ops :: "'a aead_ops" and this ctx ctx'
  defines "plain \<equiv> esp_plaintext (op_block_size ops (aead ctx')) (op_iv_size ops (aead ctx')) (encoded_payload this) (esp_next_header this)"
    and "this' \<equiv> esp_set_data this []"
  assumes "next_seqno ctx = Some (seq, ctx')" "op_iv_gen ops (aead ctx') = Some gen_iv"
    "gen_iv (ucast seq) (op_iv_size ops (aead ctx')) = (Some iv, a1)" "length iv = op_iv_size ops (aead ctx')"
    "op_encrypt ops a1 plain (esp_header spi seq) iv = (res, a2)"
    "\<And>c. res = Some c \<Longrightarrow> length c = length plain + op_icv_size ops (aead ctx')"
  shows "esp_encrypt mem ops this ctx spi = Some (case res of
      None \<Rightarrow> (FAILED, this', ctx'\<lparr>aead := a2\<rparr>)
    | Some c \<Rightarrow> (SUCCESS, esp_set_data this' (esp_header spi seq @ iv @ c), ctx'\<lparr>aead := a2\<rparr>))"
proof -
  let ?bs = "op_block_size ops (aead ctx')" and ?iv = "op_iv_size ops (aead ctx')" and ?icv = "op_icv_size ops (aead ctx')"
  let ?pl = "encoded_payload this" and ?h = "htoun32 (ntohl spi) @ htoun32 seq"
  let ?n = "esp_padding ?bs ?iv (length ?pl)"
  obtain w0 w1 r w where w: "write_uint32 mem (bio_writer_create mem (of_nat (2 * 4 + ?iv + (length ?pl + 2 + ?n) + ?icv))) (ntohl spi) = Some w0"
      "write_uint32 mem w0 seq = Some w1" "used w1 = 8" "skip mem w1 ?iv = Some (r, w)" "length r = ?iv" "wf_writer w"
      "get_buf w = htoun32 (ntohl spi) @ htoun32 seq @ r"
    by (rule header_written)
  let ?w2 = "w\<lparr>buf := store_at (buf w) 8 iv\<rparr>"
  have w2: "wf_writer ?w2" "get_buf ?w2 = ?h @ iv"
    using store_get_buf [OF w(6), of ?h r "[]" iv] w(5,7) assms(6) by simp_all
  then obtain w3 where w3: "write_data mem ?w2 ?pl = Some w3" "wf_writer w3" "get_buf w3 = ?h @ iv @ ?pl"
    using write_appends(6) [of ?w2 mem ?pl] by (auto simp: appends_def)
  obtain r' w4 w5 where w5: "skip mem w3 ?n = Some (r', w4)" "length r' = ?n"
      "w5 = w4\<lparr>buf := store_at (buf w4) (used w3) (generate_padding ?n)\<rparr>"
      "wf_writer w5" "get_buf w5 = get_buf w3 @ generate_padding ?n"
    by (rule padding_written [OF w3(2)])
  obtain w6 w7 r'' w8 where w8: "write_uint8 mem w5 (of_nat ?n) = Some w6" "write_uint8 mem w6 (esp_next_header this) = Some w7"
      "wf_writer w7" "get_buf w7 = get_buf w5 @ [of_nat ?n, esp_next_header this]" "skip mem w7 ?icv = Some (r'', w8)"
      "length r'' = ?icv" "wf_writer w8" "get_buf w8 = get_buf w5 @ [of_nat ?n, esp_next_header this] @ r''"
    by (rule trailer_written [OF w5(4)])
  have this': "encoded_payload this' = ?pl" "esp_next_header this' = esp_next_header this"
    by (simp_all add: this'_def encoded_payload_def esp_set_data_def)
  have plain: "plain = ?pl @ generate_padding ?n @ [of_nat ?n, esp_next_header this]"
    by (simp add: plain_def esp_plaintext_def Let_def)
  have g8: "get_buf w8 = (?h @ iv) @ (plain @ r'')" using w8(8) w5(5) w3(3) plain by simp
  obtain zs where zs: "buf w8 = (?h @ iv) @ (plain @ r'') @ zs" using buf_get_buf [OF w8(7)] g8 by auto
  have lp: "length plain = length ?pl + 2 + ?n" by (simp add: plain)
  have off: "length (get_buf ?w2) = length (?h @ iv)" using w2(2) by simp
  have "get_buf (w8\<lparr>buf := store_at (buf w8) (length (?h @ iv)) c\<rparr>) = (?h @ iv) @ c" if "res = Some c" for c
    using store_get_buf(2) [OF w8(7), of "?h @ iv" "plain @ r''" "[]" c] g8 w8(6) assms(8) [OF that] by simp
  moreover have "take 8 (get_buf w7) = ?h" using w8(4) w5(5) w3(3) by simp
  moreover have "take (length ?pl + 2 + ?n) (drop (length (?h @ iv)) (buf w8)) = plain" using zs lp by simp
  moreover note encoded_payload_def [of this', symmetric]
  ultimately show ?thesis
    by (simp only: esp_encrypt_def Let_def esp_padding_def [unfolded Let_def, symmetric] this' assms(3-7) w(1-4) w3(1) w5(1,2)
        w5(3) [symmetric] w8(1,2,5) off option.case prod.case bind.bind_lunit this'_def [symmetric] extract_buf_def fst_conv
        esp_header_def [symmetric])
      (cases res; simp add: esp_header_def)
qed

lemma parse_esp_iff:
  assumes "ivs < 2 ^ 16" "icvs < 2 ^ 16" "length d < 2 ^ 32"
  shows "parse_esp ivs icvs bs d = Some (spi, seq, iv, icv, c) \<longleftrightarrow>
    d = htoun32 spi @ htoun32 seq @ iv @ c @ icv \<and> length iv = ivs \<and> length icv = icvs \<and> length c mod bs = 0"
    (is "?l \<longleftrightarrow> ?r")
proof
  have u: "unat (of_nat ivs :: u32) = ivs" "unat (of_nat icvs :: u32) = icvs"
    using assms(1,2) by (simp_all add: unat_of_nat_small)
  {
    assume ?l
    then obtain r1 r2 r3 r4 where r: "read_uint32 (bio_reader_create d) = (Some spi, r1)" "read_uint32 r1 = (Some seq, r2)"
        "read_data r2 (of_nat ivs) = (Some iv, r3)" "read_data_end r3 (of_nat icvs) = (Some icv, r4)"
        "unat (remaining r4) mod bs = 0" "c = peek r4"
      by (auto simp: parse_esp_def split: prod.splits option.splits if_splits)
    then have "d = htoun32 spi @ htoun32 seq @ iv @ c @ icv \<and> length iv = ivs \<and> length icv = icvs"
      unfolding read_uint32_Some read_data_Some read_data_end_Some u by (simp add: bio_reader_create_def peek_def)
    moreover from this have "unat (remaining r4) = length c"
      using r(6) assms(3) by (simp add: remaining_def peek_def unat_of_nat_small)
    ultimately show ?r using r(5) by simp
  next
    assume ?r
    then show ?l
      using assms u by (simp add: parse_esp_def bio_reader_create_def peek_def remaining_def unat_of_nat_small)
  }
qed

lemma remove_padding_iff:
  "remove_padding p d = (True, p') \<longleftrightarrow> (\<exists>pl n nh ip. n < 256 \<and> d = pl @ generate_padding n @ [of_nat n, nh] \<and>
     ip_packet_create pl = Some ip \<and> p' = p\<lparr>esp_payload := Some ip, esp_next_header := nh\<rparr>)" (is "?l \<longleftrightarrow> ?r")
proof
  assume ?l
  then obtain nh r1 n r2 pad r3 ip where r: "read_uint8_end (bio_reader_create d) = (Some nh, r1)"
      "read_uint8_end r1 = (Some n, r2)" "read_data_end r2 (ucast n) = (Some pad, r3)" "check_padding pad"
      "ip_packet_create (peek r3) = Some ip" "p' = p\<lparr>esp_payload := Some ip, esp_next_header := nh\<rparr>"
    by (auto simp: remove_padding_def split: prod.splits option.splits if_splits)
  have u: "unat (ucast n :: u32) = unat n" by (simp add: unat_ucast_up)
  then have len: "length pad = unat n" using r(3) by (simp add: read_data_end_Some)
  then have "pad = generate_padding (unat n)" using r(4) check_padding_iff by metis
  moreover have "d = peek r3 @ pad @ [of_nat (unat n), nh]"
    using r(1-3) by (simp add: read_uint8_end_Some read_data_end_Some bio_reader_create_def peek_def)
  ultimately have "d = peek r3 @ generate_padding (unat n) @ [of_nat (unat n), nh]" by simp
  moreover have "unat n < 256" using unsigned_less [of n] by simp
  ultimately show ?r using r(5,6) by blast
next
  assume ?r
  then obtain pl n nh ip where r: "n < 256" "d = ((pl @ generate_padding n) @ [of_nat n]) @ [nh]" "ip_packet_create pl = Some ip"
      "p' = p\<lparr>esp_payload := Some ip, esp_next_header := nh\<rparr>" by auto
  moreover have "unat (ucast (of_nat n :: byte) :: u32) = n" using r(1) by (simp add: unat_ucast_up)
  ultimately show ?l
    using read_data_end_append [of "generate_padding n" "ucast (of_nat n :: byte)" pl]
    by (simp add: remove_padding_def bio_reader_create_def check_padding_iff peek_def del: append_assoc)
qed

section \<open>Packets over any AEAD that satisfies the interface\<close>

context aead_spec
begin

lemma plaintext_fits:
  assumes "length pl + 133 < maxlen"
  shows "length (esp_plaintext bs ivs pl nh) < maxlen"
  using assms esp_padding_bounds [OF bs_bounds(1), of ivs "length pl"] bs_bounds(2) by (simp add: length_esp_plaintext)

lemma esp_encrypt_ok:
  assumes "keyed (aead ctx) k" "can_iv (aead ctx) n" "next_seqno ctx = Some (seq, ctx')" "n < unat seq"
    "length (encoded_payload p) + 133 < maxlen"
  obtains iv a where "length iv = ivs" "keyed a k" "can_iv a (unat seq)"
    "esp_encrypt mem ops p ctx spi = Some (SUCCESS, esp_set_data (esp_set_data p []) (esp_header spi seq @ iv @
       enc k (esp_plaintext bs ivs (encoded_payload p) (esp_next_header p)) (esp_header spi seq) iv), ctx'\<lparr>aead := a\<rparr>)"
proof -
  have a: "aead ctx' = aead ctx" using assms(3) by (auto simp: next_seqno_def split: if_splits)
  have u: "unat (ucast seq :: u64) = unat seq" by (simp add: unat_ucast_up)
  have s: "op_block_size ops (aead ctx) = bs" "op_icv_size ops (aead ctx) = icvs" "op_iv_size ops (aead ctx) = ivs"
    using sizes [OF assms(1)] by simp_all
  let ?plain = "esp_plaintext bs ivs (encoded_payload p) (esp_next_header p)"
  have "n < unat (ucast seq :: u64)" using assms(4) u by simp
  moreover have "unat (ucast seq :: u64) < 2 ^ 32" using u unsigned_less [of seq] by simp
  ultimately obtain iv a1 where a1: "gen (aead ctx) (ucast seq) ivs = (Some iv, a1)" "length iv = ivs" "keyed a1 k" "can_iv a1 (unat seq)"
    using gen_ok [OF assms(1,2), of "ucast seq", unfolded u] u by auto
  have "length (esp_header spi seq) < maxlen" using small(3) by simp
  then obtain a2 where a2: "op_encrypt ops a1 ?plain (esp_header spi seq) iv = (Some (enc k ?plain (esp_header spi seq) iv), a2)"
      "keyed a2 k" "can_iv a2 (unat seq)"
    using encrypt_ok [OF a1(3,4,2) esp_plaintext_aligned(1) [OF bs_bounds(1) align] plaintext_fits [OF assms(5)]] by blast
  have "esp_encrypt mem ops p ctx spi = Some (SUCCESS, esp_set_data (esp_set_data p []) (esp_header spi seq @ iv @
       enc k ?plain (esp_header spi seq) iv), ctx'\<lparr>aead := a2\<rparr>)"
    by (subst esp_encrypt_eq [OF assms(3) iv_gen [of "aead ctx'" k, unfolded a, OF assms(1), folded a], unfolded a s, OF a1(1,2) a2(1)]) (simp_all add: length_enc)
  then show ?thesis by (rule that [OF a1(2) a2(2,3)])
qed

lemma enc_inj:
  assumes "keyed a k" "length iv = ivs" "length (enc k p1 h iv) < maxlen" "length h < maxlen" "enc k p1 h iv = enc k p2 h iv"
  shows "p1 = p2"
proof -
  obtain r where "\<forall>p. r = Some p \<longleftrightarrow> enc k p1 h iv = enc k p h iv" using decrypt_ok [OF assms(1-4)] by blast
  then have "r = Some p1" "r = Some p2" using assms(5) by simp_all
  then show ?thesis by simp
qed

lemma esp_decrypt_cases:
  assumes "keyed (aead ctx) k" "length (esp_get_data p) < maxlen"
  obtains
    (malformed) "parse_esp ivs icvs bs (esp_get_data p) = None"
      "esp_decrypt ops p ctx = (PARSE_ERROR, p\<lparr>esp_payload := None\<rparr>, ctx)"
  | (replayed) s seq iv icv c where "parse_esp ivs icvs bs (esp_get_data p) = Some (s, seq, iv, icv, c)" "\<not> verify_seqno ctx seq"
      "esp_decrypt ops p ctx = (VERIFY_ERROR, p\<lparr>esp_payload := None\<rparr>, ctx)"
  | (forged) s seq iv icv c a where "parse_esp ivs icvs bs (esp_get_data p) = Some (s, seq, iv, icv, c)" "verify_seqno ctx seq"
      "\<nexists>pt. c @ icv = enc k pt (htoun32 s @ htoun32 seq) iv" "keyed a k"
      "esp_decrypt ops p ctx = (FAILED, p\<lparr>esp_payload := None\<rparr>, ctx\<lparr>aead := a\<rparr>)"
  | (authentic) s seq iv pt a where "verify_seqno ctx seq" "length iv = ivs" "length pt mod bs = 0" "keyed a k"
      "esp_get_data p = htoun32 s @ htoun32 seq @ iv @ enc k pt (htoun32 s @ htoun32 seq) iv"
      "esp_decrypt ops p ctx = (case remove_padding (p\<lparr>esp_payload := None\<rparr>) pt of
         (ok, p') \<Rightarrow> (if ok then SUCCESS else PARSE_ERROR, p', set_authenticated_seqno (ctx\<lparr>aead := a\<rparr>) seq))"
proof (cases "parse_esp ivs icvs bs (esp_get_data p)")
  case None
  show ?thesis by (rule malformed) (use None sizes [OF assms(1)] in \<open>simp_all add: esp_decrypt_def esp_get_data_def Let_def\<close>)
next
  case (Some x)
  obtain s seq iv icv c where x: "x = (s, seq, iv, icv, c)" by (cases x) auto
  have len: "length (esp_get_data p) < 2 ^ 32" using assms(2) small(4) by linarith
  have d: "esp_get_data p = htoun32 s @ htoun32 seq @ iv @ c @ icv" "length iv = ivs" "length icv = icvs" "length c mod bs = 0"
    using parse_esp_iff [OF small(1,2) len] Some x by simp_all
  have t: "take 8 (esp_get_data p) = htoun32 s @ htoun32 seq" by (simp add: d(1))
  have "length (c @ icv) < maxlen" "length (htoun32 s @ htoun32 seq) < maxlen" using d(1) assms(2) small(3) by simp_all
  then obtain r a where r: "op_decrypt ops (aead ctx) (c @ icv) (htoun32 s @ htoun32 seq) iv = (r, a)" "keyed a k"
      "\<forall>pt. r = Some pt \<longleftrightarrow> c @ icv = enc k pt (htoun32 s @ htoun32 seq) iv"
    using decrypt_ok [OF assms(1) d(2)] by blast
  have e: "esp_decrypt ops p ctx =
      (if \<not> verify_seqno ctx seq then (VERIFY_ERROR, p\<lparr>esp_payload := None\<rparr>, ctx)
       else case r of None \<Rightarrow> (FAILED, p\<lparr>esp_payload := None\<rparr>, ctx\<lparr>aead := a\<rparr>)
       | Some pt \<Rightarrow> (case remove_padding (p\<lparr>esp_payload := None\<rparr>) pt of
         (ok, p') \<Rightarrow> (if ok then SUCCESS else PARSE_ERROR, p', set_authenticated_seqno (ctx\<lparr>aead := a\<rparr>) seq)))"
    using Some x sizes [OF assms(1)] t r(1)
    by (cases r) (simp_all add: esp_decrypt_def esp_get_data_def Let_def)
  show ?thesis
  proof (cases "verify_seqno ctx seq")
    case False
    show ?thesis by (rule replayed [OF Some [unfolded x] False]) (simp add: e False)
  next
    case True
    show ?thesis
    proof (cases r)
      case None
      show ?thesis by (rule forged [OF Some [unfolded x] True _ r(2)]) (use None r(3) in \<open>simp_all add: e True\<close>)
    next
      case r': (Some pt)
      then have c: "c @ icv = enc k pt (htoun32 s @ htoun32 seq) iv" using r(3) by blast
      have "length (c @ icv) = length pt + icvs" unfolding c by (rule length_enc)
      then have l: "length pt mod bs = 0" using d(3,4) by simp
      show ?thesis by (rule authentic [OF True d(2) l r(2)]) (simp_all add: e True r' d(1) c)
    qed
  qed
qed

end

context aead_spec
begin

lemma parse_esp_wire:
  assumes "length iv = ivs" "length pt mod bs = 0"
    "d = htoun32 s @ htoun32 seq @ iv @ enc k pt h iv" "length d < maxlen"
  shows "parse_esp ivs icvs bs d = Some (s', seq', iv', icv, c) \<longleftrightarrow>
    s' = s \<and> seq' = seq \<and> iv' = iv \<and> c @ icv = enc k pt h iv \<and> length icv = icvs"
proof -
  have len: "length d < 2 ^ 32" using assms(4) small(4) by linarith
  have h: "htoun32 x = htoun32 y \<longleftrightarrow> x = y" for x y by (metis untoh32_htoun32)
  have "length c mod bs = 0" if "c @ icv = enc k pt h iv" "length icv = icvs"
    using assms(2) length_enc [of k pt h iv] that by (metis add_right_cancel length_append)
  then show ?thesis
    unfolding parse_esp_iff [OF small(1,2) len] unfolding assms(3) using assms(1) by (auto simp: h)
qed

lemma esp_decrypt_authentic:
  assumes "keyed (aead ctx) k" "length (esp_get_data p) < maxlen" "length iv = ivs" "length pt mod bs = 0"
    "esp_get_data p = htoun32 s @ htoun32 seq @ iv @ enc k pt (htoun32 s @ htoun32 seq) iv"
  obtains a where "keyed a k" "esp_decrypt ops p ctx =
      (if verify_seqno ctx seq then (case remove_padding (p\<lparr>esp_payload := None\<rparr>) pt of
         (ok, p') \<Rightarrow> (if ok then SUCCESS else PARSE_ERROR, p', set_authenticated_seqno (ctx\<lparr>aead := a\<rparr>) seq))
       else (VERIFY_ERROR, p\<lparr>esp_payload := None\<rparr>, ctx))"
proof -
  let ?e = "enc k pt (htoun32 s @ htoun32 seq) iv"
  note w = parse_esp_wire [OF assms(3,4,5,2)]
  have le: "length ?e < maxlen" using assms(2) unfolding assms(5) by simp
  have lh: "length (htoun32 s @ htoun32 seq) < maxlen" using small(3) by simp
  from assms(1,2) show ?thesis
  proof (cases rule: esp_decrypt_cases)
    case malformed
    moreover have "parse_esp ivs icvs bs (esp_get_data p) = Some (s, seq, iv, drop (length pt) ?e, take (length pt) ?e)"
      using w length_enc by simp
    ultimately show ?thesis by simp
  next
    case (replayed s' seq' iv' icv c)
    then show ?thesis using that [OF assms(1)] w by simp
  next
    case (forged s' seq' iv' icv c a)
    then show ?thesis using w by metis
  next
    case (authentic s' seq' iv' pt' a)
    have "htoun32 s' @ htoun32 seq' @ iv' @ enc k pt' (htoun32 s' @ htoun32 seq') iv' = htoun32 s @ htoun32 seq @ iv @ ?e"
      using authentic(5) assms(5) by (rule trans [OF sym])
    then have c: "htoun32 s' = htoun32 s \<and> htoun32 seq' = htoun32 seq \<and> iv' = iv \<and> enc k pt' (htoun32 s' @ htoun32 seq') iv' = ?e"
      using authentic(2) assms(3) by auto
    then have "enc k pt' (htoun32 s @ htoun32 seq) iv = ?e" by metis
    then have "pt' = pt" using enc_inj [OF assms(1,3) le lh] by metis
    moreover have "seq' = seq" using c by (metis untoh32_htoun32)
    ultimately show ?thesis using that [OF authentic(4)] authentic(1,6) by simp
  qed
qed

lemma esp_accepts_iff:
  assumes "keyed (aead ctx) k" "length (esp_get_data p) < maxlen"
  shows "(\<exists>ctx'. esp_decrypt ops p ctx = (SUCCESS, p', ctx')) \<longleftrightarrow> (\<exists>s seq iv pl n nh ip. verify_seqno ctx seq \<and>
    length iv = ivs \<and> n < 256 \<and> (length pl + n + 2) mod bs = 0 \<and> esp_get_data p = htoun32 s @ htoun32 seq @ iv @
      enc k (pl @ generate_padding n @ [of_nat n, nh]) (htoun32 s @ htoun32 seq) iv \<and>
    ip_packet_create pl = Some ip \<and> p' = p\<lparr>esp_payload := Some ip, esp_next_header := nh\<rparr>)" (is "?l \<longleftrightarrow> ?r")
proof
  assume ?l
  then obtain ctx' where d: "esp_decrypt ops p ctx = (SUCCESS, p', ctx')" by blast
  from assms show ?r
  proof (cases rule: esp_decrypt_cases)
    case (authentic s seq iv pt a)
    then have "remove_padding (p\<lparr>esp_payload := None\<rparr>) pt = (True, p')" using d by (auto split: prod.splits if_splits)
    then obtain pl n nh ip where "n < 256" "pt = pl @ generate_padding n @ [of_nat n, nh]" "ip_packet_create pl = Some ip"
        "p' = p\<lparr>esp_payload := Some ip, esp_next_header := nh\<rparr>"
      unfolding remove_padding_iff by auto
    with authentic(1,2,3,5) show ?r
      by - (rule exI [of _ s], rule exI [of _ seq], rule exI [of _ iv], rule exI [of _ pl], rule exI [of _ n],
          rule exI [of _ nh], rule exI [of _ ip], simp add: add.assoc)
  qed (use d in simp_all)
next
  assume ?r
  then obtain s seq iv pl n nh ip where r: "verify_seqno ctx seq" "length iv = ivs" "n < 256" "(length pl + n + 2) mod bs = 0"
      "esp_get_data p = htoun32 s @ htoun32 seq @ iv @ enc k (pl @ generate_padding n @ [of_nat n, nh]) (htoun32 s @ htoun32 seq) iv"
      "ip_packet_create pl = Some ip" "p' = p\<lparr>esp_payload := Some ip, esp_next_header := nh\<rparr>"
    by (elim exE conjE) (rule that; assumption)
  have "remove_padding (p\<lparr>esp_payload := None\<rparr>) (pl @ generate_padding n @ [of_nat n, nh]) = (True, p')"
    unfolding remove_padding_iff using r(3,6,7)
    by - (rule exI [of _ pl], rule exI [of _ n], rule exI [of _ nh], rule exI [of _ ip], simp)
  moreover have "length (pl @ generate_padding n @ [of_nat n, nh]) mod bs = 0" using r(4) by (simp add: add.assoc)
  from esp_decrypt_authentic [OF assms r(2) this r(5)] obtain a where "esp_decrypt ops p ctx =
      (if verify_seqno ctx seq then (case remove_padding (p\<lparr>esp_payload := None\<rparr>) (pl @ generate_padding n @ [of_nat n, nh]) of
         (ok, p') \<Rightarrow> (if ok then SUCCESS else PARSE_ERROR, p', set_authenticated_seqno (ctx\<lparr>aead := a\<rparr>) seq))
       else (VERIFY_ERROR, p\<lparr>esp_payload := None\<rparr>, ctx))" by blast
  ultimately show ?l using r(1) by simp
qed

end

section \<open>Sessions\<close>

text \<open>
  A sender that encrypts the packets it is given, and a receiver that keeps the payloads of the packets that decrypt,
  as the processor of the library does for an SA.
\<close>

primrec esp_send_all :: "(nat \<Rightarrow> byte) \<Rightarrow> 'a aead_ops \<Rightarrow> u32 \<Rightarrow> 'a esp_context \<Rightarrow> ip_packet list \<Rightarrow>
    (chunk list \<times> 'a esp_context) option" where
  "esp_send_all mem ops spi ctx [] = Some ([], ctx)"
| "esp_send_all mem ops spi ctx (ip # ips) =
     (case esp_encrypt mem ops (esp_packet_create_from_payload None None (Some ip)) ctx spi of
        Some (SUCCESS, p, ctx) \<Rightarrow> map_option (\<lambda>(ws, ctx). (esp_get_data p # ws, ctx)) (esp_send_all mem ops spi ctx ips)
      | _ \<Rightarrow> None)"

definition esp_recv :: "'a aead_ops \<Rightarrow> 'a esp_context \<Rightarrow> chunk \<Rightarrow> ip_packet list \<times> 'a esp_context" where
  "esp_recv ops ctx w =
     (case esp_decrypt ops (esp_packet_create_from_packet (packet_create_from_data None None w)) ctx of
        (st, p, ctx) \<Rightarrow> (if st = SUCCESS then case_option [] (\<lambda>ip. [ip]) (fst (extract_payload p)) else [], ctx))"

primrec esp_recv_all :: "'a aead_ops \<Rightarrow> 'a esp_context \<Rightarrow> chunk list \<Rightarrow> ip_packet list" where
  "esp_recv_all ops ctx [] = []"
| "esp_recv_all ops ctx (w # ws) = (case esp_recv ops ctx w of (ips, ctx) \<Rightarrow> ips @ esp_recv_all ops ctx ws)"

definition esp_authentic :: "(chunk \<Rightarrow> chunk \<Rightarrow> chunk \<Rightarrow> chunk) \<Rightarrow> nat \<Rightarrow> chunk \<Rightarrow> bool" where
  "esp_authentic e ivs d \<longleftrightarrow> (\<exists>h iv pt. length h = 8 \<and> length iv = ivs \<and> d = h @ iv @ e pt h iv)"

lemma remove_padding_plaintext:
  assumes "0 < bs" "bs \<le> 128" "ip_packet_create pl = Some ip"
  shows "remove_padding p (esp_plaintext bs ivs pl nh) = (True, p\<lparr>esp_payload := Some ip, esp_next_header := nh\<rparr>)"
  unfolding remove_padding_iff
  by (rule exI [of _ pl], rule exI [of _ "esp_padding bs ivs (length pl)"], rule exI [of _ nh], rule exI [of _ ip])
    (use esp_padding_bounds [OF assms(1), of ivs "length pl"] assms in \<open>simp add: esp_plaintext_def Let_def\<close>)

definition payload_header :: "ip_packet \<Rightarrow> byte" where
  "payload_header ip = (if get_version ip = 4 then IPPROTO_IPIP else IPPROTO_IPV6)"

definition well_formed :: "ip_packet \<Rightarrow> bool" where
  "well_formed ip \<longleftrightarrow> ip_packet_create (get_encoding ip) = Some ip"

context aead_spec
begin

lemma esp_recv_genuine:
  assumes "keyed (aead c) k" "length iv = ivs" "well_formed ip"
    "w = htoun32 s @ htoun32 seq @ iv @ enc k (esp_plaintext bs ivs (get_encoding ip) nh) (htoun32 s @ htoun32 seq) iv"
  obtains a where "keyed a k" "esp_recv ops c w =
    (if verify_seqno c seq then ([ip], (set_authenticated_seqno c seq)\<lparr>aead := a\<rparr>) else ([], c))"
proof -
  let ?p = "esp_packet_create_from_packet (packet_create_from_data None None w)"
  let ?pt = "esp_plaintext bs ivs (get_encoding ip) nh"
  have ip: "ip_packet_create (get_encoding ip) = Some ip" using assms(3) by (simp add: well_formed_def)
  have d: "esp_get_data ?p = w"
    by (simp add: esp_get_data_def esp_packet_create_from_packet_def esp_packet_create_internal_def pkt_defs)
  have "length w = 8 + ivs + length ?pt + icvs" using assms(2,4) length_enc by simp
  then have "length w < 2 ^ 18"
    using small(1,2) length_ip_packet_create [OF ip] esp_padding_bounds [OF bs_bounds(1), of ivs "length (get_encoding ip)"] bs_bounds(2)
    by (simp add: length_esp_plaintext)
  then have "length (esp_get_data ?p) < maxlen" unfolding d using small(3) by linarith
  from esp_decrypt_authentic [OF assms(1) this assms(2) esp_plaintext_aligned(1) [OF bs_bounds(1) align] trans [OF d assms(4)]]
  obtain a where "keyed a k" "esp_decrypt ops ?p c =
      (if verify_seqno c seq then (case remove_padding (?p\<lparr>esp_payload := None\<rparr>) ?pt of
         (ok, p') \<Rightarrow> (if ok then SUCCESS else PARSE_ERROR, p', set_authenticated_seqno (c\<lparr>aead := a\<rparr>) seq))
       else (VERIFY_ERROR, ?p\<lparr>esp_payload := None\<rparr>, c))" by blast
  then show ?thesis
    using remove_padding_plaintext [OF bs_bounds ip]
    by (intro that [of a]) (simp_all add: esp_recv_def extract_payload_def set_authenticated_seqno_aead)
qed

lemma esp_recv_junk:
  assumes "keyed (aead c) k" "length w < maxlen" "\<not> esp_authentic (enc k) ivs w"
  obtains a where "keyed a k" "esp_recv ops c w = ([], c\<lparr>aead := a\<rparr>)"
proof -
  let ?p = "esp_packet_create_from_packet (packet_create_from_data None None w)"
  have d: "esp_get_data ?p = w"
    by (simp add: esp_get_data_def esp_packet_create_from_packet_def esp_packet_create_internal_def pkt_defs)
  have l: "length (esp_get_data ?p) < maxlen" using assms(2) d by simp
  from assms(1) l show ?thesis
  proof (cases rule: esp_decrypt_cases)
    case (authentic s seq iv pt a)
    then have "esp_authentic (enc k) ivs w"
      unfolding esp_authentic_def d by - (rule exI [of _ "htoun32 s @ htoun32 seq"], rule exI [of _ iv], rule exI [of _ pt], simp)
    then show ?thesis using assms(3) by simp
  next
    case (forged s seq iv icv c' a)
    then show ?thesis using that by (simp add: esp_recv_def)
  qed (use that [OF assms(1)] in \<open>simp_all add: esp_recv_def\<close>)
qed

end

definition esp_genuine :: "(chunk \<Rightarrow> chunk \<Rightarrow> chunk \<Rightarrow> chunk) \<Rightarrow> nat \<Rightarrow> nat \<Rightarrow> u32 \<Rightarrow> u32 \<Rightarrow> ip_packet \<Rightarrow> chunk \<Rightarrow> bool" where
  "esp_genuine e bs ivs spi seq ip w \<longleftrightarrow> (\<exists>iv. length iv = ivs \<and>
     w = esp_header spi seq @ iv @ e (esp_plaintext bs ivs (get_encoding ip) (payload_header ip)) (esp_header spi seq) iv)"

text \<open>
  What a network may deliver: packets that were sent, by their position, in any order and any number, and others that
  are not encryptions under the key.
\<close>

type_synonym delivery = "(nat + chunk) list"

definition delivered :: "chunk list \<Rightarrow> delivery \<Rightarrow> chunk list" where
  "delivered ws = map (case_sum (\<lambda>j. ws ! j) id)"

definition sent_seqnos :: "delivery \<Rightarrow> (u32 \<times> bool) list" where
  "sent_seqnos xs = [(of_nat (Suc j), True). Inl j \<leftarrow> xs]"

lemma receive_in_order:
  assumes "n < 2 ^ 32"
  shows "snd (receive_all (esp_context_init b True) (sent_seqnos (map Inl [0..<n]))) = rev (map (\<lambda>j. of_nat (Suc j)) [0..<n]) \<and>
    inbound (fst (receive_all (esp_context_init b True) (sent_seqnos (map Inl [0..<n])))) \<and>
    last_seqno (fst (receive_all (esp_context_init b True) (sent_seqnos (map Inl [0..<n])))) = of_nat n"
  using assms
proof (induction n)
  case (Suc n)
  obtain c acc where r: "receive_all (esp_context_init b True) (sent_seqnos (map Inl [0..<n])) = (c, acc)" by fastforce
  then have i: "inbound c" "last_seqno c = of_nat n" "acc = rev (map (\<lambda>j. of_nat (Suc j)) [0..<n])" using Suc by auto
  have "last_seqno c < (of_nat (Suc n) :: u32)"
    using i(2) Suc.prems by (simp add: word_less_nat_alt unat_of_nat_small del: of_nat_Suc)
  moreover from this have "inbound (set_authenticated_seqno c (of_nat (Suc n)))" "last_seqno (set_authenticated_seqno c (of_nat (Suc n))) = of_nat (Suc n)"
    using i(1) by (simp_all add: set_authenticated_seqno_def Let_def del: of_nat_Suc)
  moreover have "receive_all (esp_context_init b True) (sent_seqnos (map Inl [0..<Suc n])) = accept_seqno (c, acc) (of_nat (Suc n), True)"
    using r by (simp add: receive_all_def sent_seqnos_def del: of_nat_Suc)
  ultimately show ?case
    using i by (simp add: accept_seqno_def verify_seqno_def del: of_nat_Suc)
qed (simp add: receive_all_def sent_seqnos_def esp_context_init_def)

context aead_spec
begin

lemma esp_send_all_ok:
  assumes "keyed (aead ctx) k" "can_iv (aead ctx) (unat (last_seqno ctx))" "\<not> inbound ctx"
    "unat (last_seqno ctx) + length ips < 2 ^ 32" "list_all well_formed ips"
  shows "\<exists>ws ctx'. esp_send_all mem ops spi ctx ips = Some (ws, ctx') \<and> length ws = length ips \<and>
    (\<forall>j < length ips. esp_genuine (enc k) bs ivs spi (last_seqno ctx + of_nat (Suc j)) (ips ! j) (ws ! j))"
  using assms
proof (induction ips arbitrary: ctx)
  case (Cons ip ips)
  let ?seq = "last_seqno ctx + 1" and ?ctx = "ctx\<lparr>last_seqno := last_seqno ctx + 1\<rparr>"
  let ?p = "esp_packet_create_from_payload None None (Some ip)"
  have small': "unat (last_seqno ctx) + 1 < 2 ^ 32" using Cons.prems(4) by simp
  then have u: "unat ?seq = unat (last_seqno ctx) + 1" by (simp add: unat_word_ariths)
  have ne: "last_seqno ctx \<noteq> 0xffffffff" using small' by auto
  have n: "next_seqno ctx = Some (?seq, ?ctx)" using Cons.prems(3) ne by (simp add: next_seqno_def)
  have pl: "encoded_payload ?p = get_encoding ip" "esp_next_header ?p = payload_header ip"
    by (simp_all add: esp_packet_create_from_payload_def encoded_payload_def payload_header_def Let_def)
  have "ip_packet_create (get_encoding ip) = Some ip" using Cons.prems(5) by (simp add: well_formed_def)
  then have "length (get_encoding ip) + 133 < maxlen" using length_ip_packet_create [of "get_encoding ip" ip] small(3) by simp
  then obtain iv a where e: "length iv = ivs" "keyed a k" "can_iv a (unat ?seq)"
      "esp_encrypt mem ops ?p ctx spi = Some (SUCCESS, esp_set_data (esp_set_data ?p []) (esp_header spi ?seq @ iv @
        enc k (esp_plaintext bs ivs (get_encoding ip) (payload_header ip)) (esp_header spi ?seq) iv), ?ctx\<lparr>aead := a\<rparr>)"
    using esp_encrypt_ok [OF Cons.prems(1,2) n, of ?p mem spi] u pl by auto
  let ?ctx' = "?ctx\<lparr>aead := a\<rparr>"
  have "unat (last_seqno ?ctx') + length ips < 2 ^ 32" using Cons.prems(4) u by simp
  then obtain ws ctx' where ws: "esp_send_all mem ops spi ?ctx' ips = Some (ws, ctx')" "length ws = length ips"
      "\<forall>j < length ips. esp_genuine (enc k) bs ivs spi (?seq + of_nat (Suc j)) (ips ! j) (ws ! j)"
    using Cons.IH [of ?ctx'] e(2,3) Cons.prems(3,5) by auto
  let ?w = "esp_header spi ?seq @ iv @ enc k (esp_plaintext bs ivs (get_encoding ip) (payload_header ip)) (esp_header spi ?seq) iv"
  have "esp_send_all mem ops spi ctx (ip # ips) = Some (?w # ws, ctx')"
    using e(4) ws(1) by (simp add: esp_get_data_def esp_set_data_def)
  moreover have "esp_genuine (enc k) bs ivs spi (last_seqno ctx + of_nat (Suc 0)) ip ?w"
    using e(1) by (auto simp: esp_genuine_def)
  moreover have "esp_genuine (enc k) bs ivs spi (last_seqno ctx + of_nat (Suc j)) ((ip # ips) ! j) ((?w # ws) ! j)"
    if "j < length (ip # ips)" for j
    using that ws(3) calculation(2) by (cases j) (simp_all add: add.assoc)
  ultimately show ?case using ws(2) by auto
qed simp

end

context aead_spec
begin

lemma esp_recv_all_delivered:
  assumes "keyed (aead c) k" "length ips < 2 ^ 32" "list_all well_formed ips"
    "\<forall>j < length ips. esp_genuine (enc k) bs ivs spi (of_nat (Suc j)) (ips ! j) (ws ! j)"
    "\<forall>x \<in> set xs. case x of Inl j \<Rightarrow> j < length ips | Inr d \<Rightarrow> length d < maxlen \<and> \<not> esp_authentic (enc k) ivs d"
  shows "esp_recv_all ops c (delivered ws xs) =
    map (\<lambda>s. ips ! (unat s - 1)) (rev (snd (receive_all c (sent_seqnos xs))))"
  using assms(1,5)
proof (induction xs arbitrary: c)
  case Nil
  then show ?case by (simp add: delivered_def sent_seqnos_def receive_all_def)
next
  case (Cons x xs)
  show ?case
  proof (cases x)
    case (Inl j)
    let ?s = "of_nat (Suc j) :: u32"
    have j: "j < length ips" using Cons.prems(2) Inl by simp
    then have u: "unat ?s - 1 = j" using assms(2) by (simp add: unat_of_nat_small del: of_nat_Suc)
    have wf: "well_formed (ips ! j)" using assms(3) j by (simp add: list_all_length)
    obtain iv where iv: "length iv = ivs" "ws ! j = htoun32 (ntohl spi) @ htoun32 ?s @ iv @
        enc k (esp_plaintext bs ivs (get_encoding (ips ! j)) (payload_header (ips ! j))) (htoun32 (ntohl spi) @ htoun32 ?s) iv"
      using assms(4) j by (auto simp: esp_genuine_def esp_header_def)
    obtain a where a: "keyed a k" "esp_recv ops c (ws ! j) =
        (if verify_seqno c ?s then ([ips ! j], (set_authenticated_seqno c ?s)\<lparr>aead := a\<rparr>) else ([], c))"
      by (rule esp_recv_genuine [OF Cons.prems(1) iv(1) wf iv(2)])
    have s: "sent_seqnos (x # xs) = (?s, True) # sent_seqnos xs" by (simp add: sent_seqnos_def Inl)
    have d: "delivered ws (x # xs) = ws ! j # delivered ws xs" by (simp add: delivered_def Inl)
    show ?thesis
    proof (cases "verify_seqno c ?s")
      case True
      let ?c = "set_authenticated_seqno c ?s"
      have "snd (receive_all c (sent_seqnos (x # xs))) = snd (receive_all (?c\<lparr>aead := a\<rparr>) (sent_seqnos xs)) @ [?s]"
        using accept_seqno_acc [of ?c "[?s]" "sent_seqnos xs"] accept_seqno_aead [of a ?c "[]"] True
        by (simp add: receive_all_def s accept_seqno_def del: of_nat_Suc)
      then show ?thesis
        using Cons.IH [of "?c\<lparr>aead := a\<rparr>"] Cons.prems(2) a True d u by (simp del: of_nat_Suc)
    next
      case False
      then show ?thesis
        using Cons.IH [of c] Cons.prems a d by (simp add: receive_all_def s accept_seqno_def del: of_nat_Suc)
    qed
  next
    case (Inr w)
    then obtain a where a: "keyed a k" "esp_recv ops c w = ([], c\<lparr>aead := a\<rparr>)"
      using Cons.prems(2) by (auto intro: esp_recv_junk [OF Cons.prems(1), of w])
    moreover have "sent_seqnos (x # xs) = sent_seqnos xs" "delivered ws (x # xs) = w # delivered ws xs"
      by (simp_all add: sent_seqnos_def delivered_def Inr)
    ultimately show ?thesis
      using Cons.IH [of "c\<lparr>aead := a\<rparr>"] Cons.prems(2) accept_seqno_aead [of a c "[]" "sent_seqnos xs"]
      by (simp add: receive_all_def)
  qed
qed

end

section \<open>An example\<close>

definition example_bytes :: chunk where
  "example_bytes = [0x45, 0, 0, 20, 0, 0, 0, 0, 64, 59, 0, 0, 10, 0, 0, 1, 10, 0, 0, 2]"

definition example_ip :: ip_packet where
  "example_ip = \<lparr>src = \<lparr>sa_family = AF_INET, sin_addr = [10, 0, 0, 1], sin_port = 0\<rparr>,
     dst = \<lparr>sa_family = AF_INET, sin_addr = [10, 0, 0, 2], sin_port = 0\<rparr>, packet = example_bytes, payload = [],
     version = 4, next_header = 59\<rparr>"

lemma example_ip_create: "ip_packet_create example_bytes = Some example_ip"
proof -
  have "htons 0 = 0" by (simp add: htons_def htoun16_def untoh16_def numeral_2_eq_2)
  then show ?thesis
    by (simp add: ip_packet_create_def example_bytes_def example_ip_def Let_def untoh16_def chunk_skip_def
        parse_transport_header_def IPPROTO_UDP_def IPPROTO_TCP_def host_create_from_chunk_def IPV4_LEN_def)
qed

lemma well_formed_example: "well_formed example_ip"
  using example_ip_create by (simp add: well_formed_def get_encoding_def example_ip_def)

lemma chapoly_example_ok: "chapoly_keyed chapoly_example (replicate 36 5)" "chapoly_can_iv chapoly_example 0"
  using keyed_example
  by (simp_all add: chapoly_keyed_def chapoly_can_iv_def chapoly_example_def chapoly_set_key_def chapoly_aead_create_def
      iv_gen_seq_create_def CHACHA_KEY_SIZE_def CHACHA_SALT_SIZE_def split: prod.splits)

section \<open>The properties\<close>

text \<open>
  C24.  Acceptance, exactly: a packet decrypts with \<open>SUCCESS\<close> if and only if it is a header, an IV and the
  encryption under the key, with the header as associated data, of a payload that parses as an IP packet, at most 255
  bytes of padding with the expected content, the length of the padding and the next header, and the sequence number of the
  header passes the anti-replay check; the result carries that payload.
\<close>

theorem esp_decrypt_accepts_iff:
  assumes "chapoly_keyed (aead ctx) key" "length (esp_get_data p) < 2 ^ 32"
  shows "(\<exists>ctx'. esp_decrypt chapoly_ops p ctx = (SUCCESS, p', ctx')) \<longleftrightarrow> (\<exists>s seq iv pl n nh ip. verify_seqno ctx seq \<and>
    length iv = 8 \<and> n < 256 \<and> esp_get_data p = htoun32 s @ htoun32 seq @ iv @
      chapoly_enc key (pl @ generate_padding n @ [of_nat n, nh]) (htoun32 s @ htoun32 seq) iv \<and>
    ip_packet_create pl = Some ip \<and> p' = p\<lparr>esp_payload := Some ip, esp_next_header := nh\<rparr>)"
  unfolding chapoly.esp_accepts_iff [OF assms] by (simp only: mod_by_1 Suc_eq_plus1 simp_thms)

theorem esp_decrypt_accepts_iff_witness:
  "\<exists>ctx'. esp_decrypt chapoly_ops (esp_packet_create_from_packet (packet_create_from_data None None
      (htoun32 1 @ htoun32 7 @ replicate 8 0 @ chapoly_enc (replicate 36 5) (example_bytes @ [1, 2, 2, 4]) (htoun32 1 @ htoun32 7) (replicate 8 0))))
    (esp_context_init chapoly_example True) =
    (SUCCESS, (esp_packet_create_from_packet (packet_create_from_data None None
      (htoun32 1 @ htoun32 7 @ replicate 8 0 @ chapoly_enc (replicate 36 5) (example_bytes @ [1, 2, 2, 4]) (htoun32 1 @ htoun32 7) (replicate 8 0))))
      \<lparr>esp_payload := Some example_ip, esp_next_header := 4\<rparr>, ctx')"
proof (rule esp_decrypt_accepts_iff [THEN iffD2])
  let ?w = "htoun32 1 @ htoun32 7 @ replicate 8 0 @ chapoly_enc (replicate 36 5) (example_bytes @ [1, 2, 2, 4]) (htoun32 1 @ htoun32 7) (replicate 8 0)"
  let ?p = "esp_packet_create_from_packet (packet_create_from_data None None ?w)"
  have d: "esp_get_data ?p = ?w"
    by (simp add: esp_get_data_def esp_packet_create_from_packet_def esp_packet_create_internal_def pkt_defs)
  show "length (esp_get_data ?p) < 2 ^ 32" unfolding d by (simp add: chapoly.length_enc example_bytes_def)
  have "generate_padding 2 = [1, 2]" by (simp add: generate_padding_def upt_rec)
  then show "\<exists>s seq iv pl n nh ip. verify_seqno (esp_context_init chapoly_example True) seq \<and> length iv = 8 \<and> n < 256 \<and>
      esp_get_data ?p = htoun32 s @ htoun32 seq @ iv @ chapoly_enc (replicate 36 5) (pl @ generate_padding n @ [of_nat n, nh]) (htoun32 s @ htoun32 seq) iv \<and>
      ip_packet_create pl = Some ip \<and> ?p\<lparr>esp_payload := Some example_ip, esp_next_header := 4\<rparr> = ?p\<lparr>esp_payload := Some ip, esp_next_header := nh\<rparr>"
    unfolding d
    by - (rule exI [of _ 1], rule exI [of _ 7], rule exI [of _ "replicate 8 0"], rule exI [of _ example_bytes], rule exI [of _ 2],
        rule exI [of _ 4], rule exI [of _ example_ip], simp add: example_ip_create verify_seqno_def esp_context_init_def)
qed (simp add: esp_context_init_def chapoly_example_ok)

text \<open>
  C25.  Errors: a packet that is not an encryption under the key is refused, whatever it contains, without a payload,
  and the replay window, the highest sequence number and the key stay as they were.
\<close>

theorem esp_decrypt_refuses_forgeries:
  assumes "chapoly_keyed (aead ctx) key" "length (esp_get_data p) < 2 ^ 32" "\<not> esp_authentic (chapoly_enc key) 8 (esp_get_data p)"
  shows "\<exists>st a. esp_decrypt chapoly_ops p ctx = (st, p\<lparr>esp_payload := None\<rparr>, ctx\<lparr>aead := a\<rparr>) \<and>
    st \<in> {PARSE_ERROR, VERIFY_ERROR, FAILED} \<and> chapoly_keyed a key"
  using assms(1,2)
proof (cases rule: chapoly.esp_decrypt_cases)
  case (authentic s seq iv pt a)
  then have "esp_authentic (chapoly_enc key) 8 (esp_get_data p)"
    unfolding esp_authentic_def by - (rule exI [of _ "htoun32 s @ htoun32 seq"], rule exI [of _ iv], rule exI [of _ pt], simp)
  then show ?thesis using assms(3) by simp
qed (use assms(1) in \<open>auto intro: exI [of _ "aead ctx"]\<close>)

theorem esp_decrypt_refuses_forgeries_witness:
  "\<exists>st a. esp_decrypt chapoly_ops (esp_packet_create_from_packet (packet_create_from_data None None [1, 2, 3])) (esp_context_init chapoly_example True) =
      (st, (esp_packet_create_from_packet (packet_create_from_data None None [1, 2, 3]))\<lparr>esp_payload := None\<rparr>, (esp_context_init chapoly_example True)\<lparr>aead := a\<rparr>) \<and>
    st \<in> {PARSE_ERROR, VERIFY_ERROR, FAILED} \<and> chapoly_keyed a (replicate 36 5)"
  by (rule esp_decrypt_refuses_forgeries)
    (auto simp: esp_context_init_def chapoly_example_ok esp_authentic_def esp_get_data_def esp_packet_create_from_packet_def
      esp_packet_create_internal_def pkt_defs dest!: arg_cong [where f = length])

text \<open>
  C26.  Sessions: the sender of fewer than \<open>2 ^ 32\<close> well-formed IP packets encrypts all of them, and whatever
  the network delivers, the sent packets in any order, repeated or dropped, among packets that are not encryptions under the
  key, the receiver hands out the payloads of exactly the packets whose numbers the anti-replay check accepts, in
  the order they arrive, unchanged.
\<close>

theorem esp_session:
  assumes "chapoly_keyed a key" "chapoly_can_iv a 0" "chapoly_keyed b key" "length ips < 2 ^ 32" "list_all well_formed ips"
  shows "\<exists>ws ctx. esp_send_all mem chapoly_ops spi (esp_context_init a False) ips = Some (ws, ctx) \<and> length ws = length ips \<and>
    (\<forall>xs. (\<forall>x \<in> set xs. case x of Inl j \<Rightarrow> j < length ips | Inr d \<Rightarrow> length d < 2 ^ 32 \<and> \<not> esp_authentic (chapoly_enc key) 8 d) \<longrightarrow>
      esp_recv_all chapoly_ops (esp_context_init b True) (delivered ws xs) =
        map (\<lambda>s. ips ! (unat s - 1)) (rev (snd (receive_all (esp_context_init b True) (sent_seqnos xs)))))"
proof -
  obtain ws ctx where ws: "esp_send_all mem chapoly_ops spi (esp_context_init a False) ips = Some (ws, ctx)" "length ws = length ips"
      "\<forall>j < length ips. esp_genuine (chapoly_enc key) 1 8 spi (of_nat (Suc j)) (ips ! j) (ws ! j)"
    using chapoly.esp_send_all_ok [of "esp_context_init a False" key ips mem spi] assms by (auto simp: esp_context_init_def)
  have "chapoly_keyed (aead (esp_context_init b True)) key" using assms(3) by (simp add: esp_context_init_def)
  from chapoly.esp_recv_all_delivered [OF this assms(4,5) ws(3)] ws(1,2) show ?thesis by blast
qed

theorem esp_session_witness:
  "\<exists>ws ctx. esp_send_all (\<lambda>_. 0) chapoly_ops 5 (esp_context_init chapoly_example False) [example_ip] = Some (ws, ctx) \<and>
    esp_recv_all chapoly_ops (esp_context_init chapoly_example True) (delivered ws [Inl 0, Inr [], Inl 0]) =
      map (\<lambda>s. [example_ip] ! (unat s - 1)) (rev (snd (receive_all (esp_context_init chapoly_example True) (sent_seqnos [Inl 0, Inr [], Inl 0]))))"
proof -
  have "list_all well_formed [example_ip]" "\<not> esp_authentic (chapoly_enc (replicate 36 5)) 8 []"
    using well_formed_example by (simp_all add: esp_authentic_def)
  then show ?thesis
    using esp_session [OF chapoly_example_ok(1,2,1), of "[example_ip]" "\<lambda>_. 0" 5] by fastforce
qed

text \<open>
  C27.  Delivery: over a network that neither loses nor reorders packets, the receiver hands out exactly the packets
  that were sent, all of them, in order.
\<close>

theorem esp_session_in_order:
  assumes "chapoly_keyed a key" "chapoly_can_iv a 0" "chapoly_keyed b key" "length ips < 2 ^ 32" "list_all well_formed ips"
  shows "\<exists>ws ctx. esp_send_all mem chapoly_ops spi (esp_context_init a False) ips = Some (ws, ctx) \<and>
    esp_recv_all chapoly_ops (esp_context_init b True) ws = ips"
proof -
  obtain ws ctx where ws: "esp_send_all mem chapoly_ops spi (esp_context_init a False) ips = Some (ws, ctx)" "length ws = length ips"
      "\<forall>j < length ips. esp_genuine (chapoly_enc key) 1 8 spi (of_nat (Suc j)) (ips ! j) (ws ! j)"
    using chapoly.esp_send_all_ok [of "esp_context_init a False" key ips mem spi] assms by (auto simp: esp_context_init_def)
  have "chapoly_keyed (aead (esp_context_init b True)) key" using assms(3) by (simp add: esp_context_init_def)
  from chapoly.esp_recv_all_delivered [OF this assms(4,5) ws(3), of "map Inl [0..<length ips]"]
  have "esp_recv_all chapoly_ops (esp_context_init b True) (delivered ws (map Inl [0..<length ips])) =
      map (\<lambda>s. ips ! (unat s - 1)) (map (\<lambda>j. of_nat (Suc j) :: u32) [0..<length ips])"
    using receive_in_order [OF assms(4), of b] by auto
  moreover have "map (\<lambda>s. ips ! (unat s - 1)) (map (\<lambda>j. of_nat (Suc j) :: u32) [0..<length ips]) = map (\<lambda>j. ips ! j) [0..<length ips]"
    using assms(4) by (simp add: unat_of_nat_small del: of_nat_Suc)
  moreover have "delivered ws (map Inl [0..<length ips]) = ws"
    using map_nth [of ws] ws(2) by (simp add: delivered_def comp_def)
  ultimately have "esp_recv_all chapoly_ops (esp_context_init b True) ws = ips" by (simp add: map_nth)
  with ws(1) show ?thesis by blast
qed

theorem esp_session_in_order_witness:
  "\<exists>ws ctx. esp_send_all (\<lambda>_. 0) chapoly_ops 5 (esp_context_init chapoly_example False) [example_ip, example_ip] = Some (ws, ctx) \<and>
    esp_recv_all chapoly_ops (esp_context_init chapoly_example True) ws = [example_ip, example_ip]"
  by (rule esp_session_in_order [OF chapoly_example_ok(1,2,1)]) (simp_all add: well_formed_example)

end
