(* ===== verification/Esp_Create.thy ===== *)
theory Esp_Create
  imports Esp_Packet
begin

text \<open>
  The creation of ESP contexts, \<open>esp_context_create\<close> of \<open>libipsec/esp_context.c\<close>: the choice between an AEAD
  algorithm and the combination of an encryption and an integrity algorithm.

  The algorithms come from the plugins registered with the crypto factory \<open>lib->crypto\<close>, which is a parameter: a
  record of its constructors and of the methods of the objects they return.
\<close>

section \<open>The crypto factory\<close>

text \<open>An integrity algorithm is only passed on, by its number.\<close>

type_synonym integrity_algorithm_t = u16

record ('n, 'c, 's, 'r) crypto =
  aead_methods :: "'n aead_ops"
  aead_set_key :: "'n \<Rightarrow> chunk \<Rightarrow> bool \<times> 'n"
  create_aead_alg :: "encryption_algorithm_t \<Rightarrow> u64 \<Rightarrow> u64 \<Rightarrow> 'n option"
  crypter_methods :: "'c crypter_ops"
  create_crypter :: "encryption_algorithm_t \<Rightarrow> u64 \<Rightarrow> 'c option"
  signer_methods :: "'s signer_ops"
  create_signer :: "integrity_algorithm_t \<Rightarrow> 's option"
  rng_get_bytes :: "'r \<Rightarrow> nat \<Rightarrow> chunk option \<times> 'r"
  rng_weak :: "'r option"
  rng_strong :: "chunk option"

text \<open>The object of a context is of one of two classes; a call goes to the methods of its class.\<close>

datatype ('n, 'c, 's, 'r) esp_aead = Native 'n | Traditional "('c, 's, 'r) trad_aead"

definition esp_aead_ops :: "('n, 'c, 's, 'r) crypto \<Rightarrow> ('n, 'c, 's, 'r) esp_aead aead_ops" where
  "esp_aead_ops cr =
     (let nat_ops = aead_methods cr; tr_ops = trad_ops (crypter_methods cr) (signer_methods cr) (rng_get_bytes cr) in
      \<lparr>op_encrypt = (\<lambda>a p assoc iv. case a of
           Native n \<Rightarrow> map_prod id Native (op_encrypt nat_ops n p assoc iv)
         | Traditional t \<Rightarrow> map_prod id Traditional (op_encrypt tr_ops t p assoc iv)),
       op_decrypt = (\<lambda>a c assoc iv. case a of
           Native n \<Rightarrow> map_prod id Native (op_decrypt nat_ops n c assoc iv)
         | Traditional t \<Rightarrow> map_prod id Traditional (op_decrypt tr_ops t c assoc iv)),
       op_block_size = case_esp_aead (op_block_size nat_ops) (op_block_size tr_ops),
       op_icv_size = case_esp_aead (op_icv_size nat_ops) (op_icv_size tr_ops),
       op_iv_size = case_esp_aead (op_iv_size nat_ops) (op_iv_size tr_ops),
       op_iv_gen = (\<lambda>a. case a of
           Native n \<Rightarrow> map_option (\<lambda>g seq len. map_prod id Native (g seq len)) (op_iv_gen nat_ops n)
         | Traditional t \<Rightarrow> map_option (\<lambda>g seq len. map_prod id Traditional (g seq len)) (op_iv_gen tr_ops t))\<rparr>)"

section \<open>Creation\<close>

definition encryption_algorithm_is_aead :: "encryption_algorithm_t \<Rightarrow> bool" where
  "encryption_algorithm_is_aead alg \<longleftrightarrow> alg \<in>
     {ENCR_AES_CCM_ICV8, ENCR_AES_CCM_ICV12, ENCR_AES_CCM_ICV16, ENCR_AES_GCM_ICV8, ENCR_AES_GCM_ICV12,
      ENCR_AES_GCM_ICV16, ENCR_NULL_AUTH_AES_GMAC, ENCR_CAMELLIA_CCM_ICV8, ENCR_CAMELLIA_CCM_ICV12,
      ENCR_CAMELLIA_CCM_ICV16, ENCR_CHACHA20_POLY1305}"

text \<open>The size of the salt at the end of a key; the size of the key without it is computed in \<open>size_t\<close>.\<close>

definition aead_salt :: "encryption_algorithm_t \<Rightarrow> u64" where
  "aead_salt alg =
     (if alg \<in> {ENCR_AES_GCM_ICV8, ENCR_AES_GCM_ICV12, ENCR_AES_GCM_ICV16, ENCR_CHACHA20_POLY1305} then 4
      else if alg \<in> {ENCR_AES_CCM_ICV8, ENCR_AES_CCM_ICV12, ENCR_AES_CCM_ICV16, ENCR_CAMELLIA_CCM_ICV8,
        ENCR_CAMELLIA_CCM_ICV12, ENCR_CAMELLIA_CCM_ICV16} then 3
      else 0)"

definition create_aead :: "('n, 'c, 's, 'r) crypto \<Rightarrow> encryption_algorithm_t \<Rightarrow> chunk \<Rightarrow> ('n, 'c, 's, 'r) esp_aead option" where
  "create_aead cr alg key =
     (let salt = aead_salt alg
      in case (if salt \<noteq> 0 then create_aead_alg cr alg (of_nat (length key) - salt) salt else None) of
           None \<Rightarrow> None
         | Some a \<Rightarrow> let (ok, a) = aead_set_key cr a key in if \<not> ok then None else Some (Native a))"

definition create_traditional :: "('n, 'c, 's, 'r) crypto \<Rightarrow> encryption_algorithm_t \<Rightarrow> chunk \<Rightarrow> integrity_algorithm_t \<Rightarrow> chunk \<Rightarrow>
    ('n, 'c, 's, 'r) esp_aead option" where
  "create_traditional cr enc_alg enc_key int_alg int_key =
     (case (if enc_alg \<in> {ENCR_AES_CTR, ENCR_CAMELLIA_CTR} then create_crypter cr enc_alg (of_nat (length enc_key) - 4)
            else create_crypter cr enc_alg (of_nat (length enc_key))) of
        None \<Rightarrow> None
      | Some c \<Rightarrow>
          let (ok, c) = crypter_set_key (crypter_methods cr) c enc_key in
          if \<not> ok then None
          else (case create_signer cr int_alg of
              None \<Rightarrow> None
            | Some s \<Rightarrow>
                let (ok, s) = signer_set_key (signer_methods cr) s int_key in
                if \<not> ok then None
                else (case iv_gen_create_for_alg (rng_strong cr) (rng_weak cr) enc_alg of
                    None \<Rightarrow> None
                  | Some g \<Rightarrow> Some (Traditional (aead_create c s g)))))"

definition esp_context_create :: "('n, 'c, 's, 'r) crypto \<Rightarrow> encryption_algorithm_t \<Rightarrow> chunk \<Rightarrow> integrity_algorithm_t \<Rightarrow> chunk \<Rightarrow>
    bool \<Rightarrow> ('n, 'c, 's, 'r) esp_aead esp_context option" where
  "esp_context_create cr enc_alg enc_key int_alg int_key inb =
     (case (if encryption_algorithm_is_aead enc_alg then create_aead cr enc_alg enc_key
            else create_traditional cr enc_alg enc_key int_alg int_key) of
        None \<Rightarrow> None
      | Some a \<Rightarrow> Some (esp_context_init a inb))"

section \<open>The plugin for ChaCha20-Poly1305\<close>

text \<open>A factory whose AEAD algorithms are those of the \<open>chapoly\<close> plugin.\<close>

definition chapoly_crypto :: "chunk option \<Rightarrow> 'c crypter_ops \<Rightarrow> (encryption_algorithm_t \<Rightarrow> u64 \<Rightarrow> 'c option) \<Rightarrow> 's signer_ops \<Rightarrow>
    (integrity_algorithm_t \<Rightarrow> 's option) \<Rightarrow> ('r \<Rightarrow> nat \<Rightarrow> chunk option \<times> 'r) \<Rightarrow> 'r option \<Rightarrow> (chapoly_aead, 'c, 's, 'r) crypto" where
  "chapoly_crypto salt cops cc sops cs get_bytes rng =
     \<lparr>aead_methods = chapoly_ops, aead_set_key = chapoly_set_key,
      create_aead_alg = (\<lambda>alg k s. chapoly_aead_create salt alg (unat k) (unat s)),
      crypter_methods = cops, create_crypter = cc, signer_methods = sops, create_signer = cs,
      rng_get_bytes = get_bytes, rng_weak = rng, rng_strong = salt\<rparr>"

definition native_keyed :: "('n \<Rightarrow> 'k \<Rightarrow> bool) \<Rightarrow> ('n, 'c, 's, 'r) esp_aead \<Rightarrow> 'k \<Rightarrow> bool" where
  "native_keyed kd a k = (case a of Native n \<Rightarrow> kd n k | Traditional t \<Rightarrow> False)"

definition native_can_iv :: "('n \<Rightarrow> nat \<Rightarrow> bool) \<Rightarrow> ('n, 'c, 's, 'r) esp_aead \<Rightarrow> nat \<Rightarrow> bool" where
  "native_can_iv can a n = (case a of Native x \<Rightarrow> can x n | Traditional t \<Rightarrow> False)"

definition native_gen :: "('n \<Rightarrow> u64 \<Rightarrow> nat \<Rightarrow> chunk option \<times> 'n) \<Rightarrow> ('n, 'c, 's, 'r) esp_aead \<Rightarrow> u64 \<Rightarrow> nat \<Rightarrow>
    chunk option \<times> ('n, 'c, 's, 'r) esp_aead" where
  "native_gen g a seq len = (case a of Native n \<Rightarrow> map_prod id Native (g n seq len) | Traditional t \<Rightarrow> (None, a))"

text \<open>The objects of a plugin satisfy the interface of the packet layer through the dispatch.\<close>

lemma native_aead_spec:
  fixes cr :: "('n, 'c, 's, 'r) crypto"
  assumes "aead_spec (aead_methods cr) g kd can enc bs icvs ivs maxlen"
  shows "aead_spec (esp_aead_ops cr) (native_gen g) (native_keyed kd) (native_can_iv can) enc bs icvs ivs maxlen"
proof -
  note dispatch = native_keyed_def native_can_iv_def native_gen_def esp_aead_ops_def Let_def
  note sp = aead_spec.bs_bounds [OF assms] aead_spec.align [OF assms] aead_spec.small [OF assms] aead_spec.length_enc [OF assms]
  have ex: "\<exists>n. a = Native n \<and> kd n k" if "native_keyed kd a k" for a :: "('n, 'c, 's, 'r) esp_aead" and k
    using that by (cases a) (simp_all add: native_keyed_def)
  show ?thesis
  proof
    fix a :: "('n, 'c, 's, 'r) esp_aead" and k n and seq :: u64
    assume *: "native_keyed kd a k" "native_can_iv can a n" "n < unat seq" "unat seq < 2 ^ 32"
    then obtain x where a: "a = Native x" "kd x k" "can x n" using ex [OF *(1)] by (auto simp: native_can_iv_def)
    obtain iv x' where "g x seq ivs = (Some iv, x')" "length iv = ivs" "kd x' k" "can x' (unat seq)"
      using aead_spec.gen_ok [OF assms a(2,3) *(3,4)] by blast
    then show "\<exists>iv a'. native_gen g a seq ivs = (Some iv, a') \<and> length iv = ivs \<and> native_keyed kd a' k \<and> native_can_iv can a' (unat seq)"
      by (simp add: dispatch a(1))
  next
    fix a :: "('n, 'c, 's, 'r) esp_aead" and k n and iv p assoc :: chunk
    assume *: "native_keyed kd a k" "native_can_iv can a n" "length iv = ivs" "length p mod bs = 0" "length p < maxlen" "length assoc < maxlen"
    then obtain x where a: "a = Native x" "kd x k" "can x n" using ex [OF *(1)] by (auto simp: native_can_iv_def)
    obtain x' where "op_encrypt (aead_methods cr) x p assoc iv = (Some (enc k p assoc iv), x')" "kd x' k" "can x' n"
      using aead_spec.encrypt_ok [OF assms a(2,3) *(3-6)] by blast
    then show "\<exists>a'. op_encrypt (esp_aead_ops cr) a p assoc iv = (Some (enc k p assoc iv), a') \<and> native_keyed kd a' k \<and> native_can_iv can a' n"
      by (simp add: dispatch a(1))
  next
    fix a :: "('n, 'c, 's, 'r) esp_aead" and k and iv c assoc :: chunk
    assume *: "native_keyed kd a k" "length iv = ivs" "length c < maxlen" "length assoc < maxlen"
    then obtain x where a: "a = Native x" "kd x k" using ex by blast
    obtain r x' where "op_decrypt (aead_methods cr) x c assoc iv = (r, x')" "kd x' k" "\<forall>p. r = Some p \<longleftrightarrow> c = enc k p assoc iv"
      using aead_spec.decrypt_ok [OF assms a(2) *(2-4)] by blast
    then show "\<exists>r a'. op_decrypt (esp_aead_ops cr) a c assoc iv = (r, a') \<and> native_keyed kd a' k \<and> (\<forall>p. r = Some p \<longleftrightarrow> c = enc k p assoc iv)"
      by (simp add: dispatch a(1))
  next
    fix a :: "('n, 'c, 's, 'r) esp_aead" and k
    assume "native_keyed kd a k"
    then obtain x where a: "a = Native x" "kd x k" using ex by blast
    show "op_block_size (esp_aead_ops cr) a = bs \<and> op_icv_size (esp_aead_ops cr) a = icvs \<and> op_iv_size (esp_aead_ops cr) a = ivs"
      using aead_spec.sizes [OF assms a(2)] by (simp add: dispatch a(1))
    show "op_iv_gen (esp_aead_ops cr) a = Some (native_gen g a)"
      using aead_spec.iv_gen [OF assms a(2)] by (simp add: dispatch a(1) fun_eq_iff)
  qed (fact sp)+
qed

interpretation esp_chapoly: aead_spec "esp_aead_ops (chapoly_crypto salt cops cc sops cs gb rng)" "native_gen chapoly_get_iv"
    "native_keyed chapoly_keyed" "native_can_iv chapoly_can_iv" chapoly_enc 1 16 8 "2 ^ 32" for salt cops cc sops cs gb rng
  by (rule native_aead_spec) (unfold chapoly_crypto_def crypto.simps, rule chapoly.aead_spec_axioms)

text \<open>
  C28.  A context for ChaCha20-Poly1305 is created exactly for keys of 36 bytes; keys of other lengths, the short ones
  whose size without the salt wraps around included, are refused.  The context is new and keyed, and
  can encrypt exactly if the generator of IVs got its 8 bytes of salt.
\<close>

theorem esp_context_create_chapoly:
  "case esp_context_create (chapoly_crypto salt cops cc sops cs gb rng) ENCR_CHACHA20_POLY1305 key int_alg int_key inb of
     None \<Rightarrow> length key \<noteq> 36
   | Some ctx \<Rightarrow> length key = 36 \<and> (\<exists>a. ctx = esp_context_init (Native a) inb \<and> chapoly_keyed a key \<and>
       (chapoly_can_iv a 0 \<longleftrightarrow> (\<exists>s. salt = Some s \<and> length s = 8)))"
proof (cases "length key = 36")
  case True
  define a where "a = \<lparr>iv_gen = iv_gen_seq_create salt, drv = chapoly_drv_portable_create\<rparr>"
  have c: "chapoly_aead_create salt ENCR_CHACHA20_POLY1305 32 4 = Some a"
    by (simp add: chapoly_aead_create_def a_def CHACHA_KEY_SIZE_def CHACHA_SALT_SIZE_def)
  define a' where "a' = snd (chapoly_set_key a key)"
  have a': "chapoly_set_key a key = (True, a')" "iv_gen a' = iv_gen a" "drv a' = drv (snd (chapoly_set_key a key))"
    using True by (simp_all add: a'_def chapoly_set_key_def CHACHA_KEY_SIZE_def CHACHA_SALT_SIZE_def)
  have "chapoly_keyed a' key" using chapoly_set_key_keyed(2) [OF c True] a'(3) by (simp add: chapoly_keyed_def)
  moreover have "chapoly_can_iv a' 0 \<longleftrightarrow> (\<exists>s. salt = Some s \<and> length s = 8)"
    using a'(2) by (auto simp: chapoly_can_iv_def a_def iv_gen_seq_create_def)
  ultimately show ?thesis
    using a'(1) c True
    by (simp add: esp_context_create_def create_aead_def encryption_algorithm_is_aead_def aead_salt_def chapoly_crypto_def)
      (rule exI [of _ a'], simp)
next
  case False
  then have "create_aead (chapoly_crypto salt cops cc sops cs gb rng) ENCR_CHACHA20_POLY1305 key = None"
    by (simp add: create_aead_def chapoly_crypto_def chapoly_set_key_def CHACHA_KEY_SIZE_def CHACHA_SALT_SIZE_def Let_def
        split: option.splits)
  with False show ?thesis by (simp add: esp_context_create_def encryption_algorithm_is_aead_def)
qed

end
