(* ===== verification/Ipsec_Sa.thy ===== *)
theory Ipsec_Sa
  imports Esp_Create
begin

text \<open>
  IPsec SAs (\<open>libipsec/ipsec_sa.c\<close>) with the types of \<open>ipsec/ipsec_types.h\<close> they use, and the events they raise.

  An operation that raises events returns them, in order, beside the new state: the caller puts them on the queue of the event
  relay.  The clock, \<open>time_monotonic\<close>, is an argument.
\<close>

section \<open>Types\<close>

datatype ipsec_mode_t = MODE_NONE | MODE_TRANSPORT | MODE_TUNNEL | MODE_BEET | MODE_PASS | MODE_DROP | MODE_IPTFS

record lifetime_limits =
  life :: u64
  rekey :: u64
  jitter :: u64

record lifetime_cfg_t =
  lt_time :: lifetime_limits
  lt_bytes :: lifetime_limits
  lt_packets :: lifetime_limits

record mark_t =
  mark_value :: u32
  mark_mask :: u32

definition IPPROTO_ESP :: byte where "IPPROTO_ESP = 50"
definition IPCOMP_NONE :: u16 where "IPCOMP_NONE = 0"

text \<open>The events of \<open>ipsec_event_relay.c\<close>.\<close>

datatype ipsec_event = IPSEC_EVENT_EXPIRE (ev_protocol: byte) (ev_spi: u32) (ev_dst: host) (ev_hard: bool) | IPSEC_EVENT_ACQUIRE (ev_reqid: u32)

section \<open>State\<close>

record 'a ipsec_sa =
  sa_spi :: u32
  sa_src :: host
  sa_dst :: host
  sa_protocol :: byte
  sa_reqid :: u32
  sa_lifetime :: lifetime_cfg_t
  sa_mode :: ipsec_mode_t
  sa_encap :: bool
  sa_esn :: bool
  sa_inbound :: bool
  sa_context :: "'a esp_context"
  use_time :: int
  use_packets :: u64
  use_bytes :: u64
  soft_expired :: bool
  hard_expired :: bool

definition ipsec_sa_create :: "('n, 'c, 's, 'r) crypto \<Rightarrow> u32 \<Rightarrow> host \<Rightarrow> host \<Rightarrow> byte \<Rightarrow> u32 \<Rightarrow> mark_t \<Rightarrow> u32 \<Rightarrow> lifetime_cfg_t \<Rightarrow>
    encryption_algorithm_t \<Rightarrow> chunk \<Rightarrow> integrity_algorithm_t \<Rightarrow> chunk \<Rightarrow> ipsec_mode_t \<Rightarrow> u16 \<Rightarrow> u16 \<Rightarrow> bool \<Rightarrow> bool \<Rightarrow> bool \<Rightarrow>
    ('n, 'c, 's, 'r) esp_aead ipsec_sa option" where
  "ipsec_sa_create cr spi s d proto reqid mark tfc lifetime enc_alg enc_key int_alg int_key mode ipcomp cpi encap esn inb =
     (if proto \<noteq> IPPROTO_ESP then None
      else if esn then None
      else if ipcomp \<noteq> IPCOMP_NONE then None
      else if mode \<noteq> MODE_TUNNEL then None
      else (case esp_context_create cr enc_alg enc_key int_alg int_key inb of
          None \<Rightarrow> None
        | Some ctx \<Rightarrow> Some \<lparr>sa_spi = spi, sa_src = s, sa_dst = d, sa_protocol = proto, sa_reqid = reqid, sa_lifetime = lifetime,
            sa_mode = mode, sa_encap = encap, sa_esn = esn, sa_inbound = inb, sa_context = ctx,
            use_time = 0, use_packets = 0, use_bytes = 0, soft_expired = False, hard_expired = False\<rparr>))"

section \<open>Operations\<close>

definition sa_get_source :: "'a ipsec_sa \<Rightarrow> host" where "sa_get_source this = sa_src this"
definition sa_get_destination :: "'a ipsec_sa \<Rightarrow> host" where "sa_get_destination this = sa_dst this"
definition sa_set_source :: "'a ipsec_sa \<Rightarrow> host \<Rightarrow> 'a ipsec_sa" where "sa_set_source this h = this\<lparr>sa_src := h\<rparr>"
definition sa_set_destination :: "'a ipsec_sa \<Rightarrow> host \<Rightarrow> 'a ipsec_sa" where "sa_set_destination this h = this\<lparr>sa_dst := h\<rparr>"
definition sa_get_encap :: "'a ipsec_sa \<Rightarrow> bool" where "sa_get_encap this = sa_encap this"
definition sa_set_encap :: "'a ipsec_sa \<Rightarrow> bool \<Rightarrow> 'a ipsec_sa" where "sa_set_encap this b = this\<lparr>sa_encap := b\<rparr>"
definition sa_get_spi :: "'a ipsec_sa \<Rightarrow> u32" where "sa_get_spi this = sa_spi this"
definition sa_get_reqid :: "'a ipsec_sa \<Rightarrow> u32" where "sa_get_reqid this = sa_reqid this"
definition sa_get_protocol :: "'a ipsec_sa \<Rightarrow> byte" where "sa_get_protocol this = sa_protocol this"
definition sa_get_lifetime :: "'a ipsec_sa \<Rightarrow> lifetime_cfg_t" where "sa_get_lifetime this = sa_lifetime this"
definition is_inbound :: "'a ipsec_sa \<Rightarrow> bool" where "is_inbound this = sa_inbound this"
definition get_esp_context :: "'a ipsec_sa \<Rightarrow> 'a esp_context" where "get_esp_context this = sa_context this"

definition get_usestats :: "'a ipsec_sa \<Rightarrow> u64 \<times> u64 \<times> int" where
  "get_usestats this = (use_bytes this, use_packets this, use_time this)"

named_theorems sa_defs \<open>the accessors of SAs\<close>
declare sa_get_source_def [sa_defs] sa_get_destination_def [sa_defs] sa_set_source_def [sa_defs] sa_set_destination_def [sa_defs]
  sa_get_encap_def [sa_defs] sa_set_encap_def [sa_defs] sa_get_spi_def [sa_defs] sa_get_reqid_def [sa_defs] sa_get_protocol_def [sa_defs]
  sa_get_lifetime_def [sa_defs] is_inbound_def [sa_defs] get_esp_context_def [sa_defs] get_usestats_def [sa_defs]

definition expire :: "'a ipsec_sa \<Rightarrow> bool \<Rightarrow> 'a ipsec_sa \<times> ipsec_event list" where
  "expire this hard =
     (if hard then
        if \<not> hard_expired this
        then (this\<lparr>hard_expired := True\<rparr>, [IPSEC_EVENT_EXPIRE (sa_protocol this) (sa_spi this) (sa_dst this) True])
        else (this, [])
      else if \<not> hard_expired this \<and> \<not> soft_expired this
        then (this\<lparr>soft_expired := True\<rparr>, [IPSEC_EVENT_EXPIRE (sa_protocol this) (sa_spi this) (sa_dst this) False])
        else (this, []))"

definition update_usestats :: "int \<Rightarrow> 'a ipsec_sa \<Rightarrow> u32 \<Rightarrow> 'a ipsec_sa \<times> ipsec_event list" where
  "update_usestats now this bytes =
     (let this = this\<lparr>use_time := now, use_packets := use_packets this + 1, use_bytes := use_bytes this + ucast bytes\<rparr>;
          lp = lt_packets (sa_lifetime this); lb = lt_bytes (sa_lifetime this)
      in if life lp \<noteq> 0 \<and> use_packets this \<ge> life lp then expire this True
         else if life lb \<noteq> 0 \<and> use_bytes this \<ge> life lb then expire this True
         else if rekey lp \<noteq> 0 \<and> use_packets this \<ge> rekey lp then expire this False
         else if rekey lb \<noteq> 0 \<and> use_bytes this \<ge> rekey lb then expire this False
         else (this, []))"

definition match_by_spi_dst :: "'a ipsec_sa \<Rightarrow> u32 \<Rightarrow> host \<Rightarrow> bool" where
  "match_by_spi_dst this spi d \<longleftrightarrow> sa_spi this = spi \<and> ip_equals (sa_dst this) d \<and> \<not> hard_expired this"

definition match_by_spi_src_dst :: "'a ipsec_sa \<Rightarrow> u32 \<Rightarrow> host \<Rightarrow> host \<Rightarrow> bool" where
  "match_by_spi_src_dst this spi s d \<longleftrightarrow> sa_spi this = spi \<and> ip_equals (sa_src this) s \<and> ip_equals (sa_dst this) d"

definition match_by_reqid :: "'a ipsec_sa \<Rightarrow> u32 \<Rightarrow> bool \<Rightarrow> bool" where
  "match_by_reqid this reqid inb \<longleftrightarrow> sa_reqid this = reqid \<and> sa_inbound this = inb \<and> \<not> hard_expired this"

section \<open>Histories\<close>

text \<open>What happens to an SA: it processes packets, it expires by time, its addresses are updated.\<close>

datatype sa_op = Sa_Use int u32 | Sa_Expire bool | Sa_Update host host bool

definition sa_step :: "'a ipsec_sa \<Rightarrow> sa_op \<Rightarrow> 'a ipsec_sa \<times> ipsec_event list" where
  "sa_step this oper = (case oper of
     Sa_Use now bytes \<Rightarrow> update_usestats now this bytes
   | Sa_Expire hard \<Rightarrow> expire this hard
   | Sa_Update s d encap \<Rightarrow> (sa_set_encap (sa_set_destination (sa_set_source this s) d) encap, []))"

primrec sa_run :: "'a ipsec_sa \<Rightarrow> sa_op list \<Rightarrow> 'a ipsec_sa \<times> ipsec_event list" where
  "sa_run this [] = (this, [])"
| "sa_run this (oper # opers) = (let (this, es) = sa_step this oper; (this, es') = sa_run this opers in (this, es @ es'))"

definition used_bytes :: "sa_op list \<Rightarrow> nat" where
  "used_bytes opers = sum_list [unat bytes. Sa_Use now bytes \<leftarrow> opers]"

definition used_packets :: "sa_op list \<Rightarrow> nat" where
  "used_packets opers = length [bytes. Sa_Use now bytes \<leftarrow> opers]"

lemma expire_frame [simp]:
  "sa_protocol (fst (expire this h)) = sa_protocol this" "sa_spi (fst (expire this h)) = sa_spi this"
  "sa_lifetime (fst (expire this h)) = sa_lifetime this" "sa_context (fst (expire this h)) = sa_context this"
  "sa_mode (fst (expire this h)) = sa_mode this" "sa_esn (fst (expire this h)) = sa_esn this"
  "sa_inbound (fst (expire this h)) = sa_inbound this" "use_packets (fst (expire this h)) = use_packets this"
  "use_bytes (fst (expire this h)) = use_bytes this" "sa_reqid (fst (expire this h)) = sa_reqid this"
  "sa_src (fst (expire this h)) = sa_src this" "sa_dst (fst (expire this h)) = sa_dst this" "sa_encap (fst (expire this h)) = sa_encap this"
  by (simp_all add: expire_def)

lemma update_usestats_frame [simp]:
  "sa_protocol (fst (update_usestats now this n)) = sa_protocol this" "sa_spi (fst (update_usestats now this n)) = sa_spi this"
  "sa_lifetime (fst (update_usestats now this n)) = sa_lifetime this" "sa_context (fst (update_usestats now this n)) = sa_context this"
  "sa_mode (fst (update_usestats now this n)) = sa_mode this" "sa_esn (fst (update_usestats now this n)) = sa_esn this"
  "sa_inbound (fst (update_usestats now this n)) = sa_inbound this" "sa_reqid (fst (update_usestats now this n)) = sa_reqid this"
  "use_packets (fst (update_usestats now this n)) = use_packets this + 1"
  "use_bytes (fst (update_usestats now this n)) = use_bytes this + ucast n"
  "sa_src (fst (update_usestats now this n)) = sa_src this" "sa_dst (fst (update_usestats now this n)) = sa_dst this"
  "sa_encap (fst (update_usestats now this n)) = sa_encap this"
  by (simp_all add: update_usestats_def Let_def)

lemma sa_step_frame [simp]:
  "sa_protocol (fst (sa_step this oper)) = sa_protocol this" "sa_spi (fst (sa_step this oper)) = sa_spi this"
  "sa_lifetime (fst (sa_step this oper)) = sa_lifetime this" "sa_context (fst (sa_step this oper)) = sa_context this"
  "sa_mode (fst (sa_step this oper)) = sa_mode this" "sa_esn (fst (sa_step this oper)) = sa_esn this"
  "sa_inbound (fst (sa_step this oper)) = sa_inbound this"
  by (simp_all add: sa_step_def sa_defs split: sa_op.splits)

text \<open>The events an SA may still raise, by its flags.\<close>

definition events_left :: "bool \<Rightarrow> bool \<Rightarrow> bool list set" where
  "events_left soft hard = (if hard then {[]} else if soft then {[], [True]} else {[], [False], [True], [False, True]})"

definition expiry_of :: "'a ipsec_sa \<Rightarrow> ipsec_event \<Rightarrow> bool" where
  "expiry_of this e = (case e of IPSEC_EVENT_EXPIRE p s d h \<Rightarrow> p = sa_protocol this \<and> s = sa_spi this | _ \<Rightarrow> False)"

lemma events_left_append:
  "f1 \<in> events_left s h \<Longrightarrow> f1 \<in> {[], [True], [False]} \<Longrightarrow>
   f2 \<in> events_left (s \<or> False \<in> set f1) (h \<or> True \<in> set f1) \<Longrightarrow> f1 @ f2 \<in> events_left s h"
  by (auto simp: events_left_def split: if_splits)

text \<open>A step raises at most one event, the one its flags allow, and records it.\<close>

definition expiry_step :: "'a ipsec_sa \<Rightarrow> 'a ipsec_sa \<Rightarrow> ipsec_event list \<Rightarrow> bool" where
  "expiry_step this this' es \<longleftrightarrow> map ev_hard es \<in> events_left (soft_expired this) (hard_expired this) \<and> list_all (expiry_of this) es \<and>
     (hard_expired this' \<longleftrightarrow> hard_expired this \<or> True \<in> set (map ev_hard es)) \<and>
     (soft_expired this' \<longleftrightarrow> soft_expired this \<or> False \<in> set (map ev_hard es)) \<and>
     map ev_hard es \<in> {[], [True], [False]}"

lemma expiry_step_none: "soft_expired this' = soft_expired this \<Longrightarrow> hard_expired this' = hard_expired this \<Longrightarrow> expiry_step this this' []"
  by (simp add: expiry_step_def events_left_def)

lemma expire_events: "expire this h = (this', es) \<Longrightarrow> expiry_step this this' es"
  by (auto simp: expire_def expiry_step_def events_left_def expiry_of_def split: if_splits)

text \<open>A limit that is reached has expired the SA.\<close>

definition limits_enforced :: "'a ipsec_sa \<Rightarrow> bool" where
  "limits_enforced this \<longleftrightarrow>
     (life (lt_packets (sa_lifetime this)) \<noteq> 0 \<and> use_packets this \<ge> life (lt_packets (sa_lifetime this)) \<longrightarrow> hard_expired this) \<and>
     (life (lt_bytes (sa_lifetime this)) \<noteq> 0 \<and> use_bytes this \<ge> life (lt_bytes (sa_lifetime this)) \<longrightarrow> hard_expired this)"

lemma update_usestats_events:
  assumes "update_usestats now this n = (this', es)"
  shows "expiry_step this this' es" "limits_enforced this'"
proof -
  define u where "u = this\<lparr>use_time := now, use_packets := use_packets this + 1, use_bytes := use_bytes this + ucast n\<rparr>"
  have u: "soft_expired u = soft_expired this" "hard_expired u = hard_expired this" "expiry_of u = expiry_of this"
    by (auto simp: u_def expiry_of_def fun_eq_iff split: ipsec_event.splits)
  have c: "expire u True = (this', es) \<or> expire u False = (this', es) \<and> limits_enforced u \<or> (this', es) = (u, []) \<and> limits_enforced u"
    using assms unfolding update_usestats_def Let_def u_def [symmetric]
    by (auto simp: limits_enforced_def split: if_splits)
  then have "expiry_step u this' es" using expire_events expiry_step_none by fastforce
  then show "expiry_step this this' es" by (simp add: expiry_step_def u)
  have "limits_enforced (fst (expire u h))" if "limits_enforced u \<or> h" for h
    using that by (auto simp: limits_enforced_def expire_def)
  from this [of True] this [of False] show "limits_enforced this'" using c by (auto dest: arg_cong [where f = fst])
qed

lemma sa_step_events:
  assumes "sa_step this oper = (this', es)"
  shows "expiry_step this this' es \<and> (limits_enforced this \<longrightarrow> limits_enforced this')"
proof (cases oper)
  case (Sa_Use now n)
  then show ?thesis using assms update_usestats_events [of now this n this' es] by (simp add: sa_step_def)
next
  case (Sa_Expire h)
  then have e: "expire this h = (this', es)" using assms by (simp add: sa_step_def)
  then show ?thesis using expire_events [OF e] by (auto simp: limits_enforced_def expire_def split: if_splits)
next
  case (Sa_Update a b c)
  then show ?thesis using assms by (auto simp: sa_step_def sa_defs limits_enforced_def intro: expiry_step_none)
qed

lemma sa_step_use:
  "use_packets (fst (sa_step this oper)) = use_packets this + of_nat (used_packets [oper])"
  "use_bytes (fst (sa_step this oper)) = use_bytes this + of_nat (used_bytes [oper])"
  by (cases oper; simp add: sa_step_def sa_defs used_packets_def used_bytes_def of_nat_unat)+

lemma sa_run_events:
  "sa_run this opers = (this', es) \<Longrightarrow> map ev_hard es \<in> events_left (soft_expired this) (hard_expired this) \<and> list_all (expiry_of this) es \<and>
    (hard_expired this' \<longleftrightarrow> hard_expired this \<or> True \<in> set (map ev_hard es)) \<and>
    (limits_enforced this \<longrightarrow> limits_enforced this') \<and> sa_lifetime this' = sa_lifetime this \<and>
    use_packets this' = use_packets this + of_nat (used_packets opers) \<and> use_bytes this' = use_bytes this + of_nat (used_bytes opers)"
proof (induction opers arbitrary: this this' es)
  case Nil
  then show ?case by (simp add: events_left_def used_packets_def used_bytes_def)
next
  case (Cons oper opers)
  obtain u es1 es2 where s: "sa_step this oper = (u, es1)" "sa_run u opers = (this', es2)" "es = es1 @ es2"
    using Cons.prems by (auto simp: Let_def split: prod.splits)
  have f: "sa_lifetime u = sa_lifetime this" "expiry_of u = expiry_of this"
    using sa_step_frame [of this oper] s(1) by (auto simp: expiry_of_def fun_eq_iff split: ipsec_event.splits)
  have n: "use_packets u = use_packets this + of_nat (used_packets [oper])" "use_bytes u = use_bytes this + of_nat (used_bytes [oper])"
    using sa_step_use [of this oper] s(1) by simp_all
  note st = sa_step_events [OF s(1)]
  have "used_packets (oper # opers) = used_packets [oper] + used_packets opers" "used_bytes (oper # opers) = used_bytes [oper] + used_bytes opers"
    by (simp_all add: used_packets_def used_bytes_def)
  moreover have "map ev_hard es1 @ map ev_hard es2 \<in> events_left (soft_expired this) (hard_expired this)"
    using st Cons.IH [OF s(2)] by (intro events_left_append) (simp_all add: expiry_step_def)
  ultimately show ?case using f n s(3) st Cons.IH [OF s(2)] by (simp add: expiry_step_def disj_assoc)
qed

text \<open>
  C31.  Expiry: whatever happens to a new SA, it raises at most one soft and at most one hard expire event, the soft
  one first, both with its protocol and SPI; it is marked hard-expired exactly if the hard event was raised; and as long as
  its counters have not passed \<open>2 ^ 64\<close>, it is hard-expired once it has processed as many packets or bytes as
  its lifetime allows.
\<close>

theorem sa_expires_once:
  assumes "ipsec_sa_create cr spi s d proto reqid mark tfc lt enc_alg enc_key int_alg int_key mode ipcomp cpi encap esn inb = Some sa"
    "sa_run sa opers = (sa', es)"
  shows "map ev_hard es \<in> {[], [False], [True], [False, True]} \<and> list_all (expiry_of sa) es \<and>
    (hard_expired sa' \<longleftrightarrow> True \<in> set (map ev_hard es)) \<and>
    (0 < life (lt_packets lt) \<and> unat (life (lt_packets lt)) \<le> used_packets opers \<and> used_packets opers < 2 ^ 64 \<longrightarrow> hard_expired sa') \<and>
    (0 < life (lt_bytes lt) \<and> unat (life (lt_bytes lt)) \<le> used_bytes opers \<and> used_bytes opers < 2 ^ 64 \<longrightarrow> hard_expired sa')"
proof -
  have sa: "\<not> soft_expired sa" "\<not> hard_expired sa" "sa_lifetime sa = lt" "use_packets sa = 0" "use_bytes sa = 0"
    using assms(1) by (auto simp: ipsec_sa_create_def split: if_splits option.splits)
  then have "limits_enforced sa" by (auto simp: limits_enforced_def)
  with sa_run_events [OF assms(2)] sa have r: "map ev_hard es \<in> {[], [False], [True], [False, True]}" "list_all (expiry_of sa) es"
      "hard_expired sa' \<longleftrightarrow> True \<in> set (map ev_hard es)" "limits_enforced sa'" "sa_lifetime sa' = lt"
      "use_packets sa' = of_nat (used_packets opers)" "use_bytes sa' = of_nat (used_bytes opers)"
    by (simp_all add: events_left_def)
  have "use_packets sa' \<ge> l" if "unat l \<le> used_packets opers" "used_packets opers < 2 ^ 64" for l
    using that r(6) by (simp add: word_le_nat_alt unat_of_nat_small)
  moreover have "use_bytes sa' \<ge> l" if "unat l \<le> used_bytes opers" "used_bytes opers < 2 ^ 64" for l
    using that r(7) by (simp add: word_le_nat_alt unat_of_nat_small)
  ultimately show ?thesis using r(1-5) unfolding limits_enforced_def by (metis word_neq_0_conv)
qed

text \<open>A factory without algorithms but those of the \<open>chapoly\<close> plugin, for examples.\<close>

definition example_crypto :: "(chapoly_aead, unit, chunk, unit) crypto" where
  "example_crypto = chapoly_crypto (Some (replicate 8 1)) example_crypter (\<lambda>_ _. None) example_signer (\<lambda>_. None) (\<lambda>r _. (None, r)) None"

definition no_limits :: lifetime_limits where
  "no_limits = \<lparr>life = 0, rekey = 0, jitter = 0\<rparr>"

definition example_lifetime :: lifetime_cfg_t where
  "example_lifetime = \<lparr>lt_time = no_limits, lt_bytes = no_limits, lt_packets = \<lparr>life = 3, rekey = 2, jitter = 0\<rparr>\<rparr>"

definition example_sa :: "bool \<Rightarrow> (chapoly_aead, unit, chunk, unit) esp_aead ipsec_sa" where
  "example_sa inb = \<lparr>sa_spi = 5, sa_src = example_v4 1 0, sa_dst = example_v4 2 0, sa_protocol = IPPROTO_ESP, sa_reqid = 1,
     sa_lifetime = example_lifetime, sa_mode = MODE_TUNNEL, sa_encap = False, sa_esn = False, sa_inbound = inb,
     sa_context = esp_context_init (Native chapoly_example) inb, use_time = 0, use_packets = 0, use_bytes = 0,
     soft_expired = False, hard_expired = False\<rparr>"

lemma example_sa_create:
  "ipsec_sa_create example_crypto 5 (example_v4 1 0) (example_v4 2 0) IPPROTO_ESP 1 \<lparr>mark_value = 0, mark_mask = 0\<rparr> 0 example_lifetime
     ENCR_CHACHA20_POLY1305 (replicate 36 5) 0 [] MODE_TUNNEL IPCOMP_NONE 0 False False inb = Some (example_sa inb)"
proof -
  have "chapoly_aead_create (Some (replicate 8 1)) ENCR_CHACHA20_POLY1305 32 4 \<noteq> None"
    "fst (chapoly_set_key (the (chapoly_aead_create (Some (replicate 8 1)) ENCR_CHACHA20_POLY1305 32 4)) (replicate 36 5))"
    by (simp_all add: chapoly_aead_create_def chapoly_set_key_def CHACHA_KEY_SIZE_def CHACHA_SALT_SIZE_def)
  then have "esp_context_create example_crypto ENCR_CHACHA20_POLY1305 (replicate 36 5) 0 [] inb = Some (esp_context_init (Native chapoly_example) inb)"
    by (auto simp: esp_context_create_def encryption_algorithm_is_aead_def create_aead_def aead_salt_def example_crypto_def chapoly_crypto_def
        chapoly_example_def Let_def split_beta)
  then show ?thesis by (simp add: ipsec_sa_create_def example_sa_def)
qed

theorem sa_expires_once_witness:
  "hard_expired (fst (sa_run (example_sa False) [Sa_Use 1 100, Sa_Use 2 100, Sa_Use 3 100, Sa_Use 4 100])) \<and>
   map ev_hard (snd (sa_run (example_sa False) [Sa_Use 1 100, Sa_Use 2 100, Sa_Use 3 100, Sa_Use 4 100])) \<in> {[], [False], [True], [False, True]}"
proof -
  let ?opers = "[Sa_Use 1 100, Sa_Use 2 100, Sa_Use 3 100, Sa_Use 4 100]"
  obtain sa' es where r: "sa_run (example_sa False) ?opers = (sa', es)" by fastforce
  moreover have "0 < life (lt_packets example_lifetime)" "unat (life (lt_packets example_lifetime)) \<le> used_packets ?opers" "used_packets ?opers < 2 ^ 64"
    by (simp_all add: example_lifetime_def used_packets_def)
  ultimately show ?thesis using sa_expires_once [OF example_sa_create r] unfolding r fst_conv snd_conv by blast
qed

section \<open>Well-formed SAs\<close>

text \<open>What the constructor establishes: an SA is for ESP in tunnel mode, and its context is one for its direction.\<close>

definition wf_sa :: "'a ipsec_sa \<Rightarrow> bool" where
  "wf_sa this \<longleftrightarrow> sa_protocol this = IPPROTO_ESP \<and> sa_mode this = MODE_TUNNEL \<and> \<not> sa_esn this \<and>
     inbound (sa_context this) = sa_inbound this \<and> (sa_inbound this \<longrightarrow> wf_inbound (sa_context this))"

datatype sa_activity = Activity sa_op | Receive esp_packet | Send esp_packet

definition sa_act :: "(nat \<Rightarrow> byte) \<Rightarrow> 'a aead_ops \<Rightarrow> 'a ipsec_sa \<Rightarrow> sa_activity \<Rightarrow> 'a ipsec_sa" where
  "sa_act mem ops this act = (case act of
     Activity oper \<Rightarrow> fst (sa_step this oper)
   | Receive p \<Rightarrow> (let (st, p, ctx) = esp_decrypt ops p (get_esp_context this) in this\<lparr>sa_context := ctx\<rparr>)
   | Send p \<Rightarrow> (case esp_encrypt mem ops p (get_esp_context this) (sa_get_spi this) of
        None \<Rightarrow> this | Some (st, p, ctx) \<Rightarrow> this\<lparr>sa_context := ctx\<rparr>))"

lemma wf_inbound_aead [simp]: "wf_inbound (c\<lparr>aead := a\<rparr>) = wf_inbound c"
  by (simp add: wf_inbound_def)

lemma inbound_set_authenticated_seqno [simp]: "inbound (set_authenticated_seqno c s) = inbound c"
  by (simp add: set_authenticated_seqno_def Let_def)

lemma esp_decrypt_wf:
  assumes "esp_decrypt ops p ctx = (st, p', ctx')"
  shows "inbound ctx' = inbound ctx" "wf_inbound ctx \<Longrightarrow> wf_inbound ctx'"
  using assms
  by (auto simp: esp_decrypt_def Let_def wf_set_authenticated_seqno split: option.splits prod.splits if_splits)

lemma esp_encrypt_wf:
  assumes "esp_encrypt mem ops p ctx spi = Some (st, p', ctx')"
  shows "inbound ctx' = inbound ctx" "inbound ctx \<Longrightarrow> ctx' = ctx"
proof -
  have "inbound ctx' = inbound ctx \<and> (inbound ctx \<longrightarrow> ctx' = ctx)"
  proof (cases "next_seqno ctx")
    case None
    then show ?thesis using assms by (simp add: esp_encrypt_def Let_def)
  next
    case (Some x)
    then obtain seq c where c: "next_seqno ctx = Some (seq, c)" "inbound c = inbound ctx" "\<not> inbound ctx"
      by (cases x) (auto simp: next_seqno_def split: if_splits)
    have bindE: "\<And>m f r. m \<bind> f = Some r \<Longrightarrow> (\<And>x. m = Some x \<Longrightarrow> f x = Some r \<Longrightarrow> thesis) \<Longrightarrow> thesis" for thesis
      by (simp add: bind_eq_Some_conv) blast
    from assms c show ?thesis
      unfolding esp_encrypt_def Let_def by (auto elim!: bindE split: option.split_asm prod.split_asm)
  qed
  then show "inbound ctx' = inbound ctx" "inbound ctx \<Longrightarrow> ctx' = ctx" by blast+
qed

lemma wf_sa_act: "wf_sa this \<Longrightarrow> wf_sa (sa_act mem ops this act)"
proof (cases act)
  case (Receive p)
  obtain st p' c where "esp_decrypt ops p (sa_context this) = (st, p', c)" by (cases "esp_decrypt ops p (sa_context this)") auto
  then show "wf_sa this \<Longrightarrow> wf_sa (sa_act mem ops this act)"
    using esp_decrypt_wf [of ops p "sa_context this" st p' c] Receive by (simp add: sa_act_def wf_sa_def sa_defs)
next
  case (Send p)
  then show "wf_sa this \<Longrightarrow> wf_sa (sa_act mem ops this act)"
    using esp_encrypt_wf [of mem ops p "sa_context this" "sa_spi this"] by (auto simp: sa_act_def wf_sa_def sa_defs split: option.splits)
qed (simp add: sa_act_def wf_sa_def)

text \<open>
  C32.  SAs stay well-formed: the constructor only accepts ESP in tunnel mode without extended sequence numbers and
  compression, and whatever packets an SA processes and whatever else happens to it, its context
  remains one for its direction, with a replay window of the right size if it is inbound.
\<close>

theorem sa_well_formed:
  assumes "ipsec_sa_create cr spi s d proto reqid mark tfc lt enc_alg enc_key int_alg int_key mode ipcomp cpi encap esn inb = Some sa"
  shows "proto = IPPROTO_ESP \<and> mode = MODE_TUNNEL \<and> \<not> esn \<and> ipcomp = IPCOMP_NONE \<and> wf_sa (foldl (sa_act mem ops) sa acts)"
proof -
  have "wf_sa sa"
    using assms wf_inbound_init
    by (auto simp: ipsec_sa_create_def wf_sa_def esp_context_create_def esp_context_init_def split: if_splits option.splits)
  then have "wf_sa (foldl (sa_act mem ops) sa acts)" by (induction acts arbitrary: sa) (simp_all add: wf_sa_act)
  then show ?thesis using assms by (auto simp: ipsec_sa_create_def split: if_splits)
qed

theorem sa_well_formed_witness:
  "wf_sa (foldl (sa_act (\<lambda>_. 0) (esp_aead_ops example_crypto)) (example_sa True)
     [Receive (esp_packet_create_from_packet (packet_create_from_data None None [1, 2, 3])), Activity (Sa_Expire False)])"
  using sa_well_formed [OF example_sa_create, of "\<lambda>_. 0" "esp_aead_ops example_crypto" True
      "[Receive (esp_packet_create_from_packet (packet_create_from_data None None [1, 2, 3])), Activity (Sa_Expire False)]"]
  by simp

end
