(* ===== verification/Ipsec_Policy.thy ===== *)
theory Ipsec_Policy
  imports Traffic_Selector Ipsec_Sa "HOL-Library.Product_Lexorder"
begin

text \<open>
  IPsec policies (\<open>libipsec/ipsec_policy.c\<close>) and their manager (\<open>libipsec/ipsec_policy_mgr.c\<close>), which keeps them in a list
  sorted by a priority computed from their selectors.

  The list is the list of values of a linked list (theory \<open>Linked_List\<close>).  An operation that would use a null pointer has the value
  \<open>None\<close>.  Reference counts only decide when memory is freed and have no counterpart.
\<close>

section \<open>Policies\<close>

datatype policy_dir_t = POLICY_IN | POLICY_OUT | POLICY_FWD
datatype policy_type_t = POLICY_IPSEC | POLICY_PASS | POLICY_DROP
datatype policy_priority_t = POLICY_PRIORITY_PASS | POLICY_PRIORITY_DEFAULT | POLICY_PRIORITY_ROUTED | POLICY_PRIORITY_FALLBACK

record ipsec_sa_cfg_t =
  cfg_mode :: ipsec_mode_t
  cfg_reqid :: u32
  cfg_policy_count :: u32
  esp_use :: bool
  esp_spi :: u32
  ah_use :: bool
  ah_spi :: u32
  ipcomp_transform :: u16
  ipcomp_cpi :: u16

record ipsec_policy =
  pol_src :: host
  pol_dst :: host
  pol_src_ts :: traffic_selector
  pol_dst_ts :: traffic_selector
  pol_protocol :: byte
  pol_direction :: policy_dir_t
  pol_type :: policy_type_t
  pol_sa :: ipsec_sa_cfg_t
  pol_mark :: mark_t
  pol_priority :: policy_priority_t

text \<open>The result is \<open>Some None\<close> for a configuration that is not supported.\<close>

definition ipsec_policy_create :: "host \<Rightarrow> host \<Rightarrow> traffic_selector \<Rightarrow> traffic_selector \<Rightarrow> policy_dir_t \<Rightarrow> policy_type_t \<Rightarrow>
    ipsec_sa_cfg_t \<Rightarrow> mark_t \<Rightarrow> policy_priority_t \<Rightarrow> ipsec_policy option option" where
  "ipsec_policy_create s d src_ts dst_ts direction type sa mark priority =
     (if \<not> esp_use sa then Some None
      else if ipcomp_transform sa \<noteq> IPCOMP_NONE then Some None
      else if cfg_mode sa \<noteq> MODE_TUNNEL then Some None
      else (case (ts_clone src_ts, ts_clone dst_ts) of
          (Some sts, Some dts) \<Rightarrow> Some (Some \<lparr>pol_src = s, pol_dst = d, pol_src_ts = sts, pol_dst_ts = dts,
            pol_protocol = max (protocol src_ts) (protocol dst_ts), pol_direction = direction, pol_type = type, pol_sa = sa,
            pol_mark = mark, pol_priority = priority\<rparr>)
        | _ \<Rightarrow> None))"

definition policy_match :: "ipsec_policy \<Rightarrow> traffic_selector \<Rightarrow> traffic_selector \<Rightarrow> policy_dir_t \<Rightarrow> u32 \<Rightarrow> mark_t \<Rightarrow> policy_priority_t \<Rightarrow> bool" where
  "policy_match this src_ts dst_ts direction reqid mark priority \<longleftrightarrow>
     pol_direction this = direction \<and> pol_priority this = priority \<and> cfg_reqid (pol_sa this) = reqid \<and> pol_mark this = mark \<and>
     ts_equals (pol_src_ts this) src_ts \<and> ts_equals (pol_dst_ts this) dst_ts"

definition match_port :: "traffic_selector \<Rightarrow> host \<Rightarrow> bool" where
  "match_port ts h =
     (let from_p = from_port ts; to_p = to_port ts
      in if (from_p = 0 \<and> to_p = 0xffff) \<or> (from_p = 0xffff \<and> to_p = 0) then True
         else let port = get_port h in from_p \<le> port \<and> port \<le> to_p)"

definition match_packet :: "ipsec_policy \<Rightarrow> ip_packet \<Rightarrow> bool" where
  "match_packet this p =
     (let proto = get_next_header p; s = get_source p; d = get_destination p
      in (pol_protocol this = 0 \<or> pol_protocol this = proto) \<and>
         ts_includes (pol_src_ts this) s \<and> match_port (pol_src_ts this) s \<and>
         ts_includes (pol_dst_ts this) d \<and> match_port (pol_dst_ts this) d)"

definition pol_get_source_ts :: "ipsec_policy \<Rightarrow> traffic_selector" where "pol_get_source_ts this = pol_src_ts this"
definition pol_get_destination_ts :: "ipsec_policy \<Rightarrow> traffic_selector" where "pol_get_destination_ts this = pol_dst_ts this"
definition pol_get_reqid :: "ipsec_policy \<Rightarrow> u32" where "pol_get_reqid this = cfg_reqid (pol_sa this)"
definition pol_get_direction :: "ipsec_policy \<Rightarrow> policy_dir_t" where "pol_get_direction this = pol_direction this"
definition pol_get_priority :: "ipsec_policy \<Rightarrow> policy_priority_t" where "pol_get_priority this = pol_priority this"
definition pol_get_type :: "ipsec_policy \<Rightarrow> policy_type_t" where "pol_get_type this = pol_type this"

section \<open>Priorities\<close>

definition PRIO_BASE :: u32 where "PRIO_BASE = 384"

text \<open>
  The switch falls through from the lowest class to the highest.  \<open>to_subnet\<close> may set a field of the selectors, so that they are
  part of the result.
\<close>

definition class_shift :: "policy_priority_t \<Rightarrow> nat" where
  "class_shift p = (case p of
     POLICY_PRIORITY_FALLBACK \<Rightarrow> 3 | POLICY_PRIORITY_ROUTED \<Rightarrow> 2 | POLICY_PRIORITY_DEFAULT \<Rightarrow> 1 | POLICY_PRIORITY_PASS \<Rightarrow> 0)"

definition calculate_priority :: "policy_priority_t \<Rightarrow> traffic_selector \<Rightarrow> traffic_selector \<Rightarrow>
    (u32 \<times> traffic_selector \<times> traffic_selector) option" where
  "calculate_priority policy_priority s d =
     (let priority = push_bit (class_shift policy_priority) PRIO_BASE;
          (_, net, msk, s) = to_subnet s;
          priority = priority - ucast msk;
          proto = protocol s
      in case net of None \<Rightarrow> None | Some net \<Rightarrow>
      let port = get_port net;
          (_, net, msk, d) = to_subnet d;
          priority = priority - ucast msk;
          proto = max proto (protocol d)
      in case net of None \<Rightarrow> None | Some net \<Rightarrow>
      let port = max port (get_port net);
          priority = push_bit 2 priority;
          priority = priority + (if port \<noteq> 0 then 0 else 2);
          priority = priority + (if proto \<noteq> 0 then 0 else 1)
      in Some (priority, s, d))"

section \<open>The manager\<close>

record policy_entry =
  pe_priority :: u32
  pe_policy :: ipsec_policy

definition policy_entry_create :: "ipsec_policy \<Rightarrow> policy_entry option" where
  "policy_entry_create policy =
     (case calculate_priority (pol_get_priority policy) (pol_get_source_ts policy) (pol_get_destination_ts policy) of
        None \<Rightarrow> None
      | Some (prio, s, d) \<Rightarrow> Some \<lparr>pe_priority = prio, pe_policy = policy\<lparr>pol_src_ts := s, pol_dst_ts := d\<rparr>\<rparr>)"

record ipsec_policy_mgr =
  policies :: "policy_entry list"

definition ipsec_policy_mgr_create :: ipsec_policy_mgr where
  "ipsec_policy_mgr_create = \<lparr>policies = []\<rparr>"

text \<open>The enumerator stops at the first entry with at least the priority, and the new one is inserted before it.\<close>

fun insert_policy :: "policy_entry \<Rightarrow> policy_entry list \<Rightarrow> policy_entry list" where
  "insert_policy entry [] = [entry]"
| "insert_policy entry (current # es) =
     (if pe_priority current \<ge> pe_priority entry then entry # current # es else current # insert_policy entry es)"

definition add_policy :: "ipsec_policy_mgr \<Rightarrow> host \<Rightarrow> host \<Rightarrow> traffic_selector \<Rightarrow> traffic_selector \<Rightarrow> policy_dir_t \<Rightarrow> policy_type_t \<Rightarrow>
    ipsec_sa_cfg_t \<Rightarrow> mark_t \<Rightarrow> policy_priority_t \<Rightarrow> (status_t \<times> ipsec_policy_mgr) option" where
  "add_policy this s d src_ts dst_ts direction type sa mark priority =
     (if type \<noteq> POLICY_IPSEC \<or> direction = POLICY_FWD then Some (SUCCESS, this)
      else (case ipsec_policy_create s d src_ts dst_ts direction type sa mark priority of
          None \<Rightarrow> None
        | Some None \<Rightarrow> Some (FAILED, this)
        | Some (Some policy) \<Rightarrow> (case policy_entry_create policy of
            None \<Rightarrow> None
          | Some entry \<Rightarrow> Some (SUCCESS, this\<lparr>policies := insert_policy entry (policies this)\<rparr>))))"

text \<open>Removal of the first entry that matches: the result is \<open>None\<close> if there is none.\<close>

fun remove_policy :: "(policy_entry \<Rightarrow> bool) \<Rightarrow> policy_entry list \<Rightarrow> policy_entry list option" where
  "remove_policy m [] = None"
| "remove_policy m (current # es) = (if m current then Some es else map_option ((#) current) (remove_policy m es))"

definition del_policy :: "ipsec_policy_mgr \<Rightarrow> host \<Rightarrow> host \<Rightarrow> traffic_selector \<Rightarrow> traffic_selector \<Rightarrow> policy_dir_t \<Rightarrow> policy_type_t \<Rightarrow>
    ipsec_sa_cfg_t \<Rightarrow> mark_t \<Rightarrow> policy_priority_t \<Rightarrow> (status_t \<times> ipsec_policy_mgr) option" where
  "del_policy this s d src_ts dst_ts direction type sa mark policy_priority =
     (if type \<noteq> POLICY_IPSEC \<or> direction = POLICY_FWD then Some (SUCCESS, this)
      else (case calculate_priority policy_priority src_ts dst_ts of
          None \<Rightarrow> None
        | Some (priority, src_ts, dst_ts) \<Rightarrow>
            (case remove_policy (\<lambda>current. pe_priority current = priority \<and>
                policy_match (pe_policy current) src_ts dst_ts direction (cfg_reqid sa) mark policy_priority) (policies this) of
               None \<Rightarrow> Some (FAILED, this)
             | Some es \<Rightarrow> Some (SUCCESS, this\<lparr>policies := es\<rparr>))))"

definition flush_policies :: "ipsec_policy_mgr \<Rightarrow> status_t \<times> ipsec_policy_mgr" where
  "flush_policies this = (SUCCESS, this\<lparr>policies := []\<rparr>)"

definition applies :: "ip_packet \<Rightarrow> bool \<Rightarrow> u32 \<Rightarrow> ipsec_policy \<Rightarrow> bool" where
  "applies p inb reqid policy \<longleftrightarrow> (inb = (pol_get_direction policy = POLICY_IN)) \<and> match_packet policy p \<and>
     (reqid = 0 \<or> reqid = pol_get_reqid policy)"

definition find_by_packet :: "ipsec_policy_mgr \<Rightarrow> ip_packet \<Rightarrow> bool \<Rightarrow> u32 \<Rightarrow> ipsec_policy option" where
  "find_by_packet this p inb reqid = map_option pe_policy (find (\<lambda>current. applies p inb reqid (pe_policy current)) (policies this))"

section \<open>The order of priorities\<close>

text \<open>A selector as the constructors make them: a range, with the length of its prefix, if that is known, within the address.\<close>

definition selector_ok :: "traffic_selector \<Rightarrow> bool" where
  "selector_ok ts \<longleftrightarrow> wf_ts ts \<and> ts_lo ts \<le> ts_hi ts \<and>
     (netbits ts = NON_SUBNET_ADDRESS_RANGE \<or> unat (netbits ts) \<le> 8 * TS_IP_LEN ts)"

definition ts_mask :: "traffic_selector \<Rightarrow> nat" where
  "ts_mask ts = unat (fst (snd (snd (to_subnet ts))))"

definition ts_port :: "traffic_selector \<Rightarrow> u16" where
  "ts_port ts = (if to_port ts = from_port ts then to_port ts else 0)"

lemma to_subnet_ok:
  assumes "selector_ok ts"
  obtains b net msk ts' where "to_subnet ts = (b, Some net, msk, ts')" "unat msk \<le> 128" "get_port net = ts_port ts"
    "protocol ts' = protocol ts" "ts_mask ts = unat msk"
proof -
  have wf: "wf_ts ts" "ts_lo ts \<le> ts_hi ts" using assms by (simp_all add: selector_ok_def)
  obtain msk ts' where m: "(if netbits ts = NON_SUBNET_ADDRESS_RANGE then calc_netbits ts else (netbits ts, ts)) = (msk, ts')" by fastforce
  have le: "unat msk \<le> 8 * TS_IP_LEN ts"
  proof (cases "netbits ts = NON_SUBNET_ADDRESS_RANGE")
    case True
    then obtain n where "n \<le> 8 * TS_IP_LEN ts" "msk = of_nat n" using calc_netbits_spec [OF wf] m by auto
    moreover have "n < 256" using calculation(1) TS_IP_LEN_le [of ts] by linarith
    ultimately show ?thesis by (simp add: unat_of_nat_small)
  qed (use assms m in \<open>auto simp: selector_ok_def\<close>)
  have t: "ts' = (if netbits ts = NON_SUBNET_ADDRESS_RANGE then snd (calc_netbits ts) else ts)"
    using m by (cases "netbits ts = NON_SUBNET_ADDRESS_RANGE") simp_all
  have f: "ts_type ts' = ts_type ts" "ts_from ts' = ts_from ts" "to_port ts' = to_port ts" "from_port ts' = from_port ts" "protocol ts' = protocol ts"
    by (simp_all add: t)
  define fam where "fam = (if ts_type ts = TS_IPV4_ADDR_RANGE then AF_INET else AF_INET6)"
  define nz where "nz = (unat msk + 7) div 8"
  define net where "net = (if msk \<noteq> 0 then (store_at (replicate (TS_IP_LEN ts) 0) 0 (take nz (ts_from ts)))
      [nz - 1 := (store_at (replicate (TS_IP_LEN ts) 0) 0 (take nz (ts_from ts))) ! (nz - 1) AND push_bit (8 * nz - unat msk) 0xff]
    else replicate (TS_IP_LEN ts) 0)"
  have "nz \<le> TS_IP_LEN ts" using le by (simp add: nz_def)
  then have "length net = TS_IP_LEN ts" using wf(1) TS_IP_LEN_le [of ts] by (simp add: net_def store_at_def wf_ts_def)
  then obtain h where h: "host_create_from_chunk fam net (ts_port ts) = Some h" "get_port h = ts_port ts"
    by (cases "ts_type ts") (auto simp: host_create_from_chunk_def fam_def TS_IP_LEN_def get_port_def ip_len_defs)
  have "to_subnet ts = (netbits ts' \<noteq> NON_SUBNET_ADDRESS_RANGE, Some h, msk, ts')"
    using m h(1) wf(1) f
    by (simp add: to_subnet_def Let_def wf_ts_def fam_def net_def nz_def ts_port_def TS_IP_LEN_def cong: if_cong)
  then show ?thesis using that h(2) le TS_IP_LEN_le [of ts] f(5) by (simp add: ts_mask_def)
qed

text \<open>What a priority orders policies by: their class, the lengths of their prefixes, and whether ports and protocol are open.\<close>

definition openness :: "policy_priority_t \<Rightarrow> traffic_selector \<Rightarrow> traffic_selector \<Rightarrow> nat \<times> nat \<times> nat \<times> nat" where
  "openness p s d = (class_shift p, 256 - (ts_mask s + ts_mask d),
     if ts_port s = 0 \<and> ts_port d = 0 then 1 else 0, if protocol s = 0 \<and> protocol d = 0 then 1 else 0)"

definition priority_value :: "nat \<times> nat \<times> nat \<times> nat \<Rightarrow> nat" where
  "priority_value = (\<lambda>(c, n, port, proto). 4 * (384 * 2 ^ c - 256 + n) + 2 * port + proto)"

lemma max_eq_0_word: "max a b = (0 :: 'a :: len word) \<longleftrightarrow> a = 0 \<and> b = 0"
  by (auto simp: max_def)

lemma ts_mask_le: "selector_ok ts \<Longrightarrow> ts_mask ts \<le> 128"
  by (metis to_subnet_ok)

lemma class_base: "push_bit (class_shift p) PRIO_BASE = of_nat (384 * 2 ^ class_shift p)"
  by (simp add: PRIO_BASE_def push_bit_eq_mult)

lemma class_bounds: "384 * 2 ^ class_shift p \<le> (3072 :: nat)" "256 \<le> (384 :: nat) * 2 ^ class_shift p"
  by (cases p; simp add: class_shift_def)+

lemma calculate_priority_value:
  assumes "selector_ok s" "selector_ok d"
  obtains v s' d' where "calculate_priority p s d = Some (v, s', d')" "unat v = priority_value (openness p s d)"
proof -
  obtain b net msk s' where s: "to_subnet s = (b, Some net, msk, s')" "unat msk \<le> 128" "get_port net = ts_port s" "protocol s' = protocol s" "ts_mask s = unat msk"
    using to_subnet_ok [OF assms(1)] .
  obtain b2 net2 msk2 d' where d: "to_subnet d = (b2, Some net2, msk2, d')" "unat msk2 \<le> 128" "get_port net2 = ts_port d" "protocol d' = protocol d" "ts_mask d = unat msk2"
    using to_subnet_ok [OF assms(2)] .
  define base where "base = 384 * 2 ^ class_shift p - (unat msk + unat msk2)"
  define fl where "fl = (if ts_port s = 0 \<and> ts_port d = 0 then 2 else 0) + (if protocol s = 0 \<and> protocol d = 0 then 1 else (0::nat))"
  have u: "(ucast msk :: u32) = of_nat (unat msk)" "(ucast msk2 :: u32) = of_nat (unat msk2)" by simp_all
  have b: "push_bit (class_shift p) PRIO_BASE - ucast msk - ucast msk2 = (of_nat base :: u32)"
    unfolding u class_base base_def using class_bounds(2) [of p] s(2) d(2) by (simp add: of_nat_diff diff_diff_eq)
  have p4: "push_bit 2 (of_nat base :: u32) = of_nat (4 * base)" by (simp add: push_bit_eq_mult)
  have v: "calculate_priority p s d = Some (of_nat (4 * base + fl), s', d')"
    using s d by (simp add: calculate_priority_def Let_def max_eq_0_word fl_def b p4)
  have "base \<le> 3072" "fl \<le> 3" using class_bounds(1) [of p] by (auto simp: base_def fl_def)
  then have "4 * base + fl < 2 ^ 32" by simp
  then have "unat (of_nat (4 * base + fl) :: u32) = 4 * base + fl" by (intro unat_of_nat_small) simp
  moreover have "base = 384 * 2 ^ class_shift p - 256 + (256 - (ts_mask s + ts_mask d))"
    using s(2,5) d(2,5) class_bounds(2) [of p] unfolding base_def by linarith
  then have "4 * base + fl = priority_value (openness p s d)" by (simp add: fl_def priority_value_def openness_def)
  ultimately show ?thesis using v that by simp
qed

lemma class_step: "class_shift p < class_shift q \<Longrightarrow> 384 * 2 ^ class_shift p + (256 :: nat) \<le> 384 * 2 ^ class_shift q - 1"
  by (cases p; cases q) (simp_all add: class_shift_def)

lemma priority_value_less:
  assumes "openness p s d < openness q t e"
  shows "priority_value (openness p s d) < priority_value (openness q t e)"
proof -
  obtain n a b m a' b' where o: "openness p s d = (class_shift p, n, a, b)" "openness q t e = (class_shift q, m, a', b')"
      "n \<le> 256" "a \<le> 1" "b \<le> 1" "a' \<le> 1" "b' \<le> 1"
    by (simp add: openness_def)
  have "class_shift p < class_shift q \<or> class_shift p = class_shift q \<and> (n < m \<or> n = m \<and> (a < a' \<or> a = a' \<and> b < b'))"
    using assms unfolding o by auto
  then show ?thesis
  proof (elim disjE conjE)
    assume "class_shift p < class_shift q"
    from class_step [OF this] show ?thesis using o(3-7) class_bounds(2) [of p] unfolding o priority_value_def by simp
  qed (use o(3-7) in \<open>simp_all add: o(1,2) priority_value_def\<close>)
qed

lemma priority_value_iff: "priority_value (openness p s d) < priority_value (openness q t e) \<longleftrightarrow> openness p s d < openness q t e"
  by (metis less_asym' linorder_neqE priority_value_less)


definition example_prefix :: "byte \<Rightarrow> traffic_selector" where
  "example_prefix n = example_ts16\<lparr>netbits := n\<rparr>"

lemma example_prefix_ok: "n \<le> 32 \<Longrightarrow> selector_ok (example_prefix n)"
proof -
  assume "n \<le> 32"
  then have "unat n \<le> 32" by (simp add: word_le_nat_alt)
  moreover have "wf_ts (example_prefix n)" "ts_lo (example_prefix n) \<le> ts_hi (example_prefix n)" "TS_IP_LEN (example_prefix n) = 4"
    "netbits (example_prefix n) = n"
    by (simp_all add: example_prefix_def example_ts16_def example_ts_def wf_ts_def ts_lo_def ts_hi_def get_from_address_def
        get_to_address_def TS_IP_LEN_def ip_len_defs)
  ultimately show ?thesis by (simp add: selector_ok_def)
qed


section \<open>The list of policies\<close>

text \<open>The states of a manager that its operations can reach.\<close>

inductive policy_reachable :: "ipsec_policy_mgr \<Rightarrow> bool" where
  init: "policy_reachable ipsec_policy_mgr_create"
| add: "policy_reachable m \<Longrightarrow> add_policy m s d src_ts dst_ts direction type sa mark priority = Some (st, m') \<Longrightarrow> policy_reachable m'"
| del: "policy_reachable m \<Longrightarrow> del_policy m s d src_ts dst_ts direction type sa mark priority = Some (st, m') \<Longrightarrow> policy_reachable m'"
| flush: "policy_reachable m \<Longrightarrow> flush_policies m = (st, m') \<Longrightarrow> policy_reachable m'"

text \<open>An entry is of a supported kind and carries the priority that \<open>find_by_packet\<close> relies on.\<close>

definition supported :: "policy_entry \<Rightarrow> bool" where
  "supported e \<longleftrightarrow> pol_type (pe_policy e) = POLICY_IPSEC \<and> pol_direction (pe_policy e) \<noteq> POLICY_FWD \<and> esp_use (pol_sa (pe_policy e)) \<and>
     ipcomp_transform (pol_sa (pe_policy e)) = IPCOMP_NONE \<and> cfg_mode (pol_sa (pe_policy e)) = MODE_TUNNEL"

definition wf_policies :: "policy_entry list \<Rightarrow> bool" where
  "wf_policies es \<longleftrightarrow> sorted (map pe_priority es) \<and> list_all supported es"

lemma set_insert_policy [simp]: "set (insert_policy e es) = insert e (set es)"
  by (induction es) auto

lemma insert_policy_sorted: "sorted (map pe_priority es) \<Longrightarrow> sorted (map pe_priority (insert_policy e es))"
  by (induction es) auto

lemma insert_policy_wf: "wf_policies es \<Longrightarrow> supported e \<Longrightarrow> wf_policies (insert_policy e es)"
  by (simp add: wf_policies_def insert_policy_sorted list_all_iff)

lemma remove_policy_set: "remove_policy p es = Some es' \<Longrightarrow> set es' \<subseteq> set es"
  by (induction es arbitrary: es') (auto split: if_splits)

lemma remove_policy_sorted: "remove_policy p es = Some es' \<Longrightarrow> sorted (map pe_priority es) \<Longrightarrow> sorted (map pe_priority es')"
  by (induction es arbitrary: es') (use remove_policy_set in \<open>fastforce split: if_splits\<close>)+

lemma remove_policy_wf: "remove_policy p es = Some es' \<Longrightarrow> wf_policies es \<Longrightarrow> wf_policies es'"
  using remove_policy_set [of p es es'] remove_policy_sorted [of p es es'] by (auto simp: wf_policies_def list_all_iff)

lemma policy_entry_supported:
  assumes "ipsec_policy_create s d src_ts dst_ts direction POLICY_IPSEC sa mark priority = Some (Some policy)" "direction \<noteq> POLICY_FWD"
    "policy_entry_create policy = Some e"
  shows "supported e"
  using assms by (auto simp: ipsec_policy_create_def policy_entry_create_def supported_def split: if_splits option.splits)

lemma add_policy_cases:
  assumes "add_policy m s d src_ts dst_ts direction type sa mark priority = Some (st, m')"
  shows "m' = m \<or> (\<exists>e. supported e \<and> m' = m\<lparr>policies := insert_policy e (policies m)\<rparr>)"
  using assms by (auto simp: add_policy_def dest: policy_entry_supported split: if_splits option.splits)

lemma policy_reachable_wf: "policy_reachable m \<Longrightarrow> wf_policies (policies m)"
proof (induction rule: policy_reachable.induct)
  case (add m s d src_ts dst_ts direction type sa mark priority st m')
  from add_policy_cases [OF add.hyps(2)] show ?case using add.IH insert_policy_wf by auto
next
  case (del m s d src_ts dst_ts direction type sa mark priority st m')
  then show ?case by (auto simp: del_policy_def intro: remove_policy_wf split: if_splits option.splits prod.splits)
qed (auto simp: ipsec_policy_mgr_create_def flush_policies_def wf_policies_def)

lemma find_sorted_minimal:
  assumes "sorted (map f xs)" "find p xs = Some x"
  shows "x \<in> set xs" "p x" "\<forall>y\<in>set xs. p y \<longrightarrow> f x \<le> f y"
  using assms by (induction xs) (auto split: if_splits)


text \<open>A selector that cloning does not change: unused bytes are zero, and ports of ICMP are in the upper byte.\<close>

definition selector_canonical :: "traffic_selector \<Rightarrow> bool" where
  "selector_canonical ts \<longleftrightarrow> selector_ok ts \<and> drop (TS_IP_LEN ts) (ts_from ts) = replicate (16 - TS_IP_LEN ts) 0 \<and>
     drop (TS_IP_LEN ts) (ts_to ts) = replicate (16 - TS_IP_LEN ts) 0 \<and>
     (protocol ts = IPPROTO_ICMP \<or> protocol ts = IPPROTO_ICMPV6 \<longrightarrow>
       (from_port ts = 0 \<or> 256 \<le> from_port ts) \<and> (to_port ts = 0 \<or> 256 \<le> to_port ts))"

lemma store_at_canonical:
  "length xs = 16 \<Longrightarrow> n \<le> 16 \<Longrightarrow> drop n xs = replicate (16 - n) 0 \<Longrightarrow> store_at (replicate 16 0) 0 (take n xs) = xs"
  by (simp add: store_at_def) (metis append_take_drop_id)

lemma ts_clone_canonical:
  assumes "selector_canonical ts"
  shows "ts_clone ts = Some ts"
proof -
  have ts: "ts_type ts \<noteq> TS_SECLABEL" "length (ts_from ts) = 16" "length (ts_to ts) = 16"
    using assms by (simp_all add: selector_canonical_def selector_ok_def wf_ts_def)
  have p: "push_bit 8 q = q" if "q = 0 \<or> 256 \<le> q" "q < 256" for q :: u16 using that by auto
  have t: "ts_type ts = TS_IPV4_ADDR_RANGE \<or> ts_type ts = TS_IPV6_ADDR_RANGE" using ts(1) by (cases "ts_type ts") simp_all
  have n: "TS_IP_LEN ts \<le> 16" using TS_IP_LEN_le [of ts] by simp
  have s: "store_at (replicate 16 0) 0 (take (TS_IP_LEN ts) (ts_from ts)) = ts_from ts"
    "store_at (replicate 16 0) 0 (take (TS_IP_LEN ts) (ts_to ts)) = ts_to ts"
    using assms ts n by (simp_all add: selector_canonical_def store_at_canonical)
  define q where "q = (\<lambda>p :: u16. if (protocol ts = IPPROTO_ICMP \<or> protocol ts = IPPROTO_ICMPV6) \<and> p < 256 then push_bit 8 p else p)"
  have q: "q (from_port ts) = from_port ts" "q (to_port ts) = to_port ts"
    using assms p by (auto simp: selector_canonical_def q_def)
  have "traffic_selector_create (protocol ts) (ts_type ts) (from_port ts) (to_port ts) = Some \<lparr>ts_type = ts_type ts, protocol = protocol ts,
      dynamic = False, netbits = 0, ts_from = replicate 16 0, ts_to = replicate 16 0, from_port = q (from_port ts), to_port = q (to_port ts)\<rparr>"
    using t by (auto simp: traffic_selector_create_def Let_def q_def ip_len_defs)
  then show ?thesis using s by (simp add: ts_clone_def Let_def q)
qed

lemma to_subnet_wf: "wf_ts ts \<Longrightarrow> wf_ts (snd (snd (snd (to_subnet ts))))"
  by (auto simp: to_subnet_def Let_def wf_ts_def split: prod.splits) (metis calc_netbits_fields snd_conv)+

lemma calculate_priority_selectors:
  assumes "calculate_priority p s d = Some (v, s', d')"
  shows "s' = snd (snd (snd (to_subnet s)))" "d' = snd (snd (snd (to_subnet d)))"
  using assms by (auto simp: calculate_priority_def Let_def split: prod.splits option.splits)

lemma remove_insert_policy:
  assumes "m e" "\<And>x. m x \<Longrightarrow> pe_priority x = pe_priority e"
  shows "remove_policy m (insert_policy e es) = Some es"
proof (induction es)
  case (Cons x es)
  have "\<not> m x" if "\<not> pe_priority x \<ge> pe_priority e" using that assms(2) [of x] by auto
  then show ?case using Cons assms(1) by simp
qed (use assms(1) in simp)

text \<open>
  C35.  A policy of a supported kind with well-formed selectors is always installed, and its deletion restores the list of policies
  exactly: it removes the policy that was added and no other, even if others have the same priority and the same selectors.  A
  configuration that is not supported is refused and installs nothing.
\<close>

theorem policy_add_del:
  assumes "selector_canonical src_ts" "selector_canonical dst_ts" "direction \<noteq> POLICY_FWD"
  shows "if esp_use sa \<and> ipcomp_transform sa = IPCOMP_NONE \<and> cfg_mode sa = MODE_TUNNEL
    then \<exists>m'. add_policy m s d src_ts dst_ts direction POLICY_IPSEC sa mark priority = Some (SUCCESS, m') \<and>
      length (policies m') = Suc (length (policies m)) \<and>
      del_policy m' s d src_ts dst_ts direction POLICY_IPSEC sa mark priority = Some (SUCCESS, m)
    else add_policy m s d src_ts dst_ts direction POLICY_IPSEC sa mark priority = Some (FAILED, m)"
proof (cases "esp_use sa \<and> ipcomp_transform sa = IPCOMP_NONE \<and> cfg_mode sa = MODE_TUNNEL")
  case True
  have ok: "selector_ok src_ts" "selector_ok dst_ts" using assms by (simp_all add: selector_canonical_def)
  obtain v s' d' where v: "calculate_priority priority src_ts dst_ts = Some (v, s', d')"
    using calculate_priority_value [OF ok] by blast
  have wf: "wf_ts s'" "wf_ts d'"
    using to_subnet_wf ok unfolding calculate_priority_selectors [OF v] by (simp_all add: selector_ok_def)
  then have eq: "ts_equals s' s'" "ts_equals d' d'" by (simp_all add: ts_equals_iff)
  define pol where "pol = \<lparr>pol_src = s, pol_dst = d, pol_src_ts = s', pol_dst_ts = d', pol_protocol = max (protocol src_ts) (protocol dst_ts),
    pol_direction = direction, pol_type = POLICY_IPSEC, pol_sa = sa, pol_mark = mark, pol_priority = priority\<rparr>"
  define e where "e = \<lparr>pe_priority = v, pe_policy = pol\<rparr>"
  have a: "add_policy m s d src_ts dst_ts direction POLICY_IPSEC sa mark priority = Some (SUCCESS, m\<lparr>policies := insert_policy e (policies m)\<rparr>)"
    using assms(3) True v ts_clone_canonical assms(1,2)
    by (simp add: add_policy_def ipsec_policy_create_def policy_entry_create_def pol_get_priority_def pol_get_source_ts_def
        pol_get_destination_ts_def e_def pol_def)
  have r: "remove_policy (\<lambda>current. pe_priority current = v \<and> policy_match (pe_policy current) s' d' direction (cfg_reqid sa) mark priority)
      (insert_policy e (policies m)) = Some (policies m)"
    by (rule remove_insert_policy) (simp_all add: e_def pol_def policy_match_def eq)
  have "length (insert_policy e es) = Suc (length es)" for es by (induction es) simp_all
  then show ?thesis using a True assms(3) v r by (simp add: del_policy_def)
qed (use assms(3) in \<open>auto simp: add_policy_def ipsec_policy_create_def\<close>)

definition example_cfg :: ipsec_sa_cfg_t where
  "example_cfg = \<lparr>cfg_mode = MODE_TUNNEL, cfg_reqid = 1, cfg_policy_count = 1, esp_use = True, esp_spi = 5, ah_use = False, ah_spi = 0,
     ipcomp_transform = IPCOMP_NONE, ipcomp_cpi = 0\<rparr>"

definition example_mark :: mark_t where "example_mark = \<lparr>mark_value = 0, mark_mask = 0\<rparr>"

definition example_add :: "policy_dir_t \<Rightarrow> ipsec_policy_mgr \<Rightarrow> (status_t \<times> ipsec_policy_mgr) option" where
  "example_add dir m = add_policy m (example_v4 1 0) (example_v4 2 0) (example_prefix 16) (example_prefix 16) dir POLICY_IPSEC
     example_cfg example_mark POLICY_PRIORITY_DEFAULT"

definition example_policies :: "policy_dir_t \<Rightarrow> ipsec_policy_mgr" where
  "example_policies dir = snd (the (example_add dir ipsec_policy_mgr_create))"

lemma example_prefix_canonical: "selector_canonical (example_prefix 16)"
  using example_prefix_ok [of 16]
  by (simp add: selector_canonical_def example_prefix_def example_ts16_def example_ts_def TS_IP_LEN_def ip_len_defs IPPROTO_ICMP_def IPPROTO_ICMPV6_def)

lemma example_policies_reachable: "policy_reachable (example_policies POLICY_OUT)"
proof -
  have "example_add POLICY_OUT ipsec_policy_mgr_create = Some (SUCCESS, example_policies POLICY_OUT)" by code_simp
  then show ?thesis unfolding example_add_def by (rule policy_reachable.add [OF policy_reachable.init])
qed


theorem policy_add_del_witness:
  "\<exists>m'. example_add POLICY_IN (example_policies POLICY_IN) = Some (SUCCESS, m') \<and> length (policies m') = 2 \<and>
    del_policy m' (example_v4 1 0) (example_v4 2 0) (example_prefix 16) (example_prefix 16) POLICY_IN POLICY_IPSEC example_cfg example_mark
      POLICY_PRIORITY_DEFAULT = Some (SUCCESS, example_policies POLICY_IN)"
proof -
  have "length (policies (example_policies POLICY_IN)) = 1" by code_simp
  then show ?thesis
    using policy_add_del [OF example_prefix_canonical example_prefix_canonical, of POLICY_IN example_cfg "example_policies POLICY_IN"
      "example_v4 1 0" "example_v4 2 0" example_mark POLICY_PRIORITY_DEFAULT]
    by (simp add: example_cfg_def example_add_def numeral_2_eq_2)
qed

end
