(* ===== verification/Ipsec_Sa_Mgr.thy ===== *)
theory Ipsec_Sa_Mgr
  imports Ipsec_Sa
begin

text \<open>
  The manager of the IPsec SAs (\<open>libipsec/ipsec_sa_mgr.c\<close>): installed SAs, allocated SPIs, pending acquires, and the protocol by which
  threads check SAs out and in and remove them.

  The code of an operation between the points where it gets and releases the mutex is one step.  A thread releases the mutex at the
  end of an operation and while it waits on the condition variable of an entry; an operation that may wait is therefore a first
  segment and the segments that run after a wake-up.  Each segment is a function that returns how it ends (\<open>outcome\<close>), the new
  state and, in order, its effects on the world around: signals on condition variables, events for the relay, scheduled jobs.

  Entries are identified by their address (\<open>e_ptr\<close>), which is also the identity of their SA.  The hash tables are a set and a map.
\<close>

section \<open>State\<close>

definition ACQUIRE_TIMEOUT :: int where "ACQUIRE_TIMEOUT = 10"

record 'a sa_entry =
  e_ptr :: nat
  e_sa :: "'a ipsec_sa"
  locked :: bool
  waiting_threads :: u32
  awaits_deletion :: bool

record ipsec_sa_expired =
  x_entry :: nat
  x_spi :: u32
  hard_offset :: u32

record ('a, 'r) sa_mgr =
  sas :: "'a sa_entry list"
  allocated_spis :: "u32 set"
  acquires :: "u32 \<rightharpoonup> int"
  mgr_rng :: "'r option"

definition ipsec_sa_mgr_create :: "('a, 'r) sa_mgr" where
  "ipsec_sa_mgr_create = \<lparr>sas = [], allocated_spis = {}, acquires = Map.empty, mgr_rng = None\<rparr>"

definition create_entry :: "nat \<Rightarrow> 'a ipsec_sa \<Rightarrow> 'a sa_entry" where
  "create_entry p sa = \<lparr>e_ptr = p, e_sa = sa, locked = False, waiting_threads = 0, awaits_deletion = False\<rparr>"

section \<open>Segments\<close>

datatype effect = Signal nat | Broadcast nat | Raise ipsec_event | Schedule ipsec_sa_expired u32

text \<open>The loop of \<open>wait_remove_entry\<close> that a thread is in.\<close>

datatype remove_phase = Until_Unlocked | Until_Unused

datatype 'x outcome = Returned 'x | Waits nat | Removes nat remove_phase

type_synonym ('s, 'x) segment = "'x outcome \<times> 's \<times> effect list"

definition and_then :: "('s, 'x) segment \<Rightarrow> ('x \<Rightarrow> 's \<Rightarrow> 'y \<times> 's \<times> effect list) \<Rightarrow> ('s, 'y) segment" where
  "and_then seg f = (case seg of
     (Returned x, s, es) \<Rightarrow> (let (y, s, es') = f x s in (Returned y, s, es @ es'))
   | (Waits p, s, es) \<Rightarrow> (Waits p, s, es)
   | (Removes p ph, s, es) \<Rightarrow> (Removes p ph, s, es))"

definition upd_entry :: "nat \<Rightarrow> ('a sa_entry \<Rightarrow> 'a sa_entry) \<Rightarrow> ('a, 'r) sa_mgr \<Rightarrow> ('a, 'r) sa_mgr" where
  "upd_entry p f this = this\<lparr>sas := map (\<lambda>e. if e_ptr e = p then f e else e) (sas this)\<rparr>"

definition get_entry :: "('a, 'r) sa_mgr \<Rightarrow> nat \<Rightarrow> 'a sa_entry option" where
  "get_entry this p = find (\<lambda>e. e_ptr e = p) (sas this)"

definition drop_entry :: "nat \<Rightarrow> ('a, 'r) sa_mgr \<Rightarrow> ('a, 'r) sa_mgr" where
  "drop_entry p this = this\<lparr>sas := filter (\<lambda>e. e_ptr e \<noteq> p) (sas this)\<rparr>"

text \<open>
  One round of the loop of \<open>wait_for_entry\<close>, and the code after it.  A thread that wakes up first takes itself off the
  count of waiting threads.
\<close>

definition wait_for_entry :: "('a, 'r) sa_mgr \<Rightarrow> 'a sa_entry \<Rightarrow> (('a, 'r) sa_mgr, bool) segment" where
  "wait_for_entry this entry =
     (if locked entry \<and> \<not> awaits_deletion entry
      then (Waits (e_ptr entry), upd_entry (e_ptr entry) (\<lambda>e. e\<lparr>waiting_threads := waiting_threads e + 1\<rparr>) this, [])
      else if awaits_deletion entry then (Returned False, this, [Signal (e_ptr entry)])
      else (Returned True, upd_entry (e_ptr entry) (\<lambda>e. e\<lparr>locked := True\<rparr>) this, []))"

definition wait_for_entry_wake :: "('a, 'r) sa_mgr \<Rightarrow> 'a sa_entry \<Rightarrow> (('a, 'r) sa_mgr, bool) segment" where
  "wait_for_entry_wake this entry =
     wait_for_entry (upd_entry (e_ptr entry) (\<lambda>e. e\<lparr>waiting_threads := waiting_threads e - 1\<rparr>) this)
       (entry\<lparr>waiting_threads := waiting_threads entry - 1\<rparr>)"

text \<open>The two loops of \<open>wait_remove_entry\<close>: \<open>None\<close> once the entry can be removed.\<close>

definition remove_round :: "remove_phase \<Rightarrow> 'a sa_entry \<Rightarrow> (remove_phase \<times> effect list) option" where
  "remove_round ph entry =
     (if ph = Until_Unlocked \<and> locked entry then Some (Until_Unlocked, [])
      else if waiting_threads entry > 0 then Some (Until_Unused, [Broadcast (e_ptr entry)])
      else None)"

text \<open>The result is \<open>Returned False\<close> if the entry is being removed by another thread.\<close>

definition wait_remove_entry :: "('a, 'r) sa_mgr \<Rightarrow> 'a sa_entry \<Rightarrow> (('a, 'r) sa_mgr, bool) segment" where
  "wait_remove_entry this entry =
     (if awaits_deletion entry then (Returned False, this, [])
      else let this = upd_entry (e_ptr entry) (\<lambda>e. e\<lparr>awaits_deletion := True\<rparr>) this
           in case remove_round Until_Unlocked entry of
                None \<Rightarrow> (Returned True, this, [])
              | Some (ph, es) \<Rightarrow> (Removes (e_ptr entry) ph, this, es))"

definition wait_remove_entry_wake :: "('a, 'r) sa_mgr \<Rightarrow> remove_phase \<Rightarrow> 'a sa_entry \<Rightarrow> (('a, 'r) sa_mgr, bool) segment" where
  "wait_remove_entry_wake this ph entry =
     (case remove_round ph entry of
        None \<Rightarrow> (Returned True, this, [])
      | Some (ph, es) \<Rightarrow> (Removes (e_ptr entry) ph, this, es))"

section \<open>Installing SAs\<close>

definition schedule_expiration :: "'a sa_entry \<Rightarrow> effect list" where
  "schedule_expiration entry =
     (let lifetime = lt_time (sa_get_lifetime (e_sa entry))
      in if life lifetime = 0 then []
         else if life lifetime \<le> rekey lifetime \<or> rekey lifetime = 0
         then [Schedule \<lparr>x_entry = e_ptr entry, x_spi = sa_get_spi (e_sa entry), hard_offset = 0\<rparr> (ucast (life lifetime))]
         else [Schedule \<lparr>x_entry = e_ptr entry, x_spi = sa_get_spi (e_sa entry), hard_offset = ucast (life lifetime - rekey lifetime)\<rparr>
                 (ucast (rekey lifetime))])"

text \<open>The address of the new entry, which \<open>malloc\<close> returns, is an argument.\<close>

definition add_sa :: "('n, 'c, 's, 'r) crypto \<Rightarrow> nat \<Rightarrow> (('n, 'c, 's, 'r) esp_aead, 'g) sa_mgr \<Rightarrow> host \<Rightarrow> host \<Rightarrow> u32 \<Rightarrow> byte \<Rightarrow> u32 \<Rightarrow> mark_t \<Rightarrow> u32 \<Rightarrow>
    lifetime_cfg_t \<Rightarrow> encryption_algorithm_t \<Rightarrow> chunk \<Rightarrow> integrity_algorithm_t \<Rightarrow> chunk \<Rightarrow> ipsec_mode_t \<Rightarrow> u16 \<Rightarrow> u16 \<Rightarrow> bool \<Rightarrow> bool \<Rightarrow> bool \<Rightarrow> bool \<Rightarrow> bool \<Rightarrow>
    status_t \<times> (('n, 'c, 's, 'r) esp_aead, 'g) sa_mgr \<times> effect list" where
  "add_sa cr p this s d spi protocol reqid mark tfc lifetime enc_alg enc_key int_alg int_key mode ipcomp cpi initiator encap esn inb update =
     (case ipsec_sa_create cr spi s d protocol reqid mark tfc lifetime enc_alg enc_key int_alg int_key mode ipcomp cpi encap esn inb of
        None \<Rightarrow> (FAILED, this, [])
      | Some sa_new \<Rightarrow>
          let this = (if update then this\<lparr>allocated_spis := allocated_spis this - {spi}\<rparr> else this);
              this = (if \<not> inb then this\<lparr>acquires := (acquires this)(reqid := None)\<rparr> else this)
          in if find (\<lambda>e. match_by_spi_src_dst (e_sa e) spi s d) (sas this) \<noteq> None then (FAILED, this, [])
             else let entry = create_entry p sa_new
                  in (SUCCESS, this\<lparr>sas := entry # sas this\<rparr>, schedule_expiration entry))"

section \<open>Allocating SPIs\<close>

definition allocate_spi :: "('a, 'r) sa_mgr \<Rightarrow> u32 \<Rightarrow> bool \<times> ('a, 'r) sa_mgr" where
  "allocate_spi this spi =
     (if spi \<in> allocated_spis this \<or> find (\<lambda>e. sa_get_spi (e_sa e) = spi \<and> is_inbound (e_sa e) = True) (sas this) \<noteq> None then (False, this)
      else (True, this\<lparr>allocated_spis := insert spi (allocated_spis this)\<rparr>))"

text \<open>The range SPIs are taken from, given the configured bounds.\<close>

definition spi_bounds :: "u32 \<Rightarrow> u32 \<Rightarrow> u32 \<times> u32" where
  "spi_bounds spi_min spi_max =
     (let (spi_min, spi_max) = (if spi_min > spi_max then (spi_max, spi_min) else (spi_min, spi_max))
      in (max spi_min 0x100, max spi_max 0x100))"

text \<open>
  The loop draws numbers until one is free; \<open>None\<close> means that it never ends.  \<open>get_bytes\<close> is the generator's method, which returns no
  bytes if it fails.
\<close>

partial_function (option) get_spi_loop :: "('r \<Rightarrow> nat \<Rightarrow> chunk option \<times> 'r) \<Rightarrow> u32 \<Rightarrow> u32 \<Rightarrow> ('a, 'r) sa_mgr \<Rightarrow> 'r \<Rightarrow>
    (status_t \<times> u32 option \<times> ('a, 'r) sa_mgr) option" where
  "get_spi_loop get_bytes spi_min spi_max this rng =
     (case get_bytes rng 4 of
        (None, rng) \<Rightarrow> Some (FAILED, None, this\<lparr>mgr_rng := Some rng\<rparr>)
      | (Some bytes, rng) \<Rightarrow>
          (let spi_new = htonl (spi_min + uletoh32 bytes mod (spi_max - spi_min + 1));
               (ok, this') = allocate_spi this spi_new
           in if ok then Some (SUCCESS, Some spi_new, this'\<lparr>mgr_rng := Some rng\<rparr>)
              else get_spi_loop get_bytes spi_min spi_max this rng))"

definition get_spi :: "'r option \<Rightarrow> ('r \<Rightarrow> nat \<Rightarrow> chunk option \<times> 'r) \<Rightarrow> u32 \<Rightarrow> u32 \<Rightarrow> ('a, 'r) sa_mgr \<Rightarrow>
    (status_t \<times> u32 option \<times> ('a, 'r) sa_mgr) option" where
  "get_spi create_rng get_bytes spi_min spi_max this =
     (let (spi_min, spi_max) = spi_bounds spi_min spi_max
      in case (case mgr_rng this of Some rng \<Rightarrow> Some rng | None \<Rightarrow> create_rng) of
           None \<Rightarrow> Some (FAILED, None, this)
         | Some rng \<Rightarrow> get_spi_loop get_bytes spi_min spi_max this rng)"

section \<open>Updating, querying and deleting SAs\<close>

text \<open>
  An operation that waits for an entry is its search for the entry, \<open>wait_for_entry\<close>, and the rest (\<open>_body\<close>), which also runs
  after a wake-up.
\<close>

definition release :: "nat \<Rightarrow> ('a, 'r) sa_mgr \<Rightarrow> ('a, 'r) sa_mgr" where
  "release p = upd_entry p (\<lambda>e. e\<lparr>locked := False\<rparr>)"

definition update_sa_body :: "nat \<Rightarrow> host \<Rightarrow> host \<Rightarrow> bool \<Rightarrow> bool \<Rightarrow> ('a, 'r) sa_mgr \<Rightarrow> status_t \<times> ('a, 'r) sa_mgr \<times> effect list" where
  "update_sa_body p new_src new_dst new_encap available this =
     (if available
      then (SUCCESS, release p (upd_entry p (\<lambda>e. e\<lparr>e_sa := sa_set_encap (sa_set_destination (sa_set_source (e_sa e) new_src) new_dst) new_encap\<rparr>) this),
            [Signal p])
      else (SUCCESS, this, []))"

definition update_sa :: "('a, 'r) sa_mgr \<Rightarrow> u32 \<Rightarrow> host \<Rightarrow> host \<Rightarrow> host \<Rightarrow> host \<Rightarrow> bool \<Rightarrow> (('a, 'r) sa_mgr, status_t) segment" where
  "update_sa this spi s d new_src new_dst new_encap =
     (case find (\<lambda>e. match_by_spi_src_dst (e_sa e) spi s d) (sas this) of
        None \<Rightarrow> (Returned FAILED, this, [])
      | Some entry \<Rightarrow> and_then (wait_for_entry this entry) (update_sa_body (e_ptr entry) new_src new_dst new_encap))"

definition query_sa_body :: "nat \<Rightarrow> bool \<Rightarrow> ('a, 'r) sa_mgr \<Rightarrow> (status_t \<times> (u64 \<times> u64 \<times> int) option) \<times> ('a, 'r) sa_mgr \<times> effect list" where
  "query_sa_body p available this =
     (if available then ((SUCCESS, map_option (\<lambda>e. get_usestats (e_sa e)) (get_entry this p)), release p this, [Signal p])
      else ((SUCCESS, None), this, []))"

definition query_sa :: "('a, 'r) sa_mgr \<Rightarrow> host \<Rightarrow> host \<Rightarrow> u32 \<Rightarrow> (('a, 'r) sa_mgr, status_t \<times> (u64 \<times> u64 \<times> int) option) segment" where
  "query_sa this s d spi =
     (case find (\<lambda>e. match_by_spi_src_dst (e_sa e) spi s d) (sas this) of
        None \<Rightarrow> (Returned (NOT_FOUND, None), this, [])
      | Some entry \<Rightarrow> and_then (wait_for_entry this entry) (query_sa_body (e_ptr entry)))"

definition free_spi :: "u32 \<Rightarrow> ('a, 'r) sa_mgr \<Rightarrow> status_t \<times> ('a, 'r) sa_mgr" where
  "free_spi spi this = (if spi \<in> allocated_spis this then SUCCESS else FAILED, this\<lparr>allocated_spis := allocated_spis this - {spi}\<rparr>)"

definition del_sa_body :: "nat \<Rightarrow> u32 \<Rightarrow> bool \<Rightarrow> ('a, 'r) sa_mgr \<Rightarrow> status_t \<times> ('a, 'r) sa_mgr \<times> effect list" where
  "del_sa_body p spi removable this =
     (if removable then (SUCCESS, drop_entry p this, []) else let (st, this) = free_spi spi this in (st, this, []))"

definition del_sa :: "('a, 'r) sa_mgr \<Rightarrow> host \<Rightarrow> host \<Rightarrow> u32 \<Rightarrow> (('a, 'r) sa_mgr, status_t) segment" where
  "del_sa this s d spi =
     (case find (\<lambda>e. match_by_spi_src_dst (e_sa e) spi s d) (sas this) of
        None \<Rightarrow> (let (st, this) = free_spi spi this in (Returned st, this, []))
      | Some entry \<Rightarrow> and_then (wait_remove_entry this entry) (del_sa_body (e_ptr entry) spi))"

section \<open>Checking SAs out and in\<close>

definition check_acquire :: "int \<Rightarrow> ('a, 'r) sa_mgr \<Rightarrow> u32 \<Rightarrow> bool \<times> ('a, 'r) sa_mgr" where
  "check_acquire now this reqid =
     (case acquires this reqid of
        None \<Rightarrow> (True, this\<lparr>acquires := (acquires this)(reqid \<mapsto> now)\<rparr>)
      | Some triggered \<Rightarrow>
          if now - triggered \<le> ACQUIRE_TIMEOUT then (False, this)
          else (True, this\<lparr>acquires := (acquires this)(reqid \<mapsto> now)\<rparr>))"

text \<open>The result is the SA, if one is checked out, and what \<open>*acquire\<close> is set to, if it is.\<close>

definition no_sa :: "int \<Rightarrow> u32 \<Rightarrow> bool \<Rightarrow> bool \<Rightarrow> ('a, 'r) sa_mgr \<Rightarrow> (nat option \<times> bool option) \<times> ('a, 'r) sa_mgr \<times> effect list" where
  "no_sa now reqid inb acquire this =
     (if acquire then if inb then ((None, Some False), this, []) else let (acq, this) = check_acquire now this reqid in ((None, Some acq), this, [])
      else ((None, None), this, []))"

definition checkout_by_reqid_body :: "int \<Rightarrow> u32 \<Rightarrow> bool \<Rightarrow> bool \<Rightarrow> nat \<Rightarrow> bool \<Rightarrow> ('a, 'r) sa_mgr \<Rightarrow>
    (nat option \<times> bool option) \<times> ('a, 'r) sa_mgr \<times> effect list" where
  "checkout_by_reqid_body now reqid inb acquire p available this =
     (if available then ((Some p, None), this, []) else no_sa now reqid inb acquire this)"

definition checkout_by_reqid :: "int \<Rightarrow> ('a, 'r) sa_mgr \<Rightarrow> u32 \<Rightarrow> bool \<Rightarrow> bool \<Rightarrow> (('a, 'r) sa_mgr, nat option \<times> bool option) segment" where
  "checkout_by_reqid now this reqid inb acquire =
     (case find (\<lambda>e. match_by_reqid (e_sa e) reqid inb) (sas this) of
        None \<Rightarrow> (let (r, this, es) = no_sa now reqid inb acquire this in (Returned r, this, es))
      | Some entry \<Rightarrow> and_then (wait_for_entry this entry) (checkout_by_reqid_body now reqid inb acquire (e_ptr entry)))"

definition checkout_by_spi_body :: "nat \<Rightarrow> bool \<Rightarrow> ('a, 'r) sa_mgr \<Rightarrow> nat option \<times> ('a, 'r) sa_mgr \<times> effect list" where
  "checkout_by_spi_body p available this = (if available then Some p else None, this, [])"

definition checkout_by_spi :: "('a, 'r) sa_mgr \<Rightarrow> u32 \<Rightarrow> host \<Rightarrow> (('a, 'r) sa_mgr, nat option) segment" where
  "checkout_by_spi this spi d =
     (case find (\<lambda>e. match_by_spi_dst (e_sa e) spi d) (sas this) of
        None \<Rightarrow> (Returned None, this, [])
      | Some entry \<Rightarrow> and_then (wait_for_entry this entry) (checkout_by_spi_body (e_ptr entry)))"

definition checkin :: "('a, 'r) sa_mgr \<Rightarrow> nat \<Rightarrow> ('a, 'r) sa_mgr \<times> effect list" where
  "checkin this p =
     (case get_entry this p of
        None \<Rightarrow> (this, [])
      | Some entry \<Rightarrow> if locked entry then (release p this, [Signal p]) else (this, []))"

section \<open>Expiration and flushing\<close>

datatype job_requeue_t = JOB_REQUEUE_NONE | JOB_RESCHEDULE u32

definition remove_entry_body :: "nat \<Rightarrow> bool \<Rightarrow> ('a, 'r) sa_mgr \<Rightarrow> job_requeue_t \<times> ('a, 'r) sa_mgr \<times> effect list" where
  "remove_entry_body p removable this = (JOB_REQUEUE_NONE, if removable then drop_entry p this else this, [])"

definition sa_expired :: "('a, 'r) sa_mgr \<Rightarrow> ipsec_sa_expired \<Rightarrow> (('a, 'r) sa_mgr, job_requeue_t) segment" where
  "sa_expired this expired =
     (case get_entry this (x_entry expired) of
        None \<Rightarrow> (Returned JOB_REQUEUE_NONE, this, [])
      | Some entry \<Rightarrow>
          if x_spi expired \<noteq> sa_get_spi (e_sa entry) then (Returned JOB_REQUEUE_NONE, this, [])
          else let (sa, evs) = expire (e_sa entry) (hard_offset expired = 0);
                   this = upd_entry (e_ptr entry) (\<lambda>e. e\<lparr>e_sa := sa\<rparr>) this
               in if hard_offset expired \<noteq> 0 then (Returned (JOB_RESCHEDULE (hard_offset expired)), this, map Raise evs)
                  else let (r, this, es) = and_then (wait_remove_entry this (entry\<lparr>e_sa := sa\<rparr>)) (remove_entry_body (e_ptr entry))
                       in (r, this, map Raise evs @ es))"

text \<open>
  The enumeration of \<open>flush_entries\<close> from an entry on: the entries that are left and, if the thread has to wait, the entry it waits for.
  Entries another thread removes are skipped.
\<close>

fun flush_from :: "'a sa_entry list \<Rightarrow> (nat \<times> remove_phase) option \<times> 'a sa_entry list \<times> effect list" where
  "flush_from [] = (None, [], [])"
| "flush_from (e # es) =
     (if awaits_deletion e then let (b, es, effs) = flush_from es in (b, e # es, effs)
      else case remove_round Until_Unlocked e of
             None \<Rightarrow> flush_from es
           | Some (ph, effs) \<Rightarrow> (Some (e_ptr e, ph), e\<lparr>awaits_deletion := True\<rparr> # es, effs))"

definition flush_outcome :: "(nat \<times> remove_phase) option \<Rightarrow> status_t outcome" where
  "flush_outcome b = (case b of None \<Rightarrow> Returned SUCCESS | Some (p, ph) \<Rightarrow> Removes p ph)"

definition flush_sas :: "('a, 'r) sa_mgr \<Rightarrow> (('a, 'r) sa_mgr, status_t) segment" where
  "flush_sas this = (let (b, es, effs) = flush_from (sas this) in (flush_outcome b, this\<lparr>sas := es\<rparr>, effs))"

text \<open>After a wake-up the entry at the enumerator is removed, if it can be, and the enumeration goes on with the one after it.\<close>

definition flush_sas_wake :: "('a, 'r) sa_mgr \<Rightarrow> remove_phase \<Rightarrow> 'a sa_entry \<Rightarrow> (('a, 'r) sa_mgr, status_t) segment" where
  "flush_sas_wake this ph entry =
     (case remove_round ph entry of
        Some (ph, effs) \<Rightarrow> (Removes (e_ptr entry) ph, this, effs)
      | None \<Rightarrow>
          let other = (\<lambda>e. e_ptr e \<noteq> e_ptr entry);
              (b, es, effs) = flush_from (tl (dropWhile other (sas this)))
          in (flush_outcome b, this\<lparr>sas := takeWhile other (sas this) @ es\<rparr>, effs))"

definition flush_allocated_spis :: "('a, 'r) sa_mgr \<Rightarrow> ('a, 'r) sa_mgr" where
  "flush_allocated_spis this = this\<lparr>allocated_spis := {}\<rparr>"

definition flush_acquires :: "('a, 'r) sa_mgr \<Rightarrow> ('a, 'r) sa_mgr" where
  "flush_acquires this = this\<lparr>acquires := Map.empty\<rparr>"

section \<open>SPIs are allocated\<close>

text \<open>The draws of a random number generator.  A good one never fails, and every string of four bytes comes up at some time.\<close>

primrec draw :: "('r \<Rightarrow> nat \<Rightarrow> chunk option \<times> 'r) \<Rightarrow> 'r \<Rightarrow> nat \<Rightarrow> chunk option" where
  "draw get_bytes rng 0 = fst (get_bytes rng 4)"
| "draw get_bytes rng (Suc n) = draw get_bytes (snd (get_bytes rng 4)) n"

definition good_rng :: "('r \<Rightarrow> nat \<Rightarrow> chunk option \<times> 'r) \<Rightarrow> 'r \<Rightarrow> bool" where
  "good_rng get_bytes rng \<longleftrightarrow> (\<forall>n. draw get_bytes rng n \<noteq> None) \<and> (\<forall>bs. length bs = 4 \<longrightarrow> (\<exists>n. draw get_bytes rng n = Some bs))"

definition spis_in_use :: "('a, 'r) sa_mgr \<Rightarrow> u32 set" where
  "spis_in_use this = allocated_spis this \<union> {sa_spi (e_sa e) |e. e \<in> set (sas this) \<and> sa_inbound (e_sa e)}"

lemma allocate_spi_eq:
  "allocate_spi this spi = (if spi \<in> spis_in_use this then (False, this) else (True, this\<lparr>allocated_spis := insert spi (allocated_spis this)\<rparr>))"
  by (auto simp: allocate_spi_def spis_in_use_def find_None_iff sa_defs)

lemma unat_spi_range:
  assumes "lo \<le> hi" "0x100 \<le> (lo :: u32)"
  shows "unat (hi - lo + 1) = unat hi - unat lo + 1"
proof -
  have "unat (hi - lo) = unat hi - unat lo" using assms(1) by (simp add: unat_sub)
  moreover have "256 \<le> unat lo" using assms(2) by (simp add: word_le_nat_alt)
  then have "unat hi - unat lo + 1 < 2 ^ 32" using unsigned_less [of hi, where 'a = nat] by simp
  ultimately show ?thesis by (simp add: unat_add_small)
qed

lemma spi_candidate:
  assumes "lo \<le> hi" "0x100 \<le> (lo :: u32)"
  shows "lo \<le> lo + x mod (hi - lo + 1) \<and> lo + x mod (hi - lo + 1) \<le> hi"
proof -
  have "unat (x mod (hi - lo + 1)) < unat hi - unat lo + 1"
    unfolding unat_mod unat_spi_range [OF assms] by (rule mod_less_divisor) simp
  moreover have "unat lo \<le> unat hi" using assms(1) by (simp add: word_le_nat_alt)
  ultimately have "unat lo + unat (x mod (hi - lo + 1)) \<le> unat hi" by linarith
  moreover have "unat hi < 2 ^ 32" using unat_word_less(2) [of hi] by simp
  ultimately show ?thesis by (simp add: word_le_nat_alt unat_add_small)
qed

lemma get_spi_loop_free:
  fixes this :: "('a, 'r) sa_mgr"
  defines "cand \<equiv> \<lambda>lo hi bs. htonl (lo + uletoh32 bs mod (hi - lo + 1))"
  assumes "\<forall>m. draw get_bytes rng m \<noteq> None" "draw get_bytes rng n = Some bs" "cand lo hi bs \<notin> spis_in_use this"
  shows "\<exists>bs rng'. cand lo hi bs \<notin> spis_in_use this \<and>
    get_spi_loop get_bytes lo hi this rng = Some (SUCCESS, Some (cand lo hi bs),
      this\<lparr>allocated_spis := insert (cand lo hi bs) (allocated_spis this), mgr_rng := Some rng'\<rparr>)"
  using assms(2,3)
proof (induction n arbitrary: rng)
  case 0
  then show ?case using assms(4) by (cases "get_bytes rng 4") (auto simp: get_spi_loop.simps [of get_bytes] Let_def cand_def allocate_spi_eq)
next
  case (Suc n)
  obtain b rng1 where g: "get_bytes rng 4 = (Some b, rng1)" using Suc.prems(1) by (metis draw.simps(1) eq_fst_iff not_None_eq)
  have "\<forall>m. draw get_bytes rng1 m \<noteq> None" using Suc.prems(1) g by (metis draw.simps(2) snd_conv)
  moreover have "draw get_bytes rng1 n = Some bs" using Suc.prems(2) g by simp
  ultimately obtain bs' rng' where r: "cand lo hi bs' \<notin> spis_in_use this" "get_spi_loop get_bytes lo hi this rng1 =
      Some (SUCCESS, Some (cand lo hi bs'), this\<lparr>allocated_spis := insert (cand lo hi bs') (allocated_spis this), mgr_rng := Some rng'\<rparr>)"
    using Suc.IH by blast
  show ?case
  proof (cases "cand lo hi b \<in> spis_in_use this")
    case True
    then have "get_spi_loop get_bytes lo hi this rng = get_spi_loop get_bytes lo hi this rng1"
      unfolding get_spi_loop.simps [of get_bytes _ _ _ rng] g by (simp add: Let_def cand_def allocate_spi_eq)
    then show ?thesis using r by auto
  next
    case False
    then have "get_spi_loop get_bytes lo hi this rng =
        Some (SUCCESS, Some (cand lo hi b), this\<lparr>allocated_spis := insert (cand lo hi b) (allocated_spis this), mgr_rng := Some rng1\<rparr>)"
      unfolding get_spi_loop.simps [of get_bytes _ _ _ rng] g by (simp add: Let_def cand_def allocate_spi_eq)
    then show ?thesis using False by blast
  qed
qed

lemma card_word_interval: "(lo :: u32) \<le> hi \<Longrightarrow> card {lo..hi} = unat hi - unat lo + 1"
proof -
  assume le: "lo \<le> hi"
  have "unat ` {lo..hi} = {unat lo..unat hi}"
  proof
    show "{unat lo..unat hi} \<subseteq> unat ` {lo..hi}"
    proof
      fix n assume n: "n \<in> {unat lo..unat hi}"
      then have "n < 2 ^ 32" using unsigned_less [of hi, where 'a = nat] by simp
      then have u: "unat (of_nat n :: u32) = n" by (simp add: unat_of_nat_small)
      then have "of_nat n \<in> {lo..hi}" using n by (simp add: word_le_nat_alt)
      then show "n \<in> unat ` {lo..hi}" using u by (metis imageI)
    qed
  qed (auto simp: word_le_nat_alt)
  moreover have "card (unat ` {lo..hi}) = card {lo..hi}" by (rule card_image) (simp add: inj_on_def word_unat_eq_iff)
  ultimately show ?thesis using le by (simp add: word_le_nat_alt Suc_diff_le)
qed

lemma free_spi_exists:
  assumes "(lo :: u32) \<le> hi" "card S < unat hi - unat lo + 1"
  obtains v where "lo \<le> v" "v \<le> hi" "htonl v \<notin> S"
proof -
  have "inj htonl" by (metis htonl_htonl injI)
  then have "card (htonl ` {lo..hi}) = unat hi - unat lo + 1" using card_word_interval [OF assms(1)] by (metis card_image inj_on_subset subset_UNIV)
  then have "\<not> htonl ` {lo..hi} \<subseteq> S" using assms(2) card_mono [of S "htonl ` {lo..hi}"] by fastforce
  then obtain v where "v \<in> {lo..hi}" "htonl v \<notin> S" by blast
  then show ?thesis using that [of v] by simp
qed

lemma spi_bounds_order: "spi_bounds a b = (lo, hi) \<Longrightarrow> lo \<le> hi \<and> 0x100 \<le> lo"
  by (auto simp: spi_bounds_def Let_def max_def split: if_splits)


text \<open>A generator that counts.\<close>

definition counting_rng :: "u32 \<Rightarrow> nat \<Rightarrow> chunk option \<times> u32" where
  "counting_rng r n = (Some (htoule32 r), r + 1)"

lemma good_counting_rng: "good_rng counting_rng r"
proof -
  have d: "draw counting_rng r n = Some (htoule32 (r + of_nat n))" for r n
    by (induction n arbitrary: r) (simp_all add: counting_rng_def algebra_simps)
  have "\<exists>n. draw counting_rng r n = Some bs" if "length bs = 4" for bs
  proof
    show "draw counting_rng r (unat (uletoh32 bs - r)) = Some bs" using that by (simp add: d htoule32_uletoh32)
  qed
  with d show ?thesis by (simp add: good_rng_def)
qed


end
