(* ===== verification/Sa_Threads.thy ===== *)
theory Sa_Threads
  imports Ipsec_Sa_Mgr
begin

text \<open>
  Threads that use the SA manager at the same time (\<open>libipsec/ipsec_sa_mgr.c\<close>): the protocol of \<open>locked\<close>, \<open>waiting_threads\<close>,
  \<open>awaits_deletion\<close> and the condition variables of the entries, as a transition system whose steps are the segments of theory
  \<open>Ipsec_Sa_Mgr\<close> in any order.

  A condition variable behaves as POSIX specifies it: a signal wakes one of the threads that wait on it, if there is one, a
  broadcast wakes all, and a thread may also wake up on its own.
\<close>

section \<open>Threads\<close>

datatype wait_call =
    Checkout_By_Reqid u32 bool bool
  | Checkout_By_Spi u32 host
  | Update_Sa u32 host host host host bool
  | Query_Sa host host u32

datatype remove_call =
    Del_Sa host host u32
  | Flush_Sas
  | Sa_Expired ipsec_sa_expired

text \<open>
  A thread is outside of the manager, waits in \<open>wait_for_entry\<close> or \<open>wait_remove_entry\<close> on an entry (the flag says whether it has been
  woken), or has checked an SA out.
\<close>

datatype thread = Idle | Waiting nat bool wait_call | Removing nat remove_phase bool remove_call | Holding nat

definition held :: "nat option \<Rightarrow> thread" where
  "held sa = (case sa of None \<Rightarrow> Idle | Some p \<Rightarrow> Holding p)"

definition after_wait :: "wait_call \<Rightarrow> ('x \<Rightarrow> thread) \<Rightarrow> ('s, 'x) segment \<Rightarrow> thread \<times> 's \<times> effect list" where
  "after_wait c f seg = (case seg of
     (Returned x, s, es) \<Rightarrow> (f x, s, es) | (Waits p, s, es) \<Rightarrow> (Waiting p False c, s, es) | (Removes p ph, s, es) \<Rightarrow> (Idle, s, es))"

definition after_remove :: "remove_call \<Rightarrow> ('s, 'x) segment \<Rightarrow> thread \<times> 's \<times> effect list" where
  "after_remove c seg = (case seg of
     (Returned x, s, es) \<Rightarrow> (Idle, s, es) | (Removes p ph, s, es) \<Rightarrow> (Removing p ph False c, s, es) | (Waits p, s, es) \<Rightarrow> (Idle, s, es))"

text \<open>The first segment of a call, and the segment after a wake-up on an entry.\<close>

definition start_wait :: "int \<Rightarrow> wait_call \<Rightarrow> ('a, 'r) sa_mgr \<Rightarrow> thread \<times> ('a, 'r) sa_mgr \<times> effect list" where
  "start_wait now c m = (case c of
     Checkout_By_Reqid reqid inb acquire \<Rightarrow> after_wait c (\<lambda>(sa, _). held sa) (checkout_by_reqid now m reqid inb acquire)
   | Checkout_By_Spi spi d \<Rightarrow> after_wait c held (checkout_by_spi m spi d)
   | Update_Sa spi s d new_src new_dst new_encap \<Rightarrow> after_wait c (\<lambda>_. Idle) (update_sa m spi s d new_src new_dst new_encap)
   | Query_Sa s d spi \<Rightarrow> after_wait c (\<lambda>_. Idle) (query_sa m s d spi))"

definition wake_wait :: "int \<Rightarrow> wait_call \<Rightarrow> 'a sa_entry \<Rightarrow> ('a, 'r) sa_mgr \<Rightarrow> thread \<times> ('a, 'r) sa_mgr \<times> effect list" where
  "wake_wait now c e m = (case c of
     Checkout_By_Reqid reqid inb acquire \<Rightarrow>
       after_wait c (\<lambda>(sa, _). held sa) (and_then (wait_for_entry_wake m e) (checkout_by_reqid_body now reqid inb acquire (e_ptr e)))
   | Checkout_By_Spi spi d \<Rightarrow> after_wait c held (and_then (wait_for_entry_wake m e) (checkout_by_spi_body (e_ptr e)))
   | Update_Sa spi s d new_src new_dst new_encap \<Rightarrow>
       after_wait c (\<lambda>_. Idle) (and_then (wait_for_entry_wake m e) (update_sa_body (e_ptr e) new_src new_dst new_encap))
   | Query_Sa s d spi \<Rightarrow> after_wait c (\<lambda>_. Idle) (and_then (wait_for_entry_wake m e) (query_sa_body (e_ptr e))))"

definition start_remove :: "remove_call \<Rightarrow> ('a, 'r) sa_mgr \<Rightarrow> thread \<times> ('a, 'r) sa_mgr \<times> effect list" where
  "start_remove c m = (case c of
     Del_Sa s d spi \<Rightarrow> after_remove c (del_sa m s d spi)
   | Flush_Sas \<Rightarrow> after_remove c (flush_sas m)
   | Sa_Expired x \<Rightarrow> after_remove c (sa_expired m x))"

definition wake_remove :: "remove_call \<Rightarrow> remove_phase \<Rightarrow> 'a sa_entry \<Rightarrow> ('a, 'r) sa_mgr \<Rightarrow> thread \<times> ('a, 'r) sa_mgr \<times> effect list" where
  "wake_remove c ph e m = (case c of
     Del_Sa s d spi \<Rightarrow> after_remove c (and_then (wait_remove_entry_wake m ph e) (del_sa_body (e_ptr e) spi))
   | Flush_Sas \<Rightarrow> after_remove c (flush_sas_wake m ph e)
   | Sa_Expired x \<Rightarrow> after_remove c (and_then (wait_remove_entry_wake m ph e) (remove_entry_body (e_ptr e))))"

section \<open>Condition variables\<close>

fun wake :: "thread \<Rightarrow> thread" where
  "wake (Waiting p _ c) = Waiting p True c"
| "wake (Removing p ph _ c) = Removing p ph True c"
| "wake t = t"

fun sleeping :: "nat \<Rightarrow> thread \<Rightarrow> bool" where
  "sleeping p (Waiting q n c) \<longleftrightarrow> q = p \<and> \<not> n"
| "sleeping p (Removing q ph n c) \<longleftrightarrow> q = p \<and> \<not> n"
| "sleeping p t \<longleftrightarrow> False"

definition signalled :: "nat \<Rightarrow> thread list \<Rightarrow> thread list \<Rightarrow> bool" where
  "signalled p ths ths' \<longleftrightarrow>
     (if \<exists>t \<in> set ths. sleeping p t then \<exists>i < length ths. sleeping p (ths ! i) \<and> ths' = ths[i := wake (ths ! i)] else ths' = ths)"

definition broadcast :: "nat \<Rightarrow> thread list \<Rightarrow> thread list" where
  "broadcast p ths = map (\<lambda>t. if sleeping p t then wake t else t) ths"

fun notified :: "effect list \<Rightarrow> thread list \<Rightarrow> thread list \<Rightarrow> bool" where
  "notified [] ths ths' \<longleftrightarrow> ths' = ths"
| "notified (Signal p # es) ths ths' \<longleftrightarrow> (\<exists>ths1. signalled p ths ths1 \<and> notified es ths1 ths')"
| "notified (Broadcast p # es) ths ths' \<longleftrightarrow> notified es (broadcast p ths) ths'"
| "notified (_ # es) ths ths' \<longleftrightarrow> notified es ths ths'"

section \<open>Steps\<close>

text \<open>
  Thread \<open>i\<close> runs a segment.  Its effects happen while it does not wait, then its new state takes effect.  A thread that holds an SA may
  change it (as encryption and decryption do), and does so only to its own.  New entries are at addresses that are not in use.
\<close>

definition ran :: "nat \<Rightarrow> thread list \<Rightarrow> thread \<Rightarrow> effect list \<Rightarrow> thread list \<Rightarrow> bool" where
  "ran i ths t es ths' \<longleftrightarrow> (\<exists>ths1. notified es (ths[i := Idle]) ths1 \<and> ths' = ths1[i := t])"

inductive mgr_step :: "(('n, 'c, 's, 'x) esp_aead, 'r) sa_mgr \<times> thread list \<Rightarrow> (('n, 'c, 's, 'x) esp_aead, 'r) sa_mgr \<times> thread list \<Rightarrow> bool" where
  start_wait: "i < length ths \<Longrightarrow> ths ! i = Idle \<Longrightarrow> start_wait now c m = (t, m', es) \<Longrightarrow> ran i ths t es ths' \<Longrightarrow> mgr_step (m, ths) (m', ths')"
| wake_wait: "i < length ths \<Longrightarrow> ths ! i = Waiting p n c \<Longrightarrow> get_entry m p = Some e \<Longrightarrow> wake_wait now c e m = (t, m', es) \<Longrightarrow>
    ran i ths t es ths' \<Longrightarrow> mgr_step (m, ths) (m', ths')"
| start_remove: "i < length ths \<Longrightarrow> ths ! i = Idle \<Longrightarrow> start_remove rc m = (t, m', es) \<Longrightarrow> ran i ths t es ths' \<Longrightarrow> mgr_step (m, ths) (m', ths')"
| wake_remove: "i < length ths \<Longrightarrow> ths ! i = Removing p ph n rc \<Longrightarrow> get_entry m p = Some e \<Longrightarrow> wake_remove rc ph e m = (t, m', es) \<Longrightarrow>
    ran i ths t es ths' \<Longrightarrow> mgr_step (m, ths) (m', ths')"
| check_in: "i < length ths \<Longrightarrow> ths ! i = Holding p \<Longrightarrow> checkin m p = (m', es) \<Longrightarrow> ran i ths Idle es ths' \<Longrightarrow> mgr_step (m, ths) (m', ths')"
| use_sa: "i < length ths \<Longrightarrow> ths ! i = Holding p \<Longrightarrow> m' = upd_entry p (\<lambda>e. e\<lparr>e_sa := f (e_sa e)\<rparr>) m \<Longrightarrow> mgr_step (m, ths) (m', ths)"
| add: "p \<notin> e_ptr ` set (sas m) \<Longrightarrow>
    add_sa cr p m s d spi protocol reqid mark tfc lifetime enc_alg enc_key int_alg int_key mode ipcomp cpi initiator encap esn inb update = (st, m', es) \<Longrightarrow>
    mgr_step (m, ths) (m', ths)"
| spi: "get_spi create_rng get_bytes spi_min spi_max m = Some (st, r, m') \<Longrightarrow> mgr_step (m, ths) (m', ths)"

text \<open>The states a manager with \<open>n\<close> threads can reach.\<close>

definition mgr_reachable :: "nat \<Rightarrow> (('n, 'c, 's, 'x) esp_aead, 'r) sa_mgr \<times> thread list \<Rightarrow> bool" where
  "mgr_reachable n st \<longleftrightarrow> mgr_step\<^sup>*\<^sup>* (ipsec_sa_mgr_create, replicate n Idle) st"

section \<open>Counting threads\<close>

fun waits :: "nat \<Rightarrow> thread \<Rightarrow> bool" where
  "waits p (Waiting q n c) \<longleftrightarrow> q = p"
| "waits p t \<longleftrightarrow> False"

fun removes :: "nat \<Rightarrow> thread \<Rightarrow> bool" where
  "removes p (Removing q ph n c) \<longleftrightarrow> q = p"
| "removes p t \<longleftrightarrow> False"

fun removes_unlocked :: "nat \<Rightarrow> thread \<Rightarrow> bool" where
  "removes_unlocked p (Removing q ph n c) \<longleftrightarrow> q = p \<and> ph = Until_Unused"
| "removes_unlocked p t \<longleftrightarrow> False"

fun holds :: "nat \<Rightarrow> thread \<Rightarrow> bool" where
  "holds p (Holding q) \<longleftrightarrow> q = p"
| "holds p t \<longleftrightarrow> False"

definition waiter :: "nat \<Rightarrow> thread \<Rightarrow> bool" where
  "waiter p t \<longleftrightarrow> waits p t \<or> removes p t"

definition awake :: "nat \<Rightarrow> thread \<Rightarrow> bool" where
  "awake p t \<longleftrightarrow> waiter p t \<and> \<not> sleeping p t"

definition cnt :: "('t \<Rightarrow> bool) \<Rightarrow> 't list \<Rightarrow> nat" where
  "cnt P ts = length (filter P ts)"

lemma cnt_Idle: "i < length ts \<Longrightarrow> \<not> P Idle \<Longrightarrow> cnt P ts = cnt P (ts[i := Idle]) + of_bool (P (ts ! i))"
proof (induction ts arbitrary: i)
  case (Cons t ts)
  then show ?case by (cases i) (auto simp: cnt_def)
qed simp

lemma cnt_set: "i < length ts \<Longrightarrow> ts ! i = Idle \<Longrightarrow> \<not> P Idle \<Longrightarrow> cnt P (ts[i := t]) = cnt P ts + of_bool (P t)"
  using cnt_Idle [of i "ts[i := t]" P] by simp (metis list_update_id)

lemma cnt_0_iff: "cnt P ts = 0 \<longleftrightarrow> (\<forall>t \<in> set ts. \<not> P t)"
  by (auto simp: cnt_def filter_empty_conv)

lemma cnt_le_length: "cnt P ts \<le> length ts"
  by (simp add: cnt_def)

section \<open>Waking threads\<close>

definition woken :: "thread list \<Rightarrow> thread list \<Rightarrow> bool" where
  "woken = list_all2 (\<lambda>a b. b = a \<or> b = wake a)"

lemma wake_simps [simp]:
  "waits p (wake t) = waits p t" "removes p (wake t) = removes p t" "holds p (wake t) = holds p t" "wake (wake t) = wake t"
  "removes_unlocked p (wake t) = removes_unlocked p t" "\<not> sleeping p (wake t)" "waiter p (wake t) = waiter p t" "wake t = Idle \<longleftrightarrow> t = Idle"
  by (cases t; simp add: waiter_def)+

lemma awake_wake [simp]: "awake p (wake t) = waiter p t"
  by (simp add: awake_def)

lemma woken_refl [simp]: "woken ts ts"
  by (simp add: woken_def list_all2_refl)

lemma woken_trans: "woken a b \<Longrightarrow> woken b c \<Longrightarrow> woken a c"
  unfolding woken_def list_all2_conv_all_nth by (metis wake_simps(4))

lemma woken_nth: "woken a b \<Longrightarrow> length b = length a \<and> (\<forall>i < length a. b ! i = a ! i \<or> b ! i = wake (a ! i))"
  by (auto simp: woken_def list_all2_conv_all_nth)

lemma woken_cnt: "woken a b \<Longrightarrow> (\<And>t. P (wake t) = P t) \<Longrightarrow> cnt P b = cnt P a"
  unfolding woken_def by (induction rule: list_all2_induct) (auto simp: cnt_def)

lemma woken_Idle: "woken a b \<Longrightarrow> i < length a \<Longrightarrow> a ! i = Idle \<Longrightarrow> b ! i = Idle"
  using woken_nth [of a b] by force

lemma signalled_woken: "signalled p a b \<Longrightarrow> woken a b"
  by (auto simp: signalled_def woken_def list_all2_conv_all_nth nth_list_update split: if_splits)

lemma broadcast_woken: "woken a (broadcast p a)"
  by (simp add: broadcast_def woken_def list_all2_conv_all_nth)

lemma notified_woken: "notified es a b \<Longrightarrow> woken a b"
  by (induction es a b rule: notified.induct) (auto intro: woken_trans signalled_woken broadcast_woken)

text \<open>Some thread that waits on the entry is awake, if any waits.\<close>

definition live :: "nat \<Rightarrow> thread list \<Rightarrow> bool" where
  "live p ts \<longleftrightarrow> (\<exists>t \<in> set ts. waiter p t) \<longrightarrow> (\<exists>t \<in> set ts. awake p t)"

lemma woken_exists:
  assumes "woken a b"
  shows "(\<exists>t \<in> set b. waiter p t) \<longleftrightarrow> (\<exists>t \<in> set a. waiter p t)" "(\<exists>t \<in> set a. awake p t) \<Longrightarrow> (\<exists>t \<in> set b. awake p t)"
proof -
  have "cnt (waiter p) b = cnt (waiter p) a" by (rule woken_cnt [OF assms]) simp
  then show "(\<exists>t \<in> set b. waiter p t) \<longleftrightarrow> (\<exists>t \<in> set a. waiter p t)" using cnt_0_iff by metis
  show "\<exists>t \<in> set b. awake p t" if w: "\<exists>t \<in> set a. awake p t"
  proof -
    obtain i where "i < length a" "awake p (a ! i)" using w by (auto simp: in_set_conv_nth)
    then have "i < length b" "awake p (b ! i)" using woken_nth [OF assms] by (auto simp: awake_def dest!: spec [of _ i])
    then show ?thesis by (auto intro: nth_mem)
  qed
qed

lemma live_woken: "live p a \<Longrightarrow> woken a b \<Longrightarrow> live p b"
  using woken_exists [of a b p] by (simp add: live_def)

lemma signalled_live: "signalled p a b \<Longrightarrow> live p b"
proof (cases "\<exists>t \<in> set a. sleeping p t")
  case True
  assume "signalled p a b"
  then obtain i where i: "i < length a" "sleeping p (a ! i)" "b = a[i := wake (a ! i)]" using True by (auto simp: signalled_def)
  then have "b ! i = wake (a ! i)" "i < length b" by simp_all
  moreover have "waiter p (a ! i)" using i(2) by (cases "a ! i") (simp_all add: waiter_def)
  ultimately have "awake p (b ! i)" "b ! i \<in> set b" using nth_mem [of i b] by simp_all
  then show ?thesis by (auto simp: live_def)
qed (auto simp: signalled_def live_def awake_def)

lemma broadcast_live: "live p (broadcast p a)"
  by (auto simp: live_def broadcast_def awake_def)

lemma notified_live: "notified es a b \<Longrightarrow> Signal p \<in> set es \<or> Broadcast p \<in> set es \<Longrightarrow> live p b"
proof (induction es a b rule: notified.induct)
  case (2 q es a b)
  then obtain c where "signalled q a c" "notified es c b" by auto
  then show ?case using 2 signalled_live [of q a c] live_woken [of p c b] notified_woken [of es c b] by fastforce
next
  case (3 q es a b)
  then show ?case using broadcast_live [of q a] live_woken [of p "broadcast q a" b] notified_woken [of es "broadcast q a" b] by fastforce
qed auto

text \<open>The list after a segment of thread \<open>i\<close>.\<close>

lemma live_set:
  assumes "i < length a" "a ! i = Idle" "woken a b" "live p b" "waiter p t \<Longrightarrow> cnt (waits p) a > 0"
  shows "live p (b[i := t])"
proof -
  have b: "i < length b" "b ! i = Idle" using woken_Idle [OF assms(3,1,2)] woken_nth [OF assms(3)] assms(1) by simp_all
  have e: "\<exists>t' \<in> set (b[i := t]). awake p t'" if w: "\<exists>t \<in> set b. awake p t"
  proof -
    obtain j where j: "j < length b" "awake p (b ! j)" using w by (auto simp: in_set_conv_nth)
    then have "j \<noteq> i" using b by (auto simp: awake_def waiter_def)
    then have "b[i := t] ! j = b ! j" by simp
    then show ?thesis using j by (metis length_list_update nth_mem)
  qed
  show ?thesis
  proof (cases "\<exists>t \<in> set b. waiter p t")
    case True
    then show ?thesis using assms(4) e by (simp add: live_def)
  next
    case False
    then have "\<not> (\<exists>t \<in> set a. waits p t)" using woken_exists(1) [OF assms(3)] by (auto simp: waiter_def)
    then have "cnt (waits p) a = 0" by (simp add: cnt_0_iff)
    then have "\<not> waiter p t" using assms(5) by auto
    then show ?thesis using False set_update_subset_insert [of b i t] by (auto simp: live_def)
  qed
qed

section \<open>What the segments do to the entries\<close>

type_synonym lock_state = "bool \<times> u32 \<times> bool"

definition view :: "'a sa_entry \<Rightarrow> lock_state" where
  "view e = (locked e, waiting_threads e, awaits_deletion e)"

definition locks :: "'a sa_entry list \<Rightarrow> nat \<rightharpoonup> lock_state" where
  "locks es = map_of (map (\<lambda>e. (e_ptr e, view e)) es)"

lemma locks_simps [simp]:
  "locks [] = Map.empty" "locks (e # es) = (locks es)(e_ptr e \<mapsto> view e)" "locks (es @ es') = locks es' ++ locks es"
  by (simp_all add: locks_def)

lemma locks_upd:
  assumes "\<And>e. e_ptr (f e) = e_ptr e" "\<And>e. view (f e) = g (view e)"
  shows "locks (map (\<lambda>e. if e_ptr e = p then f e else e) es) = (locks es)(p := map_option g (locks es p))"
  by (induction es) (auto simp: assms fun_eq_iff)

lemma locks_same: "map (\<lambda>e. (e_ptr e, view e)) es = map (\<lambda>e. (e_ptr e, view e)) es' \<Longrightarrow> locks es = locks es'"
  by (simp add: locks_def)

lemma locks_drop: "locks (filter (\<lambda>e. e_ptr e \<noteq> p) es) = (locks es)(p := None)"
  by (induction es) (auto simp: fun_eq_iff)

lemma locks_entry: "distinct (map e_ptr es) \<Longrightarrow> e \<in> set es \<Longrightarrow> locks es (e_ptr e) = Some (view e)"
  unfolding locks_def by (rule map_of_is_SomeI) (auto simp: comp_def)

lemma locks_None: "locks es p = None \<longleftrightarrow> p \<notin> e_ptr ` set es"
  by (simp add: locks_def map_of_eq_None_iff image_image)

lemma get_entry_locks: "map_option view (get_entry m p) = locks (sas m) p"
proof -
  have "map_option view (find (\<lambda>e. e_ptr e = p) es) = locks es p" for es :: "'a sa_entry list" by (induction es) auto
  then show ?thesis by (simp add: get_entry_def)
qed

lemma get_entry_mem: "get_entry m p = Some e \<Longrightarrow> e \<in> set (sas m) \<and> e_ptr e = p"
  unfolding get_entry_def by (auto simp: find_Some_iff)

text \<open>Neither does a thread know more about an entry than its lock, nor do the other fields of the manager matter.\<close>

definition same_locks :: "('a, 'r) sa_mgr \<Rightarrow> ('a, 'r) sa_mgr \<Rightarrow> bool" where
  "same_locks m m' \<longleftrightarrow> map e_ptr (sas m') = map e_ptr (sas m) \<and> locks (sas m') = locks (sas m)"

definition set_locks :: "('a, 'r) sa_mgr \<Rightarrow> (nat \<rightharpoonup> lock_state) \<Rightarrow> ('a, 'r) sa_mgr \<Rightarrow> bool" where
  "set_locks m L m' \<longleftrightarrow> map e_ptr (sas m') = map e_ptr (sas m) \<and> locks (sas m') = L"

lemma upd_entry_locks:
  assumes "\<And>e. e_ptr (f e) = e_ptr e" "\<And>e. view (f e) = g (view e)" "locks (sas m) p = Some v"
  shows "set_locks m ((locks (sas m))(p \<mapsto> g v)) (upd_entry p f m)"
proof -
  have "map e_ptr (sas (upd_entry p f m)) = map e_ptr (sas m)" by (simp add: upd_entry_def assms(1) comp_def cong: if_cong)
  then show ?thesis using locks_upd [of f g p "sas m", OF assms(1,2)] assms(3) by (simp add: set_locks_def upd_entry_def)
qed

text \<open>The results of a segment that waits for the entry \<open>p\<close>, and those of one that removes entries.\<close>

definition wait_result :: "(nat \<rightharpoonup> lock_state) \<Rightarrow> nat \<Rightarrow> wait_call \<Rightarrow> thread \<Rightarrow> (nat \<rightharpoonup> lock_state) \<Rightarrow> effect list \<Rightarrow> bool" where
  "wait_result L p c t L' es \<longleftrightarrow> (case L p of None \<Rightarrow> False | Some (l, n, a) \<Rightarrow>
     (l \<and> \<not> a \<and> t = Waiting p False c \<and> L' = L(p \<mapsto> (l, n + 1, a)) \<and> es = [] \<or>
      \<not> l \<and> \<not> a \<and> t = Holding p \<and> L' = L(p \<mapsto> (True, n, a)) \<and> es = [] \<or>
      (a \<or> \<not> l) \<and> t = Idle \<and> L' = L \<and> es = [Signal p]))"

definition blocked :: "nat \<Rightarrow> bool \<Rightarrow> u32 \<Rightarrow> remove_phase \<Rightarrow> effect list \<Rightarrow> bool" where
  "blocked p l n ph es \<longleftrightarrow> l \<and> ph = Until_Unlocked \<or> \<not> l \<and> n > 0 \<and> ph = Until_Unused \<and> Broadcast p \<in> set es"

definition remove_result :: "(nat \<rightharpoonup> lock_state) \<Rightarrow> remove_call \<Rightarrow> thread \<Rightarrow> (nat \<rightharpoonup> lock_state) \<Rightarrow> effect list \<Rightarrow> bool" where
  "remove_result L c t L' es \<longleftrightarrow> (\<exists>D. (\<forall>p \<in> D. L p = Some (False, 0, False)) \<and>
     (t = Idle \<and> L' = L |` (- D) \<or>
      (\<exists>p l n ph. (L |` (- D)) p = Some (l, n, False) \<and> L' = (L |` (- D))(p \<mapsto> (l, n, True)) \<and> t = Removing p ph False c \<and> blocked p l n ph es)))"

lemma wait_for_entry_cases:
  assumes "locks (sas m) (e_ptr e) = Some (view e)" "wait_for_entry m e = (r, m', es)"
  obtains (wait) "locked e" "\<not> awaits_deletion e" "r = Waits (e_ptr e)" "es = []"
      "set_locks m ((locks (sas m))(e_ptr e \<mapsto> (True, waiting_threads e + 1, False))) m'"
    | (deleted) "awaits_deletion e" "r = Returned False" "es = [Signal (e_ptr e)]" "m' = m"
    | (granted) "\<not> locked e" "\<not> awaits_deletion e" "r = Returned True" "es = []"
      "set_locks m ((locks (sas m))(e_ptr e \<mapsto> (True, waiting_threads e, False))) m'"
proof (cases "awaits_deletion e")
  case True
  then show ?thesis using assms(2) deleted by (simp add: wait_for_entry_def)
next
  case False
  show ?thesis
  proof (cases "locked e")
    case True
    have "set_locks m ((locks (sas m))(e_ptr e \<mapsto> (\<lambda>(l, n, a). (l, n + 1, a)) (view e))) (upd_entry (e_ptr e) (\<lambda>e. e\<lparr>waiting_threads := waiting_threads e + 1\<rparr>) m)"
      by (rule upd_entry_locks) (simp_all add: view_def assms(1))
    then show ?thesis using assms(2) wait True False by (simp add: wait_for_entry_def view_def)
  next
    case unlocked: False
    have "set_locks m ((locks (sas m))(e_ptr e \<mapsto> (\<lambda>(l, n, a). (True, n, a)) (view e))) (upd_entry (e_ptr e) (\<lambda>e. e\<lparr>locked := True\<rparr>) m)"
      by (rule upd_entry_locks) (simp_all add: view_def assms(1))
    then show ?thesis using assms(2) granted unlocked False by (simp add: wait_for_entry_def view_def)
  qed
qed

text \<open>What a call does once \<open>wait_for_entry\<close> returns or waits.\<close>

definition finish_wait :: "int \<Rightarrow> wait_call \<Rightarrow> nat \<Rightarrow> (('a, 'r) sa_mgr, bool) segment \<Rightarrow> thread \<times> ('a, 'r) sa_mgr \<times> effect list" where
  "finish_wait now c p seg = (case c of
     Checkout_By_Reqid reqid inb acquire \<Rightarrow> after_wait c (\<lambda>(sa, _). held sa) (and_then seg (checkout_by_reqid_body now reqid inb acquire p))
   | Checkout_By_Spi spi d \<Rightarrow> after_wait c held (and_then seg (checkout_by_spi_body p))
   | Update_Sa spi s d new_src new_dst new_encap \<Rightarrow> after_wait c (\<lambda>_. Idle) (and_then seg (update_sa_body p new_src new_dst new_encap))
   | Query_Sa s d spi \<Rightarrow> after_wait c (\<lambda>_. Idle) (and_then seg (query_sa_body p)))"

lemma wake_wait_finish: "wake_wait now c e m = finish_wait now c (e_ptr e) (wait_for_entry_wake m e)"
  by (cases c) (simp_all add: wake_wait_def finish_wait_def)

lemma no_sa_sas: "no_sa now reqid inb acquire m = (r, m', es) \<Longrightarrow> fst r = None \<and> sas m' = sas m \<and> es = []"
  by (auto simp: no_sa_def check_acquire_def split: if_splits option.splits)

lemma find_mem: "find P es = Some e \<Longrightarrow> e \<in> set es"
  by (auto simp: find_Some_iff)

lemma after_wait_returned: "after_wait c f (Returned x, s, es) = (f x, s, es)"
  by (simp add: after_wait_def)

lemma start_wait_finish:
  assumes "start_wait now c m = (t, m', es)"
  shows "t = Idle \<and> sas m' = sas m \<and> es = [] \<or> (\<exists>e \<in> set (sas m). finish_wait now c (e_ptr e) (wait_for_entry m e) = (t, m', es))"
proof (cases c)
  case c: (Checkout_By_Reqid reqid inb acquire)
  show ?thesis
  proof (cases "find (\<lambda>e. match_by_reqid (e_sa e) reqid inb) (sas m)")
    case None
    obtain r m1 es1 where n: "no_sa now reqid inb acquire m = (r, m1, es1)" by (cases "no_sa now reqid inb acquire m")
    from no_sa_sas [OF n] show ?thesis
      using assms c None n by (auto simp: start_wait_def checkout_by_reqid_def after_wait_returned held_def split: prod.splits)
  next
    case (Some e)
    then have "finish_wait now c (e_ptr e) (wait_for_entry m e) = (t, m', es)"
      using assms c by (simp add: start_wait_def checkout_by_reqid_def finish_wait_def)
    then show ?thesis using find_mem [OF Some] by blast
  qed
next
  case c: (Checkout_By_Spi spi d)
  show ?thesis
  proof (cases "find (\<lambda>e. match_by_spi_dst (e_sa e) spi d) (sas m)")
    case None
    then show ?thesis using assms c by (simp add: start_wait_def checkout_by_spi_def after_wait_returned held_def)
  next
    case (Some e)
    then have "finish_wait now c (e_ptr e) (wait_for_entry m e) = (t, m', es)"
      using assms c by (simp add: start_wait_def checkout_by_spi_def finish_wait_def)
    then show ?thesis using find_mem [OF Some] by blast
  qed
next
  case c: (Update_Sa spi s d new_src new_dst new_encap)
  show ?thesis
  proof (cases "find (\<lambda>e. match_by_spi_src_dst (e_sa e) spi s d) (sas m)")
    case None
    then show ?thesis using assms c by (simp add: start_wait_def update_sa_def after_wait_returned held_def)
  next
    case (Some e)
    then have "finish_wait now c (e_ptr e) (wait_for_entry m e) = (t, m', es)"
      using assms c by (simp add: start_wait_def update_sa_def finish_wait_def)
    then show ?thesis using find_mem [OF Some] by blast
  qed
next
  case c: (Query_Sa s d spi)
  show ?thesis
  proof (cases "find (\<lambda>e. match_by_spi_src_dst (e_sa e) spi s d) (sas m)")
    case None
    then show ?thesis using assms c by (simp add: start_wait_def query_sa_def after_wait_returned held_def)
  next
    case (Some e)
    then have "finish_wait now c (e_ptr e) (wait_for_entry m e) = (t, m', es)"
      using assms c by (simp add: start_wait_def query_sa_def finish_wait_def)
    then show ?thesis using find_mem [OF Some] by blast
  qed
qed

lemma finish_wait_waits: "finish_wait now c p (Waits q, m, es) = (Waiting q False c, m, es)"
  by (cases c) (simp_all add: finish_wait_def and_then_def after_wait_def)

lemma finish_wait_deleted:
  "\<exists>m'. finish_wait now c p (Returned False, m, es) = (Idle, m', es) \<and> sas m' = sas m"
proof (cases c)
  case (Checkout_By_Reqid reqid inb acquire)
  obtain r m' es' where n: "no_sa now reqid inb acquire m = (r, m', es')" by (cases "no_sa now reqid inb acquire m")
  from no_sa_sas [OF n] show ?thesis
    using Checkout_By_Reqid n by (simp add: finish_wait_def and_then_def after_wait_def checkout_by_reqid_body_def held_def split_beta)
qed (simp_all add: finish_wait_def and_then_def after_wait_def checkout_by_spi_body_def update_sa_body_def query_sa_body_def held_def)

lemma release_locks:
  "locks (sas m) p = Some (l, n, a) \<Longrightarrow> set_locks m ((locks (sas m))(p \<mapsto> (False, n, a))) (release p m)"
  using upd_entry_locks [of "\<lambda>e. e\<lparr>locked := False\<rparr>" "\<lambda>(l, n, a). (False, n, a)" m p "(l, n, a)"] by (simp add: view_def release_def)

lemma finish_wait_granted:
  fixes m :: "('a, 'r) sa_mgr"
  assumes "locks (sas m) p = Some (l, n, a)"
  shows "finish_wait now c p (Returned True, m, es) = (Holding p, m, es) \<or>
    (\<exists>m'. finish_wait now c p (Returned True, m, es) = (Idle, m', es @ [Signal p]) \<and> set_locks m ((locks (sas m))(p \<mapsto> (False, n, a))) m')"
proof (cases c)
  case (Update_Sa spi s d new_src new_dst new_encap)
  define m1 :: "('a, 'r) sa_mgr" where
    "m1 = upd_entry p (\<lambda>e. e\<lparr>e_sa := sa_set_encap (sa_set_destination (sa_set_source (e_sa e) new_src) new_dst) new_encap\<rparr>) m"
  have "set_locks m ((locks (sas m))(p \<mapsto> id (l, n, a))) m1"
    unfolding m1_def by (rule upd_entry_locks) (simp_all add: view_def assms)
  then have "set_locks m ((locks (sas m))(p \<mapsto> (False, n, a))) (release p m1)"
    using release_locks [of m1 p l n a] by (simp add: set_locks_def)
  then show ?thesis using Update_Sa by (simp add: finish_wait_def and_then_def after_wait_def update_sa_body_def m1_def)
next
  case (Query_Sa s d spi)
  then show ?thesis using release_locks [OF assms] by (simp add: finish_wait_def and_then_def after_wait_def query_sa_body_def)
qed (simp_all add: finish_wait_def and_then_def after_wait_def checkout_by_spi_body_def checkout_by_reqid_body_def held_def)

lemma finish_wait_result:
  assumes "locks (sas m) (e_ptr e) = Some (view e)" "finish_wait now c (e_ptr e) (wait_for_entry m e) = (t, m', es)"
  shows "wait_result (locks (sas m)) (e_ptr e) c t (locks (sas m')) es \<and> map e_ptr (sas m') = map e_ptr (sas m)"
proof -
  obtain r m1 es1 where w: "wait_for_entry m e = (r, m1, es1)" by (cases "wait_for_entry m e")
  from assms(1) w show ?thesis
  proof (cases rule: wait_for_entry_cases)
    case wait
    then show ?thesis using assms w by (simp add: finish_wait_waits wait_result_def view_def set_locks_def)
  next
    case deleted
    then show ?thesis using assms w finish_wait_deleted [of now c "e_ptr e" m "[Signal (e_ptr e)]"] by (auto simp: wait_result_def view_def)
  next
    case granted
    then have l: "locks (sas m1) (e_ptr e) = Some (True, waiting_threads e, False)" by (simp add: set_locks_def)
    from finish_wait_granted [OF l, of now c "[]"] show ?thesis
      using granted assms w by (auto simp: wait_result_def view_def set_locks_def fun_upd_idem)
  qed
qed

lemma start_wait_result:
  assumes "distinct (map e_ptr (sas m))" "start_wait now c m = (t, m', es)"
  shows "map e_ptr (sas m') = map e_ptr (sas m) \<and>
    (t = Idle \<and> locks (sas m') = locks (sas m) \<and> es = [] \<or> (\<exists>p. wait_result (locks (sas m)) p c t (locks (sas m')) es))"
proof -
  consider "t = Idle" "sas m' = sas m" "es = []" | e where "e \<in> set (sas m)" "finish_wait now c (e_ptr e) (wait_for_entry m e) = (t, m', es)"
    using start_wait_finish [OF assms(2)] by blast
  then show ?thesis
  proof cases
    case 2
    then show ?thesis using finish_wait_result [OF locks_entry [OF assms(1) 2(1)] 2(2)] by blast
  qed simp
qed

lemma wake_wait_result:
  assumes "get_entry m p = Some e" "wake_wait now c e m = (t, m', es)" "locks (sas m) p = Some (l, n, a)"
  shows "wait_result ((locks (sas m))(p \<mapsto> (l, n - 1, a))) p c t (locks (sas m')) es \<and> map e_ptr (sas m') = map e_ptr (sas m)"
proof -
  define m1 where "m1 = upd_entry (e_ptr e) (\<lambda>e. e\<lparr>waiting_threads := waiting_threads e - 1\<rparr>) m"
  define e1 where "e1 = e\<lparr>waiting_threads := waiting_threads e - 1\<rparr>"
  have e: "e_ptr e = p" "view e = (l, n, a)" using get_entry_mem [OF assms(1)] get_entry_locks [of m p] assms(1,3) by simp_all
  have "set_locks m ((locks (sas m))(p \<mapsto> (\<lambda>(l, n, a). (l, n - 1, a)) (l, n, a))) m1"
    unfolding m1_def e(1) by (rule upd_entry_locks) (simp_all add: view_def assms(3))
  then have l: "locks (sas m1) = (locks (sas m))(p \<mapsto> (l, n - 1, a))" "map e_ptr (sas m1) = map e_ptr (sas m)" by (simp_all add: set_locks_def)
  have v: "e_ptr e1 = p" "view e1 = (l, n - 1, a)" using e by (simp_all add: e1_def view_def)
  have "finish_wait now c (e_ptr e1) (wait_for_entry m1 e1) = (t, m', es)"
    using assms(2) v(1) e(1) by (simp add: wake_wait_finish wait_for_entry_wake_def m1_def e1_def)
  from finish_wait_result [OF _ this] show ?thesis using l v by simp
qed

lemma remove_round_None: "remove_round ph e = None \<longleftrightarrow> (ph = Until_Unused \<or> \<not> locked e) \<and> waiting_threads e = 0"
  using word_neq_0_conv [of "waiting_threads e"] by (cases ph) (auto simp: remove_round_def)

lemma remove_round_Some:
  "remove_round ph e = Some (ph', es) \<Longrightarrow> ph = Until_Unlocked \<and> locked e \<and> ph' = Until_Unlocked \<or>
    (ph = Until_Unused \<or> \<not> locked e) \<and> waiting_threads e > 0 \<and> ph' = Until_Unused \<and> es = [Broadcast (e_ptr e)]"
  by (cases ph) (auto simp: remove_round_def split: if_splits)

lemma remove_idle: "remove_result L c Idle L es"
  unfolding remove_result_def by (rule exI [of _ "{}"]) (simp add: restrict_map_def fun_eq_iff)

lemma remove_block: "L p = Some (l, n, False) \<Longrightarrow> blocked p l n ph es \<Longrightarrow> remove_result L c (Removing p ph False c) (L(p \<mapsto> (l, n, True))) es"
proof -
  have "L |` (- {}) = L" by (simp add: restrict_map_def fun_eq_iff)
  then show "L p = Some (l, n, False) \<Longrightarrow> blocked p l n ph es \<Longrightarrow> ?thesis"
    unfolding remove_result_def by (intro exI [of _ "{}"]) auto
qed

lemma remove_more:
  assumes "L p = Some (False, 0, False)" "remove_result (L(p := None)) c t L' es"
  shows "remove_result L c t L' es"
proof -
  obtain D where D: "\<forall>q \<in> D. (L(p := None)) q = Some (False, 0, False)"
    and r: "t = Idle \<and> L' = L(p := None) |` (- D) \<or> (\<exists>q l n ph. (L(p := None) |` (- D)) q = Some (l, n, False) \<and>
      L' = (L(p := None) |` (- D))(q \<mapsto> (l, n, True)) \<and> t = Removing q ph False c \<and> blocked q l n ph es)"
    using assms(2) unfolding remove_result_def by blast
  have e: "L(p := None) |` (- D) = L |` (- insert p D)" by (auto simp: restrict_map_def fun_eq_iff)
  have "\<forall>q \<in> insert p D. L q = Some (False, 0, False)" using D assms(1) by (auto split: if_splits)
  with r show ?thesis unfolding remove_result_def e by (intro exI [of _ "insert p D"]) blast
qed

lemma remove_one: "L p = Some (False, 0, False) \<Longrightarrow> remove_result L c Idle (L(p := None)) es"
  by (erule remove_more) (rule remove_idle)

lemma remove_result_effects: "remove_result L c t L' es \<Longrightarrow> remove_result L c t L' (es' @ es)"
  unfolding remove_result_def blocked_def by (elim exE conjE, intro exI conjI, assumption) auto

lemma locks_mid:
  assumes "distinct (map e_ptr (pre @ e # post))"
  shows "locks (pre @ post) = (locks (pre @ e # post))(e_ptr e := None)"
    "e_ptr e' = e_ptr e \<Longrightarrow> locks (pre @ e' # post) = (locks (pre @ e # post))(e_ptr e \<mapsto> view e')"
    "locks (pre @ e # post) (e_ptr e) = Some (view e)"
proof -
  have "locks pre (e_ptr e) = None" "locks post (e_ptr e) = None" using assms by (auto simp: locks_None)
  then show "locks (pre @ post) = (locks (pre @ e # post))(e_ptr e := None)"
    "e_ptr e' = e_ptr e \<Longrightarrow> locks (pre @ e' # post) = (locks (pre @ e # post))(e_ptr e \<mapsto> view e')"
    "locks (pre @ e # post) (e_ptr e) = Some (view e)"
    by (auto simp: map_add_def fun_eq_iff split: option.splits)
qed

definition flush_thread :: "(nat \<times> remove_phase) option \<Rightarrow> thread" where
  "flush_thread b = (case b of None \<Rightarrow> Idle | Some (p, ph) \<Rightarrow> Removing p ph False Flush_Sas)"

lemma flush_from_result:
  assumes "distinct (map e_ptr (pre @ es))" "flush_from es = (b, es', effs)"
  shows "remove_result (locks (pre @ es)) Flush_Sas (flush_thread b) (locks (pre @ es')) effs \<and> distinct (map e_ptr (pre @ es'))"
  using assms
proof (induction es arbitrary: pre b es' effs)
  case Nil
  then show ?case by (simp add: flush_thread_def remove_idle)
next
  case (Cons e es)
  note mid = locks_mid [OF Cons.prems(1)]
  show ?case
  proof (cases "awaits_deletion e")
    case True
    obtain b1 es1 effs1 where f: "flush_from es = (b1, es1, effs1)" by (cases "flush_from es")
    then have "b = b1" "es' = e # es1" "effs = effs1" using True Cons.prems(2) by simp_all
    then show ?thesis using Cons.IH [of "pre @ [e]", OF _ f] Cons.prems(1) by simp
  next
    case False
    show ?thesis
    proof (cases "remove_round Until_Unlocked e")
      case None
      then have f: "flush_from es = (b, es', effs)" using False Cons.prems(2) by simp
      have "locks (pre @ e # es) (e_ptr e) = Some (False, 0, False)" using None False mid(3) by (simp add: remove_round_None view_def)
      moreover have "remove_result ((locks (pre @ e # es))(e_ptr e := None)) Flush_Sas (flush_thread b) (locks (pre @ es')) effs"
        "distinct (map e_ptr (pre @ es'))"
        unfolding mid(1) [symmetric] using Cons.IH [of pre, OF _ f] Cons.prems(1) by simp_all
      ultimately show ?thesis using remove_more by blast
    next
      case (Some x)
      obtain ph effs1 where x: "x = (ph, effs1)" by (cases x)
      have r: "b = Some (e_ptr e, ph)" "es' = e\<lparr>awaits_deletion := True\<rparr> # es" "effs = effs1"
        using Some x False Cons.prems(2) by simp_all
      have l: "locks (pre @ e # es) (e_ptr e) = Some (locked e, waiting_threads e, False)" using False mid(3) by (simp add: view_def)
      have "blocked (e_ptr e) (locked e) (waiting_threads e) ph effs"
        using remove_round_Some [of Until_Unlocked e ph effs1] Some x r(3) by (auto simp: blocked_def)
      from remove_block [where L = "locks (pre @ e # es)" and p = "e_ptr e" and c = Flush_Sas, OF l this]
      have "remove_result (locks (pre @ e # es)) Flush_Sas (flush_thread b) (locks (pre @ es')) effs"
        unfolding r(2) using mid(2) [of "e\<lparr>awaits_deletion := True\<rparr>"] by (simp add: flush_thread_def view_def r(1) del: locks_simps)
      then show ?thesis using r Cons.prems(1) by simp
    qed
  qed
qed

lemma after_remove_flush: "after_remove Flush_Sas (flush_outcome b, m, effs) = (flush_thread b, m, effs)"
  by (simp add: after_remove_def flush_outcome_def flush_thread_def split: option.splits prod.splits)

lemma wait_remove_entry_result:
  assumes "distinct (map e_ptr (sas m))" "e \<in> set (sas m)" "wait_remove_entry m e = (r, m1, es)"
    "\<And>b m1. \<exists>x m' . body b m1 = (x, m', []) \<and> sas m' = (if b then filter (\<lambda>e'. e_ptr e' \<noteq> e_ptr e) (sas m1) else sas m1)"
    "after_remove c (and_then (r, m1, es) body) = (t, m', es')"
  shows "remove_result (locks (sas m)) c t (locks (sas m')) es' \<and> distinct (map e_ptr (sas m'))"
proof -
  have le: "locks (sas m) (e_ptr e) = Some (view e)" using locks_entry [OF assms(1,2)] .
  define u where "u = upd_entry (e_ptr e) (\<lambda>e. e\<lparr>awaits_deletion := True\<rparr>) m"
  have "set_locks m ((locks (sas m))(e_ptr e \<mapsto> (\<lambda>(l, n, a). (l, n, True)) (view e))) u"
    unfolding u_def by (rule upd_entry_locks) (simp_all add: view_def le)
  then have lu: "locks (sas u) = (locks (sas m))(e_ptr e \<mapsto> (locked e, waiting_threads e, True))" "map e_ptr (sas u) = map e_ptr (sas m)"
    by (simp_all add: set_locks_def view_def)
  consider "awaits_deletion e" "r = Returned False" "m1 = m" "es = []"
    | "\<not> awaits_deletion e" "remove_round Until_Unlocked e = None" "r = Returned True" "m1 = u" "es = []"
    | ph where "\<not> awaits_deletion e" "remove_round Until_Unlocked e = Some (ph, es)" "r = Removes (e_ptr e) ph" "m1 = u"
    using assms(3) by (auto simp: wait_remove_entry_def u_def Let_def split: if_splits option.splits prod.splits)
  then show ?thesis
  proof cases
    case 1
    then show ?thesis using assms(1,5) assms(4) [of False m] by (auto simp: and_then_def after_remove_def remove_idle)
  next
    case 2
    then have "sas m' = filter (\<lambda>e'. e_ptr e' \<noteq> e_ptr e) (sas u)" "t = Idle" "es' = []"
      using assms(5) assms(4) [of True u] by (auto simp: and_then_def after_remove_def)
    moreover have "locks (sas m) (e_ptr e) = Some (False, 0, False)" using 2 le by (simp add: remove_round_None view_def)
    moreover have "distinct (map e_ptr (filter (\<lambda>e'. e_ptr e' \<noteq> e_ptr e) (sas u)))" using assms(1) lu(2) by (metis distinct_map_filter)
    ultimately show ?thesis using remove_one [of "locks (sas m)" "e_ptr e"] by (simp add: locks_drop lu(1))
  next
    case 3
    then have "t = Removing (e_ptr e) ph False c" "m' = u" "es' = es" using assms(5) by (auto simp: and_then_def after_remove_def)
    moreover have l: "locks (sas m) (e_ptr e) = Some (locked e, waiting_threads e, False)" using 3(1) le by (simp add: view_def)
    moreover have "blocked (e_ptr e) (locked e) (waiting_threads e) ph es"
      using remove_round_Some [OF 3(2)] by (auto simp: blocked_def)
    from remove_block [where L = "locks (sas m)" and p = "e_ptr e" and c = c, OF l this]
    have "remove_result (locks (sas m)) c (Removing (e_ptr e) ph False c) (locks (sas u)) es" by (simp add: lu(1))
    ultimately show ?thesis using assms(1) lu(2) by simp
  qed
qed

lemma sa_expired_result:
  assumes "distinct (map e_ptr (sas m))" "start_remove (Sa_Expired x) m = (t, m', es)"
  shows "remove_result (locks (sas m)) (Sa_Expired x) t (locks (sas m')) es \<and> distinct (map e_ptr (sas m'))"
proof (cases "get_entry m (x_entry x)")
  case None
  then show ?thesis using assms by (auto simp: start_remove_def sa_expired_def after_remove_def remove_idle)
next
  case (Some e)
  obtain sa evs where x: "expire (e_sa e) (hard_offset x = 0) = (sa, evs)" by (cases "expire (e_sa e) (hard_offset x = 0)")
  define m1 where "m1 = upd_entry (e_ptr e) (\<lambda>e. e\<lparr>e_sa := sa\<rparr>) m"
  define e1 where "e1 = e\<lparr>e_sa := sa\<rparr>"
  have e: "e \<in> set (sas m)" using get_entry_mem [OF Some] by simp
  have le: "locks (sas m) (e_ptr e) = Some (view e)" using locks_entry [OF assms(1) e] .
  have "set_locks m ((locks (sas m))(e_ptr e \<mapsto> id (view e))) m1"
    unfolding m1_def by (rule upd_entry_locks) (simp_all add: view_def le)
  then have m1: "locks (sas m1) = locks (sas m)" "map e_ptr (sas m1) = map e_ptr (sas m)" using le by (simp_all add: set_locks_def fun_upd_idem)
  have e1: "e1 \<in> set (sas m1)" "e_ptr e1 = e_ptr e" using e by (auto simp: m1_def e1_def upd_entry_def)
  consider "t = Idle" "m' = m" "es = []" | "t = Idle" "m' = m1" | r m2 es1 es2 where "wait_remove_entry m1 e1 = (r, m2, es1)"
      "after_remove (Sa_Expired x) (and_then (r, m2, es1) (remove_entry_body (e_ptr e))) = (t, m', es2)" "es = map Raise evs @ es2"
  proof (cases "x_spi x = sa_get_spi (e_sa e) \<and> hard_offset x = 0")
    case True
    obtain r m2 es1 where w: "wait_remove_entry m1 e1 = (r, m2, es1)" by (cases "wait_remove_entry m1 e1")
    obtain r2 m3 es2 where a: "and_then (r, m2, es1) (remove_entry_body (e_ptr e)) = (r2, m3, es2)"
      by (cases "and_then (r, m2, es1) (remove_entry_body (e_ptr e))")
    have "after_remove (Sa_Expired x) (r2, m3, map Raise evs @ es2) = (t, m', es)"
      using assms(2) Some x True w a by (simp add: start_remove_def sa_expired_def m1_def e1_def)
    then have "after_remove (Sa_Expired x) (r2, m3, es2) = (t, m', es2)" "es = map Raise evs @ es2"
      by (auto simp: after_remove_def split: outcome.splits)
    then show ?thesis using that(3) w a by auto
  next
    case False
    then show ?thesis using that(1,2) assms(2) Some x
      by (cases "x_spi x = sa_get_spi (e_sa e)") (auto simp: start_remove_def sa_expired_def m1_def after_remove_def)
  qed
  then show ?thesis
  proof cases
    case 3
    have "\<exists>x m'. remove_entry_body (e_ptr e) b m1 = (x, m', []) \<and> sas m' = (if b then filter (\<lambda>e'. e_ptr e' \<noteq> e_ptr e1) (sas m1) else sas m1)" for b m1
      by (simp add: remove_entry_body_def drop_entry_def e1(2))
    from wait_remove_entry_result [OF _ e1(1) 3(1) this 3(2)] show ?thesis
      using assms(1) m1 3(3) by (auto intro: remove_result_effects)
  qed (use assms(1) m1 in \<open>simp_all add: remove_idle\<close>)
qed

lemma start_remove_result:
  assumes "distinct (map e_ptr (sas m))" "start_remove c m = (t, m', es)"
  shows "remove_result (locks (sas m)) c t (locks (sas m')) es \<and> distinct (map e_ptr (sas m'))"
proof (cases c)
  case c: (Del_Sa s d spi)
  show ?thesis
  proof (cases "find (\<lambda>e. match_by_spi_src_dst (e_sa e) spi s d) (sas m)")
    case None
    then show ?thesis using assms c by (auto simp: start_remove_def del_sa_def free_spi_def after_remove_def remove_idle)
  next
    case (Some e)
    obtain r m1 es1 where w: "wait_remove_entry m e = (r, m1, es1)" by (cases "wait_remove_entry m e")
    have "\<exists>x m'. del_sa_body (e_ptr e) spi b m1 = (x, m', []) \<and> sas m' = (if b then filter (\<lambda>e'. e_ptr e' \<noteq> e_ptr e) (sas m1) else sas m1)" for b m1
      by (simp add: del_sa_body_def drop_entry_def free_spi_def)
    from wait_remove_entry_result [OF assms(1) find_mem [OF Some] w this] show ?thesis
      using assms(2) c Some w by (simp add: start_remove_def del_sa_def)
  qed
next
  case Flush_Sas
  obtain b es1 effs where f: "flush_from (sas m) = (b, es1, effs)" by (cases "flush_from (sas m)")
  then show ?thesis
    using assms Flush_Sas flush_from_result [of "[]" "sas m", OF _ f] by (auto simp: start_remove_def flush_sas_def after_remove_flush)
next
  case (Sa_Expired x)
  then show ?thesis using sa_expired_result assms by blast
qed

text \<open>A remover that wakes up: it waits again, or removes the entry and, when it flushes, goes on.\<close>

definition blocked_again :: "nat \<Rightarrow> bool \<Rightarrow> u32 \<Rightarrow> remove_phase \<Rightarrow> remove_phase \<Rightarrow> effect list \<Rightarrow> bool" where
  "blocked_again p l n ph ph' es \<longleftrightarrow> ph = Until_Unlocked \<and> l \<and> ph' = Until_Unlocked \<or>
     (ph = Until_Unused \<or> \<not> l) \<and> n > 0 \<and> ph' = Until_Unused \<and> Broadcast p \<in> set es"

lemma wake_remove_result:
  assumes "distinct (map e_ptr (sas m))" "get_entry m p = Some e" "wake_remove c ph e m = (t, m', es)" "locks (sas m) p = Some (l, n, a)"
  shows "(\<exists>ph'. t = Removing p ph' False c \<and> m' = m \<and> blocked_again p l n ph ph' es) \<or>
    (ph = Until_Unused \<or> \<not> l) \<and> n = 0 \<and> remove_result ((locks (sas m))(p := None)) c t (locks (sas m')) es \<and> distinct (map e_ptr (sas m'))"
proof -
  have e: "e \<in> set (sas m)" "e_ptr e = p" using get_entry_mem [OF assms(2)] by simp_all
  then have v: "locked e = l" "waiting_threads e = n" using locks_entry [OF assms(1), of e] assms(4) by (simp_all add: view_def)
  show ?thesis
  proof (cases "remove_round ph e")
    case (Some x)
    obtain ph' es' where x: "x = (ph', es')" by (cases x)
    then have "t = Removing p ph' False c" "m' = m" "es = es'"
      using assms(3) Some e(2)
      by (cases c; simp add: wake_remove_def wait_remove_entry_wake_def flush_sas_wake_def and_then_def after_remove_def)+
    then show ?thesis using remove_round_Some [of ph e ph' es'] Some x v e(2) by (auto simp: blocked_again_def)
  next
    case None
    then have n: "ph = Until_Unused \<or> \<not> l" "n = 0" using v by (simp_all add: remove_round_None)
    show ?thesis
    proof (cases "c = Flush_Sas")
      case False
      then have "t = Idle" "m' = drop_entry p m"
        using assms(3) None e(2)
        by (cases c; simp add: wake_remove_def wait_remove_entry_wake_def and_then_def after_remove_def del_sa_body_def remove_entry_body_def)+
      moreover have "distinct (map e_ptr (sas (drop_entry p m)))" using assms(1) by (simp add: drop_entry_def distinct_map_filter)
      ultimately show ?thesis using n by (simp add: drop_entry_def locks_drop remove_idle)
    next
      case True
      define pre where "pre = takeWhile (\<lambda>e. e_ptr e \<noteq> p) (sas m)"
      define post where "post = tl (dropWhile (\<lambda>e. e_ptr e \<noteq> p) (sas m))"
      have "dropWhile (\<lambda>e. e_ptr e \<noteq> p) (sas m) \<noteq> []" using e by (auto simp: dropWhile_eq_Nil_conv)
      then obtain e' where e': "dropWhile (\<lambda>e. e_ptr e \<noteq> p) (sas m) = e' # post" "e_ptr e' = p"
        using hd_dropWhile [of "\<lambda>e. e_ptr e \<noteq> p" "sas m"] by (cases "dropWhile (\<lambda>e. e_ptr e \<noteq> p) (sas m)") (auto simp: post_def)
      then have m: "sas m = pre @ e' # post" using takeWhile_dropWhile_id [of "\<lambda>e. e_ptr e \<noteq> p" "sas m"] by (simp add: pre_def)
      obtain b es1 effs where f: "flush_from post = (b, es1, effs)" by (cases "flush_from post")
      have r: "t = flush_thread b" "m' = m\<lparr>sas := pre @ es1\<rparr>" "es = effs"
        using assms(3) True None e(2) f
        by (simp_all add: wake_remove_def flush_sas_wake_def after_remove_flush Let_def pre_def [symmetric] post_def [symmetric])
      have "locks (pre @ post) = (locks (sas m))(p := None)" using locks_mid(1) [of pre e' post] assms(1) m e'(2) by simp
      then show ?thesis using flush_from_result [of pre post, OF _ f] assms(1) m r n True by simp
    qed
  qed
qed

section \<open>The invariant\<close>

definition safe :: "lock_state option \<Rightarrow> nat \<Rightarrow> thread list \<Rightarrow> bool" where
  "safe v p ths = (case v of
     None \<Rightarrow> cnt (waits p) ths = 0 \<and> cnt (removes p) ths = 0 \<and> cnt (holds p) ths = 0
   | Some (l, n, a) \<Rightarrow> n = of_nat (cnt (waits p) ths) \<and> cnt (holds p) ths = of_bool l \<and> cnt (removes p) ths = of_bool a \<and>
       (l \<longrightarrow> cnt (removes_unlocked p) ths = 0))"

definition unlocked :: "lock_state option \<Rightarrow> bool" where
  "unlocked v = (case v of None \<Rightarrow> True | Some (l, _) \<Rightarrow> \<not> l)"

definition ok :: "(nat \<rightharpoonup> lock_state) \<Rightarrow> thread list \<Rightarrow> bool" where
  "ok L ths \<longleftrightarrow> (\<forall>p. safe (L p) p ths \<and> (unlocked (L p) \<longrightarrow> live p ths))"

lemma cnt_ran:
  assumes "i < length ths" "ths ! i = Idle" "woken ths ths1" "\<not> P Idle" "\<And>t. P (wake t) = P t"
  shows "cnt P (ths1[i := t]) = cnt P ths + of_bool (P t)"
proof -
  have "i < length ths1" "ths1 ! i = Idle" using woken_Idle [OF assms(3,1,2)] woken_nth [OF assms(3)] assms(1) by simp_all
  then show ?thesis using cnt_set [of i ths1 P t] assms(4) woken_cnt [OF assms(3), of P] assms(5) by simp
qed

lemma safe_ran:
  assumes "i < length ths" "ths ! i = Idle" "woken ths ths1" "\<not> waits p t" "\<not> removes p t" "\<not> holds p t"
  shows "safe v p (ths1[i := t]) = safe v p ths"
proof -
  have "\<not> removes_unlocked p t" using assms(5) by (cases t) simp_all
  then show ?thesis using assms(4-6) by (simp add: safe_def cnt_ran [OF assms(1-3)] split: option.splits)
qed

lemma ok_wait:
  assumes "i < length ths" "ths ! i = Idle" "\<And>q. safe (L q) q ths" "\<And>q. q \<noteq> p \<Longrightarrow> unlocked (L q) \<Longrightarrow> live q ths"
    "wait_result L p c t L' es" "notified es ths ths1"
  shows "ok L' (ths1[i := t])"
  unfolding ok_def
proof (intro allI conjI impI)
  fix q
  note w = notified_woken [OF assms(6)]
  note cr = cnt_ran [OF assms(1,2) w]
  obtain l n a where L: "L p = Some (l, n, a)" using assms(5) by (auto simp: wait_result_def split: option.splits)
  note s = assms(3) [of p, unfolded L safe_def, simplified]
  have r: "l \<and> \<not> a \<and> t = Waiting p False c \<and> L' = L(p \<mapsto> (l, n + 1, a)) \<and> es = [] \<or>
      \<not> l \<and> \<not> a \<and> t = Holding p \<and> L' = L(p \<mapsto> (True, n, a)) \<and> es = [] \<or> (a \<or> \<not> l) \<and> t = Idle \<and> L' = L \<and> es = [Signal p]"
    using assms(5) L by (simp add: wait_result_def)
  have u: "cnt (removes_unlocked p) ths \<le> cnt (removes p) ths"
    unfolding cnt_def by (induction ths) (auto split: thread.splits elim: removes_unlocked.elims)
  have o: "L' q = L q" "\<not> waits q t" "\<not> removes q t" "\<not> holds q t" if "q \<noteq> p" using r that by auto
  show "safe (L' q) q (ths1[i := t])"
  proof (cases "q = p")
    case True
    then show ?thesis using r s u L by (elim disjE) (simp_all add: safe_def cr split: option.splits)
  next
    case False
    then show ?thesis using o safe_ran [OF assms(1,2) w] assms(3) by simp
  qed
  assume un: "unlocked (L' q)"
  have "live q ths1" if "q = p"
    using r un that notified_live [OF assms(6), of p] by (auto simp: unlocked_def)
  moreover have "live q ths1" if "q \<noteq> p" using assms(4) [OF that] o(1) [OF that] un live_woken [OF _ w] by simp
  moreover have "\<not> waiter q t" using r un o by (auto simp: waiter_def unlocked_def split: if_splits)
  ultimately show "live q (ths1[i := t])" using live_set [OF assms(1,2) w] by blast
qed

lemma of_nat_cnt_0: "length ths < 2 ^ 32 \<Longrightarrow> (of_nat (cnt P ths) :: u32) = 0 \<longleftrightarrow> cnt P ths = 0"
proof -
  assume "length ths < 2 ^ 32"
  then have "unat (of_nat (cnt P ths) :: u32) = cnt P ths" using cnt_le_length [of P ths] by (simp add: unat_of_nat_small)
  then show ?thesis by (simp add: word_unat_eq_iff)
qed

lemma ok_dropped:
  assumes "ok L ths" "length ths < 2 ^ 32" "\<forall>p \<in> D. L p = Some (False, 0, False)"
  shows "ok (L |` (- D)) ths"
  unfolding ok_def
proof (intro allI)
  fix q
  have o: "safe (L q) q ths" "unlocked (L q) \<longrightarrow> live q ths" using assms(1) by (simp_all add: ok_def)
  show "safe ((L |` (- D)) q) q ths \<and> (unlocked ((L |` (- D)) q) \<longrightarrow> live q ths)"
  proof (cases "q \<in> D")
    case True
    then have "L q = Some (False, 0, False)" using assms(3) by simp
    moreover from this have "(of_nat (cnt (waits q) ths) :: u32) = 0" "cnt (holds q) ths = 0" "cnt (removes q) ths = 0" "live q ths"
      using o by (simp_all add: safe_def unlocked_def)
    ultimately show ?thesis unfolding of_nat_cnt_0 [OF assms(2)] using True by (simp add: safe_def)
  next
    case False
    then show ?thesis using o by simp
  qed
qed

lemma ok_Idle:
  assumes "i < length ths" "ths ! i = Idle" "ok L ths" "woken ths ths1"
  shows "ok L (ths1[i := Idle])"
  using assms(3) safe_ran [OF assms(1,2,4), of _ Idle] live_set [OF assms(1,2,4), of _ Idle] live_woken [OF _ assms(4)]
  by (simp add: ok_def waiter_def)

text \<open>Thread \<open>i\<close> waits to remove \<open>p\<close>, which no other thread removes.\<close>

lemma ok_blocked:
  assumes "i < length ths" "ths ! i = Idle" "length ths < 2 ^ 32" "\<And>q. q \<noteq> p \<Longrightarrow> safe (L q) q ths \<and> (unlocked (L q) \<longrightarrow> live q ths)"
    "n = of_nat (cnt (waits p) ths)" "cnt (holds p) ths = of_bool l" "cnt (removes p) ths = 0" "blocked p l n ph es" "notified es ths ths1"
  shows "ok (L(p \<mapsto> (l, n, True))) (ths1[i := Removing p ph False c])"
  unfolding ok_def
proof (intro allI conjI impI)
  fix q
  note w = notified_woken [OF assms(9)]
  note cr = cnt_ran [OF assms(1,2) w]
  have u: "cnt (removes_unlocked p) ths = 0" using assms(7) by (auto simp: cnt_0_iff elim!: removes_unlocked.elims)
  show "safe ((L(p \<mapsto> (l, n, True))) q) q (ths1[i := Removing p ph False c])"
  proof (cases "q = p")
    case True
    then show ?thesis using assms(5-8) u by (auto simp: safe_def cr blocked_def)
  next
    case False
    then show ?thesis using safe_ran [OF assms(1,2) w, of q "Removing p ph False c"] assms(4) by simp
  qed
  assume un: "unlocked ((L(p \<mapsto> (l, n, True))) q)"
  have "live q ths1"
    using un assms(4) [of q] assms(8) notified_live [OF assms(9), of p] live_woken [OF _ w, of q]
    by (auto simp: unlocked_def blocked_def split: if_splits)
  moreover have "cnt (waits q) ths > 0" if "waiter q (Removing p ph False c)"
    using that un assms(5,8) of_nat_cnt_0 [OF assms(3), of "waits p"] by (auto simp: waiter_def unlocked_def blocked_def)
  ultimately show "live q (ths1[i := Removing p ph False c])" using live_set [OF assms(1,2) w] by blast
qed

lemma ok_remove:
  assumes "i < length ths" "ths ! i = Idle" "length ths < 2 ^ 32" "ok L ths" "remove_result L c t L' es" "notified es ths ths1"
  shows "ok L' (ths1[i := t])"
proof -
  obtain D where D: "\<forall>p \<in> D. L p = Some (False, 0, False)"
    and r: "t = Idle \<and> L' = L |` (- D) \<or> (\<exists>p l n ph. (L |` (- D)) p = Some (l, n, False) \<and>
      L' = (L |` (- D))(p \<mapsto> (l, n, True)) \<and> t = Removing p ph False c \<and> blocked p l n ph es)"
    using assms(5) unfolding remove_result_def by blast
  have o: "ok (L |` (- D)) ths" by (rule ok_dropped [OF assms(4,3) D])
  from r show ?thesis
  proof (elim disjE exE conjE)
    assume "t = Idle" "L' = L |` (- D)"
    then show ?thesis using ok_Idle [OF assms(1,2) o notified_woken [OF assms(6)]] by simp
  next
    fix p l n ph assume b: "(L |` (- D)) p = Some (l, n, False)" "L' = (L |` (- D))(p \<mapsto> (l, n, True))" "t = Removing p ph False c" "blocked p l n ph es"
    have "safe ((L |` (- D)) p) p ths" using o unfolding ok_def by blast
    then have s: "n = of_nat (cnt (waits p) ths)" "cnt (holds p) ths = of_bool l" "cnt (removes p) ths = 0" unfolding b(1) by (simp_all add: safe_def)
    show ?thesis unfolding b(2,3) by (rule ok_blocked [OF assms(1-3) _ s b(4) assms(6)]) (use o in \<open>simp add: ok_def\<close>)
  qed
qed

text \<open>The state of the others when a thread that waits for \<open>p\<close>, removes it or holds its SA is taken away.\<close>

lemma ok_take:
  assumes "i < length ths" "ok L ths" "\<And>q. q \<noteq> p \<Longrightarrow> \<not> waits q (ths ! i) \<and> \<not> removes q (ths ! i) \<and> \<not> holds q (ths ! i)" "q \<noteq> p"
  shows "safe (L q) q (ths[i := Idle]) \<and> (unlocked (L q) \<longrightarrow> live q (ths[i := Idle]))"
proof -
  let ?t = "ths ! i" and ?b = "ths[i := Idle]"
  have n: "\<not> waits q ?t" "\<not> removes q ?t" "\<not> holds q ?t" using assms(3,4) by simp_all
  have r: "?b[i := ?t] = ths" by simp
  have "safe (L q) q ths = safe (L q) q ?b" using safe_ran [of i ?b ?b q ?t "L q"] n assms(1) r by simp
  moreover have "live q ?b" if l: "live q ths"
  proof -
    have "(\<exists>t \<in> set ?b. P t) \<longleftrightarrow> (\<exists>t \<in> set ths. P t)" if "\<not> P ?t" "\<not> P Idle" for P
      using cnt_Idle [OF assms(1), of P] that cnt_0_iff [of P ths] cnt_0_iff [of P ?b] by auto
    from this [of "waiter q"] this [of "awake q"] show ?thesis using l n by (simp add: live_def awake_def waiter_def)
  qed
  ultimately show ?thesis using assms(2) by (auto simp: ok_def)
qed

lemma allocate_spi_sas: "allocate_spi this spi = (b, m) \<Longrightarrow> sas m = sas this"
  by (auto simp: allocate_spi_def split: if_splits)

lemma get_spi_loop_sas: "get_spi_loop get_bytes lo hi this rng = Some r \<Longrightarrow> sas (snd (snd r)) = sas this"
proof (erule get_spi_loop.raw_induct [rotated])
  fix loop get_bytes lo hi rng r and this :: "('a, 'b) sa_mgr"
  assume 1: "\<And>get_bytes lo hi this rng r. loop get_bytes lo hi this rng = Some r \<Longrightarrow> sas (snd (snd r)) = sas this"
    "(case get_bytes rng 4 of (None, rng) \<Rightarrow> Some (FAILED, None, this\<lparr>mgr_rng := Some rng\<rparr>)
      | (Some bytes, rng) \<Rightarrow> (let spi_new = htonl (lo + uletoh32 bytes mod (hi - lo + 1)); (ok, this') = allocate_spi this spi_new
          in if ok then Some (SUCCESS, Some spi_new, this'\<lparr>mgr_rng := Some rng\<rparr>) else loop get_bytes lo hi this rng)) = Some r"
  obtain o1 rng1 where g: "get_bytes rng 4 = (o1, rng1)" by (cases "get_bytes rng 4")
  show "sas (snd (snd r)) = sas this"
  proof (cases o1)
    case None
    then show ?thesis using 1(2) g by auto
  next
    case (Some bytes)
    obtain b m where a: "allocate_spi this (htonl (lo + uletoh32 bytes mod (hi - lo + 1))) = (b, m)"
      by (cases "allocate_spi this (htonl (lo + uletoh32 bytes mod (hi - lo + 1)))")
    show ?thesis using 1 g Some a allocate_spi_sas [OF a] by (cases b) (auto simp: Let_def)
  qed
qed

lemma get_spi_sas: "get_spi create_rng get_bytes lo hi this = Some (st, spi, m) \<Longrightarrow> sas m = sas this"
  by (auto simp: get_spi_def dest: get_spi_loop_sas split: prod.splits option.splits)

definition mgr_inv :: "(('a, 'r) sa_mgr \<times> thread list) \<Rightarrow> bool" where
  "mgr_inv = (\<lambda>(m, ths). distinct (map e_ptr (sas m)) \<and> ok (locks (sas m)) ths \<and> length ths < 2 ^ 32)"

lemma ok_safe: "ok L ths \<Longrightarrow> safe (L p) p ths"
  by (simp add: ok_def)

lemma inv_wake_wait:
  assumes "mgr_inv (m, ths)" "i < length ths" "ths ! i = Waiting p n c" "get_entry m p = Some e" "wake_wait now c e m = (t, m', es)"
    "notified es (ths[i := Idle]) ths1"
  shows "ok (locks (sas m')) (ths1[i := t]) \<and> map e_ptr (sas m') = map e_ptr (sas m)"
proof -
  let ?b = "ths[i := Idle]"
  have o: "ok (locks (sas m)) ths" using assms(1) by (simp add: mgr_inv_def)
  obtain l k a where v: "locks (sas m) p = Some (l, k, a)" using get_entry_locks [of m p] assms(4) by (metis option.simps(9) prod_cases3)
  define L where "L = (locks (sas m))(p \<mapsto> (l, k - 1, a))"
  have r: "wait_result L p c t (locks (sas m')) es" "map e_ptr (sas m') = map e_ptr (sas m)"
    using wake_wait_result [OF assms(4,5) v] by (simp_all add: L_def)
  have tk: "safe (locks (sas m) q) q ?b \<and> (unlocked (locks (sas m) q) \<longrightarrow> live q ?b)" if "q \<noteq> p" for q
    by (rule ok_take [OF assms(2) o _ that]) (simp add: assms(3))
  have "safe (L p) p ?b"
    using ok_safe [OF o, of p] cnt_Idle [OF assms(2), of "waits p"] cnt_Idle [OF assms(2), of "holds p"] cnt_Idle [OF assms(2), of "removes p"]
      cnt_Idle [OF assms(2), of "removes_unlocked p"] assms(3)
    by (simp add: safe_def L_def v)
  then have "safe (L q) q ?b" for q using tk [of q] by (cases "q = p") (simp_all add: L_def)
  moreover have "live q ?b" if "q \<noteq> p" "unlocked (L q)" for q using tk [OF that(1)] that by (simp add: L_def)
  ultimately show ?thesis using ok_wait [of i ?b L p c t "locks (sas m')" es ths1] assms(2,6) r by simp
qed

lemma inv_wake_remove:
  assumes "mgr_inv (m, ths)" "i < length ths" "ths ! i = Removing p ph n c" "get_entry m p = Some e" "wake_remove c ph e m = (t, m', es)"
    "notified es (ths[i := Idle]) ths1"
  shows "ok (locks (sas m')) (ths1[i := t]) \<and> distinct (map e_ptr (sas m'))"
proof -
  let ?b = "ths[i := Idle]" and ?L = "locks (sas m)"
  have o: "ok ?L ths" and d: "distinct (map e_ptr (sas m))" and le: "length ?b < 2 ^ 32" using assms(1) by (simp_all add: mgr_inv_def)
  have b: "i < length ?b" "?b ! i = Idle" using assms(2) by simp_all
  obtain l k a where v: "?L p = Some (l, k, a)" using get_entry_locks [of m p] assms(4) by (metis option.simps(9) prod_cases3)
  have tk: "safe (?L q) q ?b \<and> (unlocked (?L q) \<longrightarrow> live q ?b)" if "q \<noteq> p" for q
    by (rule ok_take [OF assms(2) o _ that]) (simp add: assms(3))
  have c: "a" "k = of_nat (cnt (waits p) ?b)" "cnt (holds p) ?b = of_bool l" "cnt (removes p) ?b = 0" "ph = Until_Unused \<Longrightarrow> \<not> l"
    using ok_safe [OF o, of p] cnt_Idle [OF assms(2), of "waits p"] cnt_Idle [OF assms(2), of "holds p"] cnt_Idle [OF assms(2), of "removes p"]
      cnt_Idle [OF assms(2), of "removes_unlocked p"] assms(3)
    by (cases a; auto simp: safe_def v)+
  from wake_remove_result [OF d assms(4,5) v]
  consider (again) ph' where "t = Removing p ph' False c" "m' = m" "blocked_again p l k ph ph' es"
    | (removed) "ph = Until_Unused \<or> \<not> l" "k = 0" "remove_result (?L(p := None)) c t (locks (sas m')) es" "distinct (map e_ptr (sas m'))"
    by blast
  then show ?thesis
  proof cases
    case r: again
    then have "blocked p l k ph' es" using c(5) by (auto simp: blocked_def blocked_again_def)
    from ok_blocked [OF b le tk c(2-4) this assms(6)] have "ok (?L(p \<mapsto> (l, k, True))) (ths1[i := Removing p ph' False c])" by simp
    moreover have "?L(p \<mapsto> (l, k, True)) = ?L" using v c(1) by (simp add: fun_upd_idem)
    ultimately show ?thesis using r d by simp
  next
    case r: removed
    have "cnt (waits p) ?b = 0" "cnt (holds p) ?b = 0" using r(1,2) c of_nat_cnt_0 [OF le, of "waits p"] by auto
    then have "safe None p ?b" "live p ?b" using c(4) by (auto simp: safe_def live_def waiter_def cnt_0_iff)
    then have "ok (?L(p := None)) ?b" using tk by (simp add: ok_def)
    from ok_remove [OF b le this r(3) assms(6)] show ?thesis using r(4) by simp
  qed
qed

lemma inv_check_in:
  assumes "mgr_inv (m, ths)" "i < length ths" "ths ! i = Holding p" "checkin m p = (m', es)" "notified es (ths[i := Idle]) ths1"
  shows "ok (locks (sas m')) (ths1[i := Idle]) \<and> map e_ptr (sas m') = map e_ptr (sas m)"
proof -
  let ?b = "ths[i := Idle]" and ?L = "locks (sas m)"
  have o: "ok ?L ths" using assms(1) by (simp add: mgr_inv_def)
  have h: "cnt (holds p) ths = cnt (holds p) ?b + 1" using cnt_Idle [OF assms(2), of "holds p"] assms(3) by simp
  have "?L p \<noteq> None" using ok_safe [OF o, of p] h by (cases "?L p") (simp_all add: safe_def)
  then obtain l k a where v: "?L p = Some (l, k, a)" by (metis option.exhaust prod_cases3)
  have s: "k = of_nat (cnt (waits p) ths)" "cnt (holds p) ths = of_bool l" "cnt (removes p) ths = of_bool a"
    using ok_safe [OF o, of p] unfolding v by (simp_all add: safe_def)
  have l: "l" using s(2) h by (cases l) simp_all
  note v = v [unfolded eqTrueI [OF l]]
  have c: "cnt (holds p) ?b = 0" "k = of_nat (cnt (waits p) ths)" "cnt (removes p) ths = of_bool a" using s h l by simp_all
  obtain e where e: "get_entry m p = Some e" "locked e" using get_entry_locks [of m p] v by (cases "get_entry m p") (simp_all add: view_def)
  define L where "L = ?L(p \<mapsto> (False, k, a))"
  have r: "locks (sas m') = L" "map e_ptr (sas m') = map e_ptr (sas m)" "es = [Signal p]"
    using release_locks [OF v] assms(4) e by (auto simp: checkin_def set_locks_def L_def)
  have tk: "safe (?L q) q ?b \<and> (unlocked (?L q) \<longrightarrow> live q ?b)" if "q \<noteq> p" for q
    by (rule ok_take [OF assms(2) o _ that]) (simp add: assms(3))
  have "safe (L p) p ?b"
    using c cnt_Idle [OF assms(2), of "waits p"] cnt_Idle [OF assms(2), of "removes p"] assms(3) by (simp add: safe_def L_def)
  then have "safe (L q) q ?b" for q using tk [of q] by (cases "q = p") (simp_all add: L_def)
  moreover have "live q ?b" if "q \<noteq> p" "unlocked (L q)" for q using tk [OF that(1)] that by (simp add: L_def)
  moreover have "wait_result L p undefined Idle L es" by (simp add: wait_result_def L_def r(3))
  ultimately show ?thesis using ok_wait [of i ?b L p undefined Idle L es ths1] assms(2,5) r by simp
qed

lemma ranE:
  assumes "ran i ths t es ths'"
  obtains ths1 where "notified es (ths[i := Idle]) ths1" "ths' = ths1[i := t]" "length ths' = length ths"
  using assms notified_woken woken_nth unfolding ran_def by (metis length_list_update)

lemma mgr_invI: "distinct (map e_ptr (sas m)) \<Longrightarrow> ok (locks (sas m)) ths \<Longrightarrow> length ths < 2 ^ 32 \<Longrightarrow> mgr_inv (m, ths)"
  by (simp add: mgr_inv_def)

lemma inv_start_wait:
  assumes "mgr_inv (m, ths)" "i < length ths" "ths ! i = Idle" "start_wait now c m = (t, m', es)" "notified es ths ths1"
  shows "ok (locks (sas m')) (ths1[i := t]) \<and> map e_ptr (sas m') = map e_ptr (sas m)"
proof -
  have o: "ok (locks (sas m)) ths" and d: "distinct (map e_ptr (sas m))" using assms(1) by (simp_all add: mgr_inv_def)
  from start_wait_result [OF d assms(4)] consider "t = Idle" "locks (sas m') = locks (sas m)" | p where "wait_result (locks (sas m)) p c t (locks (sas m')) es" by blast
  then have "ok (locks (sas m')) (ths1[i := t])"
  proof cases
    case 1
    then show ?thesis using ok_Idle [OF assms(2,3) o notified_woken [OF assms(5)]] by simp
  next
    case (2 p)
    show ?thesis by (rule ok_wait [OF assms(2,3) _ _ 2 assms(5)]) (use o in \<open>simp_all add: ok_def\<close>)
  qed
  then show ?thesis using start_wait_result [OF d assms(4)] by blast
qed

lemma inv_add:
  assumes "mgr_inv (m, ths)" "p \<notin> e_ptr ` set (sas m)" "sas m' = sas m \<or> (\<exists>sa. sas m' = create_entry p sa # sas m)"
  shows "mgr_inv (m', ths)"
  using assms(3)
proof (elim disjE exE)
  fix sa assume m': "sas m' = create_entry p sa # sas m"
  have o: "ok (locks (sas m)) ths" using assms(1) by (simp add: mgr_inv_def)
  have n: "locks (sas m) p = None" using assms(2) by (simp add: locks_None)
  then have "safe None p ths" "live p ths" using o unfolding ok_def by (metis n, metis n option.simps(4) unlocked_def)
  moreover have "safe (Some (False, 0, False)) p ths" using calculation(1) by (simp add: safe_def)
  ultimately have "ok (locks (sas m')) ths" using o by (simp add: ok_def m' create_entry_def view_def)
  then show ?thesis using assms(1,2) m' by (auto simp: mgr_inv_def create_entry_def)
qed (use assms(1) in \<open>simp add: mgr_inv_def\<close>)

lemma add_sa_sas:
  assumes "add_sa cr p m s d spi protocol reqid mark tfc lifetime enc_alg enc_key int_alg int_key mode ipcomp cpi initiator encap esn inb update = (st, m', es)"
  shows "sas m' = sas m \<or> (\<exists>sa. sas m' = create_entry p sa # sas m)"
  using assms unfolding add_sa_def Let_def by (auto split: option.splits if_splits)

lemma mgr_step_inv: "mgr_step st st' \<Longrightarrow> mgr_inv st \<Longrightarrow> mgr_inv st'"
proof (induction rule: mgr_step.induct)
  case (start_wait i ths now c m t m' es ths')
  then have "ths[i := Idle] = ths" by (metis list_update_id)
  then show ?case using start_wait inv_start_wait [of m ths i now c t m' es] by (elim ranE) (simp add: mgr_inv_def)
next
  case (wake_wait i ths p n c m e now t m' es ths')
  then show ?case using inv_wake_wait [of m ths i p n c e now t m' es] by (elim ranE) (simp add: mgr_inv_def)
next
  case (start_remove i ths rc m t m' es ths')
  then have "ths[i := Idle] = ths" by (metis list_update_id)
  then show ?case using start_remove start_remove_result [of m rc t m' es] ok_remove [of i ths "locks (sas m)" rc t "locks (sas m')" es]
    by (elim ranE) (simp add: mgr_inv_def)
next
  case (wake_remove i ths p ph n rc m e t m' es ths')
  then show ?case using inv_wake_remove [of m ths i p ph n rc e t m' es] by (elim ranE) (simp add: mgr_inv_def)
next
  case (check_in i ths p m m' es ths')
  then show ?case using inv_check_in [of m ths i p m' es] by (elim ranE) (simp add: mgr_inv_def)
next
  case (use_sa i ths p m' f m)
  have "map e_ptr (sas m') = map e_ptr (sas m)" using use_sa(3) by (simp add: upd_entry_def comp_def cong: if_cong)
  moreover have "locks (sas m') = locks (sas m)"
    using use_sa(3) locks_upd [of "\<lambda>e. e\<lparr>e_sa := f (e_sa e)\<rparr>" id p "sas m"] by (simp add: upd_entry_def view_def option.map_id)
  ultimately show ?case using use_sa(4) by (simp add: mgr_inv_def)
next
  case (add p m cr s d spi protocol reqid mark tfc lifetime enc_alg enc_key int_alg int_key mode ipcomp cpi initiator encap esn inb update st m' es ths)
  then show ?case using inv_add [OF add(3,1)] add_sa_sas [OF add(2)] by blast
next
  case (spi create_rng get_bytes spi_min spi_max m st r m' ths)
  then show ?case using get_spi_sas [OF spi(1)] by (simp add: mgr_inv_def)
qed

lemma mgr_reachable_inv:
  assumes "mgr_reachable n st" "n < 2 ^ 32"
  shows "mgr_inv st"
proof -
  have "cnt P (replicate n Idle) = 0" if "\<not> P Idle" for P using that by (simp add: cnt_def)
  then have "mgr_inv (ipsec_sa_mgr_create, replicate n Idle)" using assms(2)
    by (auto simp: mgr_inv_def ipsec_sa_mgr_create_def ok_def safe_def live_def waiter_def)
  from assms(1) [unfolded mgr_reachable_def] this show ?thesis by (induction rule: rtranclp_induct) (auto intro: mgr_step_inv)
qed

lemma cnt_unique: "cnt P ts \<le> 1 \<Longrightarrow> i < length ts \<Longrightarrow> j < length ts \<Longrightarrow> P (ts ! i) \<Longrightarrow> P (ts ! j) \<Longrightarrow> i = j"
proof (induction ts arbitrary: i j)
  case (Cons t ts)
  show ?case
  proof (cases "P t")
    case True
    then have "\<forall>x \<in> set ts. \<not> P x" using Cons.prems(1) by (auto simp: cnt_def filter_empty_conv)
    then show ?thesis using Cons.prems by (cases i; cases j) auto
  next
    case False
    then show ?thesis using Cons by (cases i; cases j) (auto simp: cnt_def)
  qed
qed simp

text \<open>
  C37.  Whatever the threads do, and in whatever order, in every reachable state the entries have distinct addresses and the
  entry that a thread waits for, removes or holds is installed: no thread ever touches an entry that was freed.  At most one thread
  holds an SA, and while it does, the entry is locked and nobody has got past waiting for its release to remove it; at
  most one thread removes an entry.
\<close>

theorem sa_threads_safe:
  assumes "n < 2 ^ 32" "mgr_reachable n (m, ths)"
  shows "distinct (map e_ptr (sas m)) \<and>
    (\<forall>i < length ths. \<forall>p. waits p (ths ! i) \<or> removes p (ths ! i) \<or> holds p (ths ! i) \<longrightarrow> get_entry m p \<noteq> None) \<and>
    (\<forall>i < length ths. \<forall>j < length ths. \<forall>p. holds p (ths ! i) \<and> holds p (ths ! j) \<or> removes p (ths ! i) \<and> removes p (ths ! j) \<longrightarrow> i = j) \<and>
    (\<forall>i < length ths. \<forall>j < length ths. \<forall>p. holds p (ths ! i) \<longrightarrow> locked (the (get_entry m p)) \<and> \<not> removes_unlocked p (ths ! j))"
proof -
  have o: "ok (locks (sas m)) ths" and d: "distinct (map e_ptr (sas m))"
    using mgr_reachable_inv [OF assms(2,1)] by (simp_all add: mgr_inv_def)
  have z: "cnt P ths \<noteq> 0" if "P (ths ! i)" "i < length ths" for P i using that nth_mem [of i ths] by (auto simp: cnt_0_iff)
  have s: "safe (map_option view (get_entry m p)) p ths" for p using o by (simp add: ok_def get_entry_locks)
  have le: "cnt (holds p) ths \<le> 1" "cnt (removes p) ths \<le> 1" for p
    using s [of p] by (cases "get_entry m p"; simp add: safe_def view_def of_bool_def)+
  have "get_entry m p \<noteq> None" if "waits p (ths ! i) \<or> removes p (ths ! i) \<or> holds p (ths ! i)" "i < length ths" for i p
    using s [of p] that z [of "waits p" i] z [of "removes p" i] z [of "holds p" i] by (cases "get_entry m p") (auto simp: safe_def)
  moreover have "locked (the (get_entry m p)) \<and> \<not> removes_unlocked p (ths ! j)" if h: "holds p (ths ! i)" "i < length ths" "j < length ths" for i j p
  proof -
    have nz: "cnt (holds p) ths \<noteq> 0" using z h by blast
    obtain e where e: "get_entry m p = Some e" using s [of p] nz by (cases "get_entry m p") (simp_all add: safe_def)
    have "locked e" using s [of p] nz e by (cases "locked e") (simp_all add: safe_def view_def)
    moreover have "cnt (removes_unlocked p) ths = 0" using s [of p] e calculation by (simp add: safe_def view_def)
    ultimately show ?thesis using e z [of "removes_unlocked p" j] h(3) by auto
  qed
  moreover have "i = j" if "holds p (ths ! i) \<and> holds p (ths ! j) \<or> removes p (ths ! i) \<and> removes p (ths ! j)" "i < length ths" "j < length ths" for i j p
    using that cnt_unique [OF le(1)] cnt_unique [OF le(2)] by blast
  ultimately show ?thesis using d by blast
qed

text \<open>
  C38.  No wake-up is lost: if a thread waits on an entry, whether for its SA or to remove it, then a thread holds the SA, or one
  of those that wait has been woken; and a thread that waits for an SA that nobody holds does not go back to waiting when it runs: it
  gets the SA, or gives up because the entry is being removed.
\<close>

theorem sa_threads_progress:
  assumes "n < 2 ^ 32" "mgr_reachable n (m, ths)" "i < length ths" "waiter p (ths ! i)" "\<forall>t \<in> set ths. \<not> holds p t"
  shows "(\<exists>t \<in> set ths. awake p t) \<and>
    (\<forall>now b c. ths ! i = Waiting p b c \<longrightarrow> (\<exists>e t m' es. get_entry m p = Some e \<and> wake_wait now c e m = (t, m', es) \<and> t \<in> {Idle, Holding p}))"
proof
  have o: "ok (locks (sas m)) ths" using mgr_reachable_inv [OF assms(2,1)] by (simp add: mgr_inv_def)
  have h: "cnt (holds p) ths = 0" using assms(5) by (simp add: cnt_0_iff)
  have s: "safe (locks (sas m) p) p ths" "unlocked (locks (sas m) p) \<longrightarrow> live p ths" using o by (simp_all add: ok_def)
  have u: "unlocked (locks (sas m) p)"
  proof (cases "locks (sas m) p")
    case (Some v)
    then show ?thesis using s(1) h by (cases v) (simp add: safe_def unlocked_def)
  qed (simp add: unlocked_def)
  then show "\<exists>t \<in> set ths. awake p t" using s(2) assms(3,4) nth_mem unfolding live_def by blast
  show "\<forall>now b c. ths ! i = Waiting p b c \<longrightarrow> (\<exists>e t m' es. get_entry m p = Some e \<and> wake_wait now c e m = (t, m', es) \<and> t \<in> {Idle, Holding p})"
  proof (intro allI impI)
    fix now b c assume "ths ! i = Waiting p b c"
    then have "cnt (waits p) ths \<noteq> 0" using assms(3) nth_mem [of i ths] by (auto simp: cnt_0_iff intro!: bexI [of _ "Waiting p b c"])
    then obtain l k a where v: "locks (sas m) p = Some (l, k, a)" using s(1) by (cases "locks (sas m) p") (auto simp: safe_def)
    then obtain e where e: "get_entry m p = Some e" using get_entry_locks [of m p] by (cases "get_entry m p") simp_all
    obtain t m' es where w: "wake_wait now c e m = (t, m', es)" by (cases "wake_wait now c e m")
    have "t \<in> {Idle, Holding p}" using wake_wait_result [OF e w v] u v by (auto simp: wait_result_def unlocked_def)
    then show "\<exists>e t m' es. get_entry m p = Some e \<and> wake_wait now c e m = (t, m', es) \<and> t \<in> {Idle, Holding p}" using e w by blast
  qed
qed

text \<open>Two threads that check out the same SA.\<close>

definition example_mgr :: "bool \<Rightarrow> bool \<Rightarrow> u32 \<Rightarrow> ((chapoly_aead, unit, chunk, unit) esp_aead, u32) sa_mgr" where
  "example_mgr inb l n = ipsec_sa_mgr_create\<lparr>sas := [(create_entry 1 (example_sa inb))\<lparr>locked := l, waiting_threads := n\<rparr>]\<rparr>"

definition example_call :: wait_call where
  "example_call = Checkout_By_Spi 5 (example_v4 2 0)"

lemma example_add_sa:
  "add_sa example_crypto 1 ipsec_sa_mgr_create (example_v4 1 0) (example_v4 2 0) 5 IPPROTO_ESP 1 \<lparr>mark_value = 0, mark_mask = 0\<rparr> 0 example_lifetime
     ENCR_CHACHA20_POLY1305 (replicate 36 5) 0 [] MODE_TUNNEL IPCOMP_NONE 0 False False False inb False = (SUCCESS, example_mgr inb False 0, [])"
  unfolding add_sa_def example_sa_create
  by (simp add: Let_def ipsec_sa_mgr_create_def example_mgr_def create_entry_def schedule_expiration_def example_sa_def example_lifetime_def no_limits_def sa_defs)

lemma example_checkout:
  "start_wait 0 example_call (example_mgr True False 0) = (Holding 1, example_mgr True True 0, [])"
  "start_wait 0 example_call (example_mgr True True 0) = (Waiting 1 False example_call, example_mgr True True 1, [])"
  "checkin (example_mgr True True 1) 1 = (example_mgr True False 1, [Signal 1])"
proof -
  have "ip_equals (example_v4 2 0) (example_v4 2 0)" by code_simp
  then have "match_by_spi_dst (example_sa True) 5 (example_v4 2 0)" by (simp add: match_by_spi_dst_def example_sa_def)
  then show "start_wait 0 example_call (example_mgr True False 0) = (Holding 1, example_mgr True True 0, [])"
    "start_wait 0 example_call (example_mgr True True 0) = (Waiting 1 False example_call, example_mgr True True 1, [])"
    by (simp_all add: start_wait_def example_call_def checkout_by_spi_def example_mgr_def create_entry_def wait_for_entry_def and_then_def after_wait_def
        upd_entry_def checkout_by_spi_body_def held_def)
  show "checkin (example_mgr True True 1) 1 = (example_mgr True False 1, [Signal 1])"
    by (simp add: checkin_def get_entry_def example_mgr_def create_entry_def release_def upd_entry_def)
qed

lemma example_reachable:
  "mgr_reachable 2 (example_mgr True True 1, [Holding 1, Waiting 1 False example_call])"
  "mgr_reachable 2 (example_mgr True False 1, [Idle, Waiting 1 True example_call])"
proof -
  let ?m0 = "ipsec_sa_mgr_create :: ((chapoly_aead, unit, chunk, unit) esp_aead, u32) sa_mgr"
  have "mgr_step (?m0, [Idle, Idle]) (example_mgr True False 0, [Idle, Idle])"
    by (rule mgr_step.add [OF _ example_add_sa]) (simp add: ipsec_sa_mgr_create_def)
  moreover have "mgr_step (example_mgr True False 0, [Idle, Idle]) (example_mgr True True 0, [Holding 1, Idle])"
    by (rule mgr_step.start_wait [where i = 0, OF _ _ example_checkout(1)]) (simp_all add: ran_def)
  moreover have "mgr_step (example_mgr True True 0, [Holding 1, Idle]) (example_mgr True True 1, [Holding 1, Waiting 1 False example_call])"
    by (rule mgr_step.start_wait [where i = 1, OF _ _ example_checkout(2)]) (simp_all add: ran_def)
  ultimately show r: "mgr_reachable 2 (example_mgr True True 1, [Holding 1, Waiting 1 False example_call])"
    by (simp add: mgr_reachable_def numeral_2_eq_2)
  have "mgr_step (example_mgr True True 1, [Holding 1, Waiting 1 False example_call]) (example_mgr True False 1, [Idle, Waiting 1 True example_call])"
    by (rule mgr_step.check_in [where i = 0, OF _ _ example_checkout(3)]) (auto simp: ran_def signalled_def intro!: exI [of _ 1])
  then show "mgr_reachable 2 (example_mgr True False 1, [Idle, Waiting 1 True example_call])"
    using r unfolding mgr_reachable_def by (rule rtranclp.rtrancl_into_rtrancl [rotated])
qed

theorem sa_threads_safe_witness:
  "get_entry (example_mgr True True 1) 1 \<noteq> None \<and> locked (the (get_entry (example_mgr True True 1) 1))"
proof -
  let ?m = "example_mgr True True 1" and ?ths = "[Holding 1, Waiting 1 False example_call]"
  have "(2 :: nat) < 2 ^ 32" by simp
  note t = sa_threads_safe [OF this example_reachable(1)]
  have "\<forall>i < length ?ths. \<forall>p. waits p (?ths ! i) \<or> removes p (?ths ! i) \<or> holds p (?ths ! i) \<longrightarrow> get_entry ?m p \<noteq> None"
    using t by (elim conjE)
  from this [rule_format, of 0 1] have "get_entry ?m 1 \<noteq> None" by simp
  moreover have "\<forall>i < length ?ths. \<forall>j < length ?ths. \<forall>p. holds p (?ths ! i) \<longrightarrow> locked (the (get_entry ?m p)) \<and> \<not> removes_unlocked p (?ths ! j)"
    using t by (elim conjE)
  from this [rule_format, of 0 0 1] have "locked (the (get_entry ?m 1))" by simp
  ultimately show ?thesis by blast
qed

theorem sa_threads_progress_witness:
  "\<exists>t \<in> set [Idle, Waiting 1 True example_call]. awake 1 t"
  using sa_threads_progress [OF _ example_reachable(2), of 1 1] by (simp add: waiter_def)

end
