(* ===== verification/Linked_List.thy ===== *)
theory Linked_List
  imports Prelude "HOL-Library.Monad_Syntax"
begin

text \<open>
  The doubly linked list of \<open>collections/linked_list.c\<close> on an explicit store, with its enumerators, and the refinement of
  HOL lists by it.

  Elements live at addresses.  An operation that reads or writes an address that holds no element, a null pointer or
  memory that has been freed, has the value \<open>None\<close>, so that a theorem that an operation returns includes memory safety.
  \<open>malloc\<close> is a parameter: an address that is not in use.  Values are the pointers the list stores.
\<close>

type_synonym addr = nat

record 'v element =
  "value" :: 'v
  previous :: "addr option"
  nxt :: "addr option"

record 'v linked_list =
  ll_heap :: "addr \<rightharpoonup> 'v element"
  ll_count :: int
  ll_first :: "addr option"
  ll_last :: "addr option"

type_synonym 'v malloc = "(addr \<rightharpoonup> 'v element) \<Rightarrow> addr"

definition linked_list_create :: "'v linked_list" where
  "linked_list_create = \<lparr>ll_heap = Map.empty, ll_count = 0, ll_first = None, ll_last = None\<rparr>"

section \<open>Elements\<close>

definition element_create :: "'v malloc \<Rightarrow> 'v linked_list \<Rightarrow> 'v \<Rightarrow> addr \<times> 'v linked_list" where
  "element_create malloc this v =
     (let a = malloc (ll_heap this)
      in (a, this\<lparr>ll_heap := (ll_heap this)(a \<mapsto> \<lparr>value = v, previous = None, nxt = None\<rparr>)\<rparr>))"

text \<open>An assignment to a member of an element.\<close>

definition upd :: "addr \<Rightarrow> ('v element \<Rightarrow> 'v element) \<Rightarrow> 'v linked_list \<Rightarrow> 'v linked_list option" where
  "upd a f this = do { e \<leftarrow> ll_heap this a; Some (this\<lparr>ll_heap := (ll_heap this)(a \<mapsto> f e)\<rparr>) }"

definition remove_element :: "'v linked_list \<Rightarrow> addr \<Rightarrow> (addr option \<times> 'v linked_list) option" where
  "remove_element this a = do {
     e \<leftarrow> ll_heap this a;
     let nx = nxt e;
     let pv = previous e;
     let this = this\<lparr>ll_heap := (ll_heap this)(a := None)\<rparr>;
     this \<leftarrow> (case nx of Some n \<Rightarrow> upd n (\<lambda>e. e\<lparr>previous := pv\<rparr>) this | None \<Rightarrow> Some (this\<lparr>ll_last := pv\<rparr>));
     this \<leftarrow> (case pv of Some p \<Rightarrow> upd p (\<lambda>e. e\<lparr>nxt := nx\<rparr>) this | None \<Rightarrow> Some (this\<lparr>ll_first := nx\<rparr>));
     let this = this\<lparr>ll_count := ll_count this - 1\<rparr>;
     Some (nx, if ll_count this = 0 then this\<lparr>ll_first := None, ll_last := None\<rparr> else this)
   }"

section \<open>Operations\<close>

definition ll_get_count :: "'v linked_list \<Rightarrow> int" where
  "ll_get_count this = ll_count this"

definition ll_insert_first :: "'v malloc \<Rightarrow> 'v linked_list \<Rightarrow> 'v \<Rightarrow> 'v linked_list option" where
  "ll_insert_first malloc this v = (let (a, this) = element_create malloc this v in do {
     this \<leftarrow> (if ll_count this = 0 then Some (this\<lparr>ll_first := Some a, ll_last := Some a\<rparr>)
       else do {
         this \<leftarrow> upd a (\<lambda>e. e\<lparr>nxt := ll_first this\<rparr>) this;
         f \<leftarrow> ll_first this;
         this \<leftarrow> upd f (\<lambda>e. e\<lparr>previous := Some a\<rparr>) this;
         Some (this\<lparr>ll_first := Some a\<rparr>)
       });
     Some (this\<lparr>ll_count := ll_count this + 1\<rparr>)
   })"

definition ll_insert_last :: "'v malloc \<Rightarrow> 'v linked_list \<Rightarrow> 'v \<Rightarrow> 'v linked_list option" where
  "ll_insert_last malloc this v = (let (a, this) = element_create malloc this v in do {
     this \<leftarrow> (if ll_count this = 0 then Some (this\<lparr>ll_first := Some a, ll_last := Some a\<rparr>)
       else do {
         this \<leftarrow> upd a (\<lambda>e. e\<lparr>previous := ll_last this\<rparr>) this;
         l \<leftarrow> ll_last this;
         this \<leftarrow> upd l (\<lambda>e. e\<lparr>nxt := Some a\<rparr>) this;
         Some (this\<lparr>ll_last := Some a\<rparr>)
       });
     Some (this\<lparr>ll_count := ll_count this + 1\<rparr>)
   })"

text \<open>The result of a getter is \<open>None\<close> inside for \<open>NOT_FOUND\<close>.\<close>

definition ll_get_first :: "'v linked_list \<Rightarrow> 'v option option" where
  "ll_get_first this = (if ll_count this = 0 then Some None
     else do { a \<leftarrow> ll_first this; e \<leftarrow> ll_heap this a; Some (Some (value e)) })"

definition ll_get_last :: "'v linked_list \<Rightarrow> 'v option option" where
  "ll_get_last this = (if ll_count this = 0 then Some None
     else do { a \<leftarrow> ll_last this; e \<leftarrow> ll_heap this a; Some (Some (value e)) })"

definition ll_remove_first :: "'v linked_list \<Rightarrow> ('v option \<times> 'v linked_list) option" where
  "ll_remove_first this = do {
     r \<leftarrow> ll_get_first this;
     case r of None \<Rightarrow> Some (None, this)
     | Some v \<Rightarrow> do { a \<leftarrow> ll_first this; (_, this) \<leftarrow> remove_element this a; Some (Some v, this) }
   }"

definition ll_remove_last :: "'v linked_list \<Rightarrow> ('v option \<times> 'v linked_list) option" where
  "ll_remove_last this = do {
     r \<leftarrow> ll_get_last this;
     case r of None \<Rightarrow> Some (None, this)
     | Some v \<Rightarrow> do { a \<leftarrow> ll_last this; (_, this) \<leftarrow> remove_element this a; Some (Some v, this) }
   }"

text \<open>The loop of \<open>remove\<close>: the number of elements removed; \<open>m\<close> compares a value with the item.\<close>

partial_function (option) remove_loop :: "('v \<Rightarrow> bool) \<Rightarrow> 'v linked_list \<Rightarrow> addr option \<Rightarrow> int \<Rightarrow> (int \<times> 'v linked_list) option" where
  "remove_loop m this cur removed = (case cur of None \<Rightarrow> Some (removed, this)
   | Some a \<Rightarrow> do {
       e \<leftarrow> ll_heap this a;
       if m (value e) then do {
         (nx, this) \<leftarrow> remove_element this a;
         remove_loop m this nx (removed + 1)
       } else remove_loop m this (nxt e) removed
     })"

definition ll_remove :: "'v linked_list \<Rightarrow> 'v \<Rightarrow> ('v \<Rightarrow> 'v \<Rightarrow> bool) option \<Rightarrow> (int \<times> 'v linked_list) option" where
  "ll_remove this item cmp =
     remove_loop (\<lambda>v. case cmp of Some c \<Rightarrow> c v item | None \<Rightarrow> v = item) this (ll_first this) 0"

text \<open>The loop of \<open>find_first\<close>; without a match function the item is compared by identity.\<close>

partial_function (option) find_loop :: "('v \<Rightarrow> bool) \<Rightarrow> 'v linked_list \<Rightarrow> addr option \<Rightarrow> 'v option option" where
  "find_loop m this cur = (case cur of None \<Rightarrow> Some None
   | Some a \<Rightarrow> do {
       e \<leftarrow> ll_heap this a;
       if m (value e) then Some (Some (value e)) else find_loop m this (nxt e)
     })"

definition ll_find_first :: "'v linked_list \<Rightarrow> ('v \<Rightarrow> bool) option \<Rightarrow> 'v option \<Rightarrow> 'v option option" where
  "ll_find_first this match_fn item =
     (case (match_fn, item) of
        (None, None) \<Rightarrow> Some None
      | (Some m, _) \<Rightarrow> find_loop m this (ll_first this)
      | (None, Some i) \<Rightarrow> find_loop (\<lambda>v. v = i) this (ll_first this))"

text \<open>\<open>invoke_function\<close>: the values the function is called with, in order.\<close>

partial_function (option) ll_invoke_loop :: "'v linked_list \<Rightarrow> addr option \<Rightarrow> 'v list option" where
  "ll_invoke_loop this cur = (case cur of None \<Rightarrow> Some []
   | Some a \<Rightarrow> do { e \<leftarrow> ll_heap this a; vs \<leftarrow> ll_invoke_loop this (nxt e); Some (value e # vs) })"

definition ll_invoke_function :: "'v linked_list \<Rightarrow> 'v list option" where
  "ll_invoke_function this = ll_invoke_loop this (ll_first this)"

section \<open>Enumerators\<close>

text \<open>\<open>en_at_current\<close> holds if the next call is to return the current item (\<open>_enumerate_current\<close>).\<close>

record enumerator =
  en_current :: "addr option"
  en_at_current :: bool

definition ll_create_enumerator :: "'v linked_list \<Rightarrow> enumerator" where
  "ll_create_enumerator this = \<lparr>en_current = ll_first this, en_at_current = True\<rparr>"

definition reset_enumerator :: "'v linked_list \<Rightarrow> enumerator \<Rightarrow> enumerator" where
  "reset_enumerator this en = en\<lparr>en_current := ll_first this, en_at_current := True\<rparr>"

definition do_enumerate :: "'v linked_list \<Rightarrow> enumerator \<Rightarrow> 'v option option" where
  "do_enumerate this en = (case en_current en of None \<Rightarrow> Some None | Some a \<Rightarrow> do { e \<leftarrow> ll_heap this a; Some (Some (value e)) })"

definition enumerate_next :: "'v linked_list \<Rightarrow> enumerator \<Rightarrow> ('v option \<times> enumerator) option" where
  "enumerate_next this en = do {
     en \<leftarrow> (case en_current en of None \<Rightarrow> Some en | Some a \<Rightarrow> do { e \<leftarrow> ll_heap this a; Some (en\<lparr>en_current := nxt e\<rparr>) });
     r \<leftarrow> do_enumerate this en;
     Some (r, en)
   }"

definition enumerate_current :: "'v linked_list \<Rightarrow> enumerator \<Rightarrow> ('v option \<times> enumerator) option" where
  "enumerate_current this en = do { r \<leftarrow> do_enumerate this en; Some (r, en\<lparr>en_at_current := False\<rparr>) }"

definition ll_enumerate :: "'v linked_list \<Rightarrow> enumerator \<Rightarrow> ('v option \<times> enumerator) option" where
  "ll_enumerate this en = (if en_at_current en then enumerate_current this en else enumerate_next this en)"

definition ll_insert_before :: "'v malloc \<Rightarrow> 'v linked_list \<Rightarrow> enumerator \<Rightarrow> 'v \<Rightarrow> 'v linked_list option" where
  "ll_insert_before malloc this en v = (case en_current en of None \<Rightarrow> ll_insert_last malloc this v
   | Some current \<Rightarrow> (let (a, this) = element_create malloc this v in do {
       c \<leftarrow> ll_heap this current;
       this \<leftarrow> (case previous c of
           Some p \<Rightarrow> do {
             this \<leftarrow> upd p (\<lambda>e. e\<lparr>nxt := Some a\<rparr>) this;
             this \<leftarrow> upd a (\<lambda>e. e\<lparr>previous := Some p\<rparr>) this;
             this \<leftarrow> upd current (\<lambda>e. e\<lparr>previous := Some a\<rparr>) this;
             upd a (\<lambda>e. e\<lparr>nxt := Some current\<rparr>) this
           }
         | None \<Rightarrow> do {
             this \<leftarrow> upd current (\<lambda>e. e\<lparr>previous := Some a\<rparr>) this;
             this \<leftarrow> upd a (\<lambda>e. e\<lparr>nxt := Some current\<rparr>) this;
             Some (this\<lparr>ll_first := Some a\<rparr>)
           });
       Some (this\<lparr>ll_count := ll_count this + 1\<rparr>)
     }))"

definition ll_remove_at :: "'v linked_list \<Rightarrow> enumerator \<Rightarrow> (enumerator \<times> 'v linked_list) option" where
  "ll_remove_at this en = (case en_current en of None \<Rightarrow> Some (en, this)
   | Some current \<Rightarrow> do {
       c \<leftarrow> ll_heap this current;
       let en = en\<lparr>en_current := nxt c, en_at_current := True\<rparr>;
       (_, this) \<leftarrow> remove_element this current;
       Some (en, this)
     })"

section \<open>Representation\<close>

definition ptr_at :: "addr list \<Rightarrow> nat \<Rightarrow> addr option" where
  "ptr_at as i = (if i < length as then Some (as ! i) else None)"

definition ptr_before :: "addr list \<Rightarrow> nat \<Rightarrow> addr option" where
  "ptr_before as i = (if i = 0 then None else Some (as ! (i - 1)))"

text \<open>A list represents the values \<open>xs\<close> if its elements are exactly the nodes of a chain of distinct addresses \<open>as\<close>.\<close>

definition rep :: "'v linked_list \<Rightarrow> addr list \<Rightarrow> 'v list \<Rightarrow> bool" where
  "rep ll as xs \<longleftrightarrow> length as = length xs \<and> distinct as \<and> dom (ll_heap ll) = set as \<and>
     (\<forall>i < length as. ll_heap ll (as ! i) = Some \<lparr>value = xs ! i, previous = ptr_before as i, nxt = ptr_at as (Suc i)\<rparr>) \<and>
     ll_count ll = int (length xs) \<and> ll_first ll = ptr_at as 0 \<and> ll_last ll = ptr_before as (length as)"

definition ins :: "nat \<Rightarrow> 'b \<Rightarrow> 'b list \<Rightarrow> 'b list" where
  "ins i v xs = take i xs @ v # drop i xs"

definition del :: "nat \<Rightarrow> 'b list \<Rightarrow> 'b list" where
  "del i xs = take i xs @ drop (Suc i) xs"

lemma length_ins [simp]: "i \<le> length xs \<Longrightarrow> length (ins i v xs) = Suc (length xs)"
  by (simp add: ins_def)

lemma nth_ins: "i \<le> length xs \<Longrightarrow> j \<le> length xs \<Longrightarrow> ins i v xs ! j = (if j < i then xs ! j else if j = i then v else xs ! (j - 1))"
  by (auto simp: ins_def nth_append nth_Cons' min_def)

lemma length_del [simp]: "i < length xs \<Longrightarrow> length (del i xs) = length xs - 1"
  by (simp add: del_def)

lemma nth_del: "i < length xs \<Longrightarrow> Suc j < length xs \<Longrightarrow> del i xs ! j = (if j < i then xs ! j else xs ! Suc j)"
  by (auto simp: del_def nth_append min_def)

lemma set_ins [simp]: "set (ins i v xs) = insert v (set xs)"
proof -
  have "set xs = set (take i xs) \<union> set (drop i xs)" by (metis append_take_drop_id set_append)
  then show ?thesis by (auto simp: ins_def)
qed

lemma distinct_ins: "distinct as \<Longrightarrow> a \<notin> set as \<Longrightarrow> distinct (ins i a as)"
proof -
  assume d: "distinct as" "a \<notin> set as"
  then have "a \<notin> set (take i as)" "a \<notin> set (drop i as)" by (auto dest: in_set_takeD in_set_dropD)
  moreover have "distinct (take i as @ drop i as)" using d(1) by simp
  ultimately show ?thesis unfolding ins_def distinct_append by simp
qed

lemma del_distinct:
  assumes "distinct as" "i < length as"
  shows "distinct (del i as)" "set (del i as) = set as - {as ! i}"
proof -
  have e: "as = take i as @ as ! i # drop (Suc i) as" using id_take_nth_drop [OF assms(2)] .
  then have "distinct (take i as @ as ! i # drop (Suc i) as)" using assms(1) by simp
  then show "distinct (del i as)" by (auto simp: del_def)
  have "set as = insert (as ! i) (set (take i as) \<union> set (drop (Suc i) as))" by (subst e) auto
  moreover have "as ! i \<notin> set (take i as) \<union> set (drop (Suc i) as)"
    using \<open>distinct (take i as @ as ! i # drop (Suc i) as)\<close> by auto
  ultimately show "set (del i as) = set as - {as ! i}" by (auto simp: del_def)
qed

lemma rep_insert:
  assumes r: "rep ll as xs" and i: "i \<le> length xs" and a: "a \<notin> set as"
    and new: "ll_heap ll' a = Some \<lparr>value = v, previous = ptr_before as i, nxt = ptr_at as i\<rparr>"
    and old: "\<And>j. j < length as \<Longrightarrow> ll_heap ll' (as ! j) = Some \<lparr>value = xs ! j,
      previous = (if j = i then Some a else ptr_before as j), nxt = (if Suc j = i then Some a else ptr_at as (Suc j))\<rparr>"
    and dom: "dom (ll_heap ll') = insert a (set as)" and count: "ll_count ll' = ll_count ll + 1"
    and first: "ll_first ll' = (if i = 0 then Some a else ll_first ll)"
    and last: "ll_last ll' = (if i = length xs then Some a else ll_last ll)"
  shows "rep ll' (ins i a as) (ins i v xs)"
proof -
  have len: "length as = length xs" "distinct as" using r by (simp_all add: rep_def)
  have ia: "i \<le> length as" using i len(1) by simp
  have "ll_heap ll' (ins i a as ! j) = Some \<lparr>value = ins i v xs ! j, previous = ptr_before (ins i a as) j, nxt = ptr_at (ins i a as) (Suc j)\<rparr>"
    if j: "j < length (ins i a as)" for j
  proof -
    consider "j < i" | "j = i" | "i < j" by linarith
    then show ?thesis
    proof cases
      case 1
      then show ?thesis using old [of j] i ia len by (auto simp: nth_ins ptr_before_def ptr_at_def)
    next
      case 2
      then show ?thesis using new i ia len by (auto simp: nth_ins ptr_before_def ptr_at_def)
    next
      case 3
      moreover have "j - 1 < length as" using j ia 3 by simp
      ultimately show ?thesis using old [of "j - 1"] i ia len j by (auto simp: nth_ins ptr_before_def ptr_at_def)
    qed
  qed
  moreover have "ll_first ll' = ptr_at (ins i a as) 0" "ll_last ll' = ptr_before (ins i a as) (length (ins i a as))"
    using r first last i ia len by (auto simp: rep_def ptr_at_def ptr_before_def nth_ins)
  ultimately show ?thesis
    using len ia i dom count distinct_ins [OF len(2) a] r by (simp add: rep_def)
qed

lemma rep_delete:
  assumes r: "rep ll as xs" and i: "i < length xs"
    and old: "\<And>j. j < length as \<Longrightarrow> j \<noteq> i \<Longrightarrow> ll_heap ll' (as ! j) = Some \<lparr>value = xs ! j,
      previous = (if j = Suc i then ptr_before as i else ptr_before as j), nxt = (if Suc j = i then ptr_at as (Suc i) else ptr_at as (Suc j))\<rparr>"
    and dom: "dom (ll_heap ll') = set as - {as ! i}" and count: "ll_count ll' = ll_count ll - 1"
    and first: "ll_first ll' = (if i = 0 then ptr_at as 1 else ll_first ll)"
    and last: "ll_last ll' = (if Suc i = length xs then ptr_before as i else ll_last ll)"
  shows "rep ll' (del i as) (del i xs)"
proof -
  have len: "length as = length xs" "distinct as" using r by (simp_all add: rep_def)
  have ia: "i < length as" using i len(1) by simp
  have "ll_heap ll' (del i as ! j) = Some \<lparr>value = del i xs ! j, previous = ptr_before (del i as) j, nxt = ptr_at (del i as) (Suc j)\<rparr>"
    if j: "j < length (del i as)" for j
  proof (cases "j < i")
    case True
    then show ?thesis using old [of j] i ia len j by (auto simp: nth_del ptr_before_def ptr_at_def)
  next
    case False
    then show ?thesis using old [of "Suc j"] i ia len j by (auto simp: nth_del ptr_before_def ptr_at_def)
  qed
  moreover obtain n where n: "length xs = Suc n" using i by (cases xs) auto
  moreover have "ll_first ll' = ptr_at (del i as) 0"
    using r first i ia len by (auto simp: rep_def ptr_at_def nth_del)
  moreover have "ll_last ll' = ptr_before (del i as) (length (del i as))"
    using r last i ia len n by (cases n) (auto simp: rep_def ptr_before_def nth_del)
  ultimately show ?thesis
    using len ia i dom count del_distinct [OF len(2) ia] r by (simp add: rep_def)
qed

section \<open>The operations refine operations on lists\<close>

text \<open>What \<open>malloc\<close> promises.\<close>

definition fresh_malloc :: "'v malloc \<Rightarrow> bool" where
  "fresh_malloc malloc \<longleftrightarrow> (\<forall>h. finite (dom h) \<longrightarrow> h (malloc h) = None)"

lemma rep_nth:
  assumes "rep ll as xs" "i < length xs"
  shows "ll_heap ll (as ! i) = Some \<lparr>value = xs ! i, previous = ptr_before as i, nxt = ptr_at as (Suc i)\<rparr>"
  using assms by (simp add: rep_def)

lemma rep_eq_iff: "rep ll as xs \<Longrightarrow> i < length xs \<Longrightarrow> j < length xs \<Longrightarrow> as ! i = as ! j \<longleftrightarrow> i = j"
  by (simp add: rep_def nth_eq_iff_index_eq)

lemma rep_fresh:
  assumes "fresh_malloc malloc" "rep ll as xs"
  shows "malloc (ll_heap ll) \<notin> set as" "j < length xs \<Longrightarrow> as ! j \<noteq> malloc (ll_heap ll)"
proof -
  have "finite (dom (ll_heap ll))" using assms(2) by (simp add: rep_def)
  then have "ll_heap ll (malloc (ll_heap ll)) = None" using assms(1) by (simp add: fresh_malloc_def)
  then show "malloc (ll_heap ll) \<notin> set as" using assms(2) by (auto simp: rep_def)
  then show "j < length xs \<Longrightarrow> as ! j \<noteq> malloc (ll_heap ll)" using assms(2) nth_mem [of j as] unfolding rep_def by metis
qed

lemma rep_insert_first:
  assumes m: "fresh_malloc malloc" and r: "rep ll as xs"
  obtains ll' where "ll_insert_first malloc ll v = Some ll'" "rep ll' (malloc (ll_heap ll) # as) (v # xs)"
proof -
  let ?a = "malloc (ll_heap ll)"
  note f = rep_fresh [OF m r]
  have b: "length as = length xs" "dom (ll_heap ll) = set as" "ll_count ll = int (length xs)" "ll_first ll = ptr_at as 0"
    "ll_last ll = ptr_before as (length as)" using r by (simp_all add: rep_def)
  show ?thesis
  proof (cases xs)
    case Nil
    define ll' where "ll' = ll\<lparr>ll_heap := (ll_heap ll)(?a \<mapsto> \<lparr>value = v, previous = None, nxt = None\<rparr>), ll_count := 1,
      ll_first := Some ?a, ll_last := Some ?a\<rparr>"
    have "rep ll' (ins 0 ?a as) (ins 0 v xs)"
      by (rule rep_insert [OF r]) (use b f Nil in \<open>auto simp: ll'_def ptr_before_def ptr_at_def\<close>)
    moreover have "ll_insert_first malloc ll v = Some ll'"
      using b Nil by (simp add: ll_insert_first_def element_create_def Let_def ll'_def)
    ultimately show ?thesis using that by (simp add: ins_def)
  next
    case (Cons y ys)
    then obtain c cs where as: "as = c # cs" using b(1) by (cases as) auto
    have h: "ll_heap ll c = Some \<lparr>value = y, previous = None, nxt = ptr_at as (Suc 0)\<rparr>"
      using rep_nth [OF r, of 0] Cons as by (simp add: ptr_before_def)
    define ll' where "ll' = ll\<lparr>ll_heap := (ll_heap ll)(?a \<mapsto> \<lparr>value = v, previous = None, nxt = Some c\<rparr>,
      c \<mapsto> \<lparr>value = y, previous = Some ?a, nxt = ptr_at as (Suc 0)\<rparr>), ll_count := ll_count ll + 1, ll_first := Some ?a\<rparr>"
    have "c \<noteq> ?a" using f(1) as by auto
    then have "ll_insert_first malloc ll v = Some ll'"
      using b Cons h as by (simp add: ll_insert_first_def element_create_def Let_def upd_def ptr_at_def ll'_def)
    moreover have "rep ll' (ins 0 ?a as) (ins 0 v xs)"
    proof (rule rep_insert [OF r _ f(1)])
      fix j
      assume j: "j < length as"
      show "ll_heap ll' (as ! j) = Some \<lparr>value = xs ! j, previous = (if j = 0 then Some ?a else ptr_before as j),
          nxt = (if Suc j = 0 then Some ?a else ptr_at as (Suc j))\<rparr>"
        using rep_nth [OF r, of j] rep_eq_iff [OF r, of j 0] f(2) [of j] j b(1) Cons as
        by (cases "j = 0") (auto simp: ll'_def)
    qed (use b f Cons as \<open>c \<noteq> ?a\<close> in \<open>auto simp: ll'_def ptr_before_def ptr_at_def\<close>)
    ultimately show ?thesis using that by (simp add: ins_def)
  qed
qed

lemma rep_insert_last:
  assumes m: "fresh_malloc malloc" and r: "rep ll as xs"
  obtains ll' where "ll_insert_last malloc ll v = Some ll'" "rep ll' (as @ [malloc (ll_heap ll)]) (xs @ [v])"
proof -
  let ?a = "malloc (ll_heap ll)"
  note f = rep_fresh [OF m r]
  have b: "length as = length xs" "dom (ll_heap ll) = set as" "ll_count ll = int (length xs)" "ll_first ll = ptr_at as 0"
    "ll_last ll = ptr_before as (length as)" using r by (simp_all add: rep_def)
  show ?thesis
  proof (cases "xs = []")
    case True
    define ll' where "ll' = ll\<lparr>ll_heap := (ll_heap ll)(?a \<mapsto> \<lparr>value = v, previous = None, nxt = None\<rparr>), ll_count := 1,
      ll_first := Some ?a, ll_last := Some ?a\<rparr>"
    have "rep ll' (ins 0 ?a as) (ins 0 v xs)"
      by (rule rep_insert [OF r]) (use b f True in \<open>auto simp: ll'_def ptr_before_def ptr_at_def\<close>)
    moreover have "ll_insert_last malloc ll v = Some ll'"
      using b True by (simp add: ll_insert_last_def element_create_def Let_def ll'_def)
    ultimately show ?thesis using that True b(1) by (simp add: ins_def)
  next
    case False
    define n where "n = length xs - 1"
    have n: "length xs = Suc n" "n < length xs" using False by (simp_all add: n_def)
    have h: "ll_heap ll (as ! n) = Some \<lparr>value = xs ! n, previous = ptr_before as n, nxt = None\<rparr>"
      using rep_nth [OF r n(2)] n b(1) by (simp add: ptr_at_def)
    define ll' where "ll' = ll\<lparr>ll_heap := (ll_heap ll)(?a \<mapsto> \<lparr>value = v, previous = Some (as ! n), nxt = None\<rparr>,
      as ! n \<mapsto> \<lparr>value = xs ! n, previous = ptr_before as n, nxt = Some ?a\<rparr>), ll_count := ll_count ll + 1, ll_last := Some ?a\<rparr>"
    have "ll_insert_last malloc ll v = Some ll'"
      using b n h f(2) [OF n(2)] by (simp add: ll_insert_last_def element_create_def Let_def upd_def ptr_before_def ll'_def)
    moreover have "rep ll' (ins (length xs) ?a as) (ins (length xs) v xs)"
    proof (rule rep_insert [OF r _ f(1)])
      fix j
      assume j: "j < length as"
      show "ll_heap ll' (as ! j) = Some \<lparr>value = xs ! j, previous = (if j = length xs then Some ?a else ptr_before as j),
          nxt = (if Suc j = length xs then Some ?a else ptr_at as (Suc j))\<rparr>"
        using rep_nth [OF r, of j] rep_eq_iff [OF r, of j n] f(2) [of j] j b(1) n
        by (cases "j = n") (auto simp: ll'_def)
    qed (use b f n in \<open>auto simp: ll'_def ptr_before_def ptr_at_def\<close>)
    ultimately show ?thesis using that b(1) by (simp add: ins_def)
  qed
qed

lemma rep_insert_before:
  assumes m: "fresh_malloc malloc" and r: "rep ll as xs" and i: "i \<le> length xs" and c: "en_current en = ptr_at as i"
  obtains ll' where "ll_insert_before malloc ll en v = Some ll'" "rep ll' (ins i (malloc (ll_heap ll)) as) (ins i v xs)"
proof (cases "i = length xs")
  case True
  then have "en_current en = None" using c r by (simp add: ptr_at_def rep_def)
  moreover have "ins i v xs = xs @ [v]" "ins i (malloc (ll_heap ll)) as = as @ [malloc (ll_heap ll)]"
    using True r by (simp_all add: ins_def rep_def)
  moreover obtain ll' where "ll_insert_last malloc ll v = Some ll'" "rep ll' (as @ [malloc (ll_heap ll)]) (xs @ [v])"
    by (rule rep_insert_last [OF m r])
  ultimately show ?thesis by (intro that [of ll']) (simp_all add: ll_insert_before_def)
next
  case False
  let ?a = "malloc (ll_heap ll)"
  have i: "i < length xs" using i False by simp
  note f = rep_fresh [OF m r]
  have b: "length as = length xs" "dom (ll_heap ll) = set as" "ll_first ll = ptr_at as 0"
    "ll_last ll = ptr_before as (length as)" using r by (simp_all add: rep_def)
  have cur: "en_current en = Some (as ! i)" using c i b(1) by (simp add: ptr_at_def)
  note h = rep_nth [OF r i]
  define hp where "hp = (if i = 0 then ll_heap ll else (ll_heap ll)(as ! (i - 1) \<mapsto> \<lparr>value = xs ! (i - 1), previous = ptr_before as (i - 1), nxt = Some ?a\<rparr>))"
  define hq where "hq = hp(as ! i \<mapsto> \<lparr>value = xs ! i, previous = Some ?a, nxt = ptr_at as (Suc i)\<rparr>,
    ?a \<mapsto> \<lparr>value = v, previous = ptr_before as i, nxt = Some (as ! i)\<rparr>)"
  define ll' where "ll' = ll\<lparr>ll_heap := hq, ll_count := ll_count ll + 1, ll_first := (if i = 0 then Some ?a else ll_first ll)\<rparr>"
  have "ll_insert_before malloc ll en v = Some ll'"
  proof (cases "i = 0")
    case True
    then show ?thesis
      using cur h f(2) [OF i] by (simp add: ll_insert_before_def element_create_def Let_def upd_def ptr_before_def ll'_def hq_def hp_def)
  next
    case False
    then have p: "i - 1 < length xs" "as ! (i - 1) \<noteq> as ! i" using i rep_eq_iff [OF r, of "i - 1" i] by auto
    have "ll_heap ll (as ! (i - 1)) = Some \<lparr>value = xs ! (i - 1), previous = ptr_before as (i - 1), nxt = Some (as ! i)\<rparr>"
      using rep_nth [OF r p(1)] False i b(1) by (simp add: ptr_at_def)
    then show ?thesis
      using cur h f(2) [OF i] f(2) [OF p(1)] p(2) False
      by (simp add: ll_insert_before_def element_create_def Let_def upd_def ptr_before_def ll'_def hq_def hp_def)
  qed
  moreover have "rep ll' (ins i ?a as) (ins i v xs)"
  proof (rule rep_insert [OF r _ f(1)])
    fix j
    assume j: "j < length as"
    show "ll_heap ll' (as ! j) = Some \<lparr>value = xs ! j, previous = (if j = i then Some ?a else ptr_before as j),
        nxt = (if Suc j = i then Some ?a else ptr_at as (Suc j))\<rparr>"
      using rep_nth [OF r, of j] rep_eq_iff [OF r, of j i] rep_eq_iff [OF r, of j "i - 1"] f(2) [of j] j b(1) i
      by (cases i; cases "j = i"; cases "Suc j = i") (simp_all add: ll'_def hq_def hp_def)
  next
    have "as ! i \<in> set as" "as ! (i - 1) \<in> set as" using i b(1) by simp_all
    then show "dom (ll_heap ll') = insert ?a (set as)" using b(2) by (auto simp: ll'_def hq_def hp_def)
    show "ll_heap ll' ?a = Some \<lparr>value = v, previous = ptr_before as i, nxt = ptr_at as i\<rparr>"
      using f(2) [OF i] f(2) [of "i - 1"] i b(1) by (auto simp: ll'_def hq_def hp_def ptr_at_def)
  qed (use i False in \<open>simp_all add: ll'_def\<close>)
  ultimately show ?thesis by (rule that)
qed

lemma rep_remove_element:
  assumes r: "rep ll as xs" and i: "i < length xs"
  obtains ll' where "remove_element ll (as ! i) = Some (ptr_at as (Suc i), ll')" "rep ll' (del i as) (del i xs)"
proof -
  have b: "length as = length xs" "distinct as" "dom (ll_heap ll) = set as" "ll_count ll = int (length xs)" "ll_first ll = ptr_at as 0"
    "ll_last ll = ptr_before as (length as)" using r by (simp_all add: rep_def)
  note h = rep_nth [OF r i]
  let ?nx = "ptr_at as (Suc i)" and ?pv = "ptr_before as i"
  define h1 where "h1 = (if Suc i < length xs then ((ll_heap ll)(as ! i := None))(as ! Suc i \<mapsto>
    \<lparr>value = xs ! Suc i, previous = ?pv, nxt = ptr_at as (Suc (Suc i))\<rparr>) else (ll_heap ll)(as ! i := None))"
  define h2 where "h2 = (if i = 0 then h1 else h1(as ! (i - 1) \<mapsto> \<lparr>value = xs ! (i - 1), previous = ptr_before as (i - 1), nxt = ?nx\<rparr>))"
  define ll' where "ll' = ll\<lparr>ll_heap := h2, ll_count := ll_count ll - 1, ll_first := (if i = 0 then ?nx else ll_first ll),
    ll_last := (if Suc i = length xs then ?pv else ll_last ll)\<rparr>"
  have nx: "as ! Suc i \<noteq> as ! i" "ll_heap ll (as ! Suc i) = Some \<lparr>value = xs ! Suc i, previous = Some (as ! i), nxt = ptr_at as (Suc (Suc i))\<rparr>"
    if "Suc i < length xs" using rep_eq_iff [OF r that i] rep_nth [OF r that] by (simp_all add: ptr_before_def)
  have pv: "as ! (i - 1) \<noteq> as ! i" "Suc i < length xs \<Longrightarrow> as ! (i - 1) \<noteq> as ! Suc i"
    "ll_heap ll (as ! (i - 1)) = Some \<lparr>value = xs ! (i - 1), previous = ptr_before as (i - 1), nxt = Some (as ! i)\<rparr>"
    if i0: "i \<noteq> 0"
  proof -
    obtain k where k: "i = Suc k" using i0 by (cases i) auto
    then have "k < length xs" using i by simp
    then show "as ! (i - 1) \<noteq> as ! i" "Suc i < length xs \<Longrightarrow> as ! (i - 1) \<noteq> as ! Suc i"
      "ll_heap ll (as ! (i - 1)) = Some \<lparr>value = xs ! (i - 1), previous = ptr_before as (i - 1), nxt = Some (as ! i)\<rparr>"
      using rep_eq_iff [OF r, of k i] rep_eq_iff [OF r, of k "Suc i"] rep_nth [OF r, of k] i b(1) k by (simp_all add: ptr_at_def)
  qed
  have single: "?nx = None" "?pv = None" if "int (length xs) - 1 = 0"
    using that i b(1) by (auto simp: ptr_at_def ptr_before_def)
  have "remove_element ll (as ! i) = Some (?nx, ll')"
  proof (cases "Suc i < length xs")
    case True
    then have "?nx = Some (as ! Suc i)" "Suc i \<noteq> length xs" using b(1) by (simp_all add: ptr_at_def)
    then show ?thesis
      using True h nx [OF True] pv b(4) single
      by (cases "i = 0") (simp_all add: remove_element_def upd_def Let_def ll'_def h2_def h1_def ptr_before_def)
  next
    case False
    then have "?nx = None" "Suc i = length xs" using i b(1) by (simp_all add: ptr_at_def)
    then show ?thesis
      using False h pv b(4) single
      by (cases "i = 0") (simp_all add: remove_element_def upd_def Let_def ll'_def h2_def h1_def ptr_before_def)
  qed
  moreover have "rep ll' (del i as) (del i xs)"
  proof (rule rep_delete [OF r i])
    fix j
    assume "j < length as" "j \<noteq> i"
    then show "ll_heap ll' (as ! j) = Some \<lparr>value = xs ! j, previous = (if j = Suc i then ?pv else ptr_before as j),
        nxt = (if Suc j = i then ?nx else ptr_at as (Suc j))\<rparr>"
      using rep_nth [OF r, of j] rep_eq_iff [OF r, of j i] rep_eq_iff [OF r, of j "i - 1"] rep_eq_iff [OF r, of j "Suc i"] b(1) i
      by (cases i; cases "j = Suc i"; cases "Suc j = i") (simp_all add: ll'_def h2_def h1_def)
  next
    have "dom h1 = set as - {as ! i}"
    proof (cases "Suc i < length xs")
      case True
      then have "as ! Suc i \<in> set as" using b(1) by simp
      then show ?thesis using True b(3) nx(1) [OF True] by (auto simp: h1_def)
    qed (simp add: h1_def b(3))
    then show "dom (ll_heap ll') = set as - {as ! i}"
    proof (cases "i = 0")
      case False
      have "as ! (i - 1) \<in> set as" using b(1) i by simp
      then show ?thesis using False \<open>dom h1 = set as - {as ! i}\<close> pv(1) [OF False] by (auto simp: ll'_def h2_def)
    qed (simp add: ll'_def h2_def)
  qed (simp_all add: ll'_def)
  ultimately show ?thesis by (rule that)
qed

lemma rep_ends:
  assumes "rep ll as xs"
  shows "ll_get_first ll = Some (if xs = [] then None else Some (hd xs))" "ll_get_last ll = Some (if xs = [] then None else Some (last xs))"
proof -
  have b: "length as = length xs" "ll_count ll = int (length xs)" "ll_first ll = ptr_at as 0" "ll_last ll = ptr_before as (length as)"
    using assms by (simp_all add: rep_def)
  show "ll_get_first ll = Some (if xs = [] then None else Some (hd xs))"
    using b rep_nth [OF assms, of 0] by (cases xs) (simp_all add: ll_get_first_def ptr_at_def)
  show "ll_get_last ll = Some (if xs = [] then None else Some (last xs))"
  proof (cases "xs = []")
    case False
    then have "length xs - 1 < length xs" "length xs \<noteq> 0" by simp_all
    then show ?thesis
      using b rep_nth [OF assms, of "length xs - 1"] False by (simp add: ll_get_last_def ptr_before_def last_conv_nth)
  qed (use b in \<open>simp add: ll_get_last_def\<close>)
qed

lemma del_ends: "xs \<noteq> [] \<Longrightarrow> del 0 xs = tl xs" "xs \<noteq> [] \<Longrightarrow> del (length xs - 1) xs = butlast xs"
  by (simp_all add: del_def drop_Suc butlast_conv_take)

lemma rep_remove_first:
  assumes r: "rep ll as xs" and "xs \<noteq> []"
  obtains ll' as' where "ll_remove_first ll = Some (Some (hd xs), ll')" "rep ll' as' (tl xs)"
proof -
  have i: "0 < length xs" using assms(2) by simp
  obtain ll' where ll': "remove_element ll (as ! 0) = Some (ptr_at as (Suc 0), ll')" "rep ll' (del 0 as) (del 0 xs)"
    by (rule rep_remove_element [OF r i])
  have "ll_first ll = Some (as ! 0)" using r i by (auto simp: rep_def ptr_at_def)
  then show ?thesis
    using that [of ll' "del 0 as"] ll' rep_ends(1) [OF r] assms(2) by (simp add: ll_remove_first_def del_ends)
qed

lemma rep_remove_last:
  assumes r: "rep ll as xs" and "xs \<noteq> []"
  obtains ll' as' where "ll_remove_last ll = Some (Some (last xs), ll')" "rep ll' as' (butlast xs)"
proof -
  have i: "length xs - 1 < length xs" using assms(2) by simp
  obtain ll' where ll': "remove_element ll (as ! (length xs - 1)) = Some (ptr_at as (Suc (length xs - 1)), ll')"
      "rep ll' (del (length xs - 1) as) (del (length xs - 1) xs)"
    by (rule rep_remove_element [OF r i])
  have "ll_last ll = Some (as ! (length xs - 1))" using r assms(2) by (auto simp: rep_def ptr_before_def)
  then show ?thesis
    using that [of ll' "del (length xs - 1) as"] ll' [unfolded del_ends(2) [OF assms(2)]] rep_ends(2) [OF r] assms(2)
    by (simp add: ll_remove_last_def)
qed

lemma ptr_at_del: "i < length as \<Longrightarrow> ptr_at (del i as) i = ptr_at as (Suc i)"
  by (auto simp: ptr_at_def nth_del)

lemma take_drop_del: "i < length xs \<Longrightarrow> take i (del i xs) = take i xs" "i < length xs \<Longrightarrow> drop i (del i xs) = drop (Suc i) xs"
  by (simp_all add: del_def)

lemma rep_remove_loop:
  assumes "rep ll as xs" "i \<le> length xs"
  shows "\<exists>ll' as'. remove_loop m ll (ptr_at as i) k = Some (k + int (length (filter m (drop i xs))), ll') \<and>
    rep ll' as' (take i xs @ filter (\<lambda>v. \<not> m v) (drop i xs))"
  using assms
proof (induction "length xs - i" arbitrary: ll as xs i k)
  case 0
  then have "ptr_at as i = None" by (auto simp: rep_def ptr_at_def)
  then show ?case using 0 by (subst remove_loop.simps) auto
next
  case (Suc n)
  then have i: "i < length xs" "length as = length xs" by (simp_all add: rep_def)
  have d: "drop i xs = xs ! i # drop (Suc i) xs" "take (Suc i) xs = take i xs @ [xs ! i]"
    using i by (simp_all add: Cons_nth_drop_Suc take_Suc_conv_app_nth)
  have c: "ptr_at as i = Some (as ! i)" using i by (simp add: ptr_at_def)
  note h = rep_nth [OF Suc.prems(1) i(1)]
  show ?case
  proof (cases "m (xs ! i)")
    case True
    obtain l1 where l1: "remove_element ll (as ! i) = Some (ptr_at as (Suc i), l1)" "rep l1 (del i as) (del i xs)"
      by (rule rep_remove_element [OF Suc.prems(1) i(1)])
    have "n = length (del i xs) - i" "i \<le> length (del i xs)" using Suc.hyps(2) i by simp_all
    from Suc.hyps(1) [OF this(1) l1(2) this(2), of "k + 1"] i obtain ll' as' where
      "remove_loop m l1 (ptr_at as (Suc i)) (k + 1) = Some (k + 1 + int (length (filter m (drop (Suc i) xs))), ll')"
      "rep ll' as' (take i xs @ filter (\<lambda>v. \<not> m v) (drop (Suc i) xs))"
      by (auto simp: ptr_at_del take_drop_del)
    moreover have "remove_loop m ll (Some (as ! i)) k = remove_loop m l1 (ptr_at as (Suc i)) (k + 1)"
      using h l1(1) True by (subst remove_loop.simps) simp
    ultimately show ?thesis using True c d(1) by auto
  next
    case False
    have "n = length xs - Suc i" "Suc i \<le> length xs" using Suc.hyps(2) i by simp_all
    from Suc.hyps(1) [OF this(1) Suc.prems(1) this(2), of k] obtain ll' as' where
      "remove_loop m ll (ptr_at as (Suc i)) k = Some (k + int (length (filter m (drop (Suc i) xs))), ll')"
      "rep ll' as' (take (Suc i) xs @ filter (\<lambda>v. \<not> m v) (drop (Suc i) xs))" by blast
    moreover have "remove_loop m ll (Some (as ! i)) k = remove_loop m ll (ptr_at as (Suc i)) k"
      using h False by (subst remove_loop.simps) simp
    ultimately show ?thesis using False c d by auto
  qed
qed

lemma rep_find_loop: "rep ll as xs \<Longrightarrow> i \<le> length xs \<Longrightarrow> find_loop m ll (ptr_at as i) = Some (find m (drop i xs))"
proof (induction "length xs - i" arbitrary: i)
  case 0
  then have "ptr_at as i = None" by (auto simp: rep_def ptr_at_def)
  then show ?case using 0 by (subst find_loop.simps) simp
next
  case (Suc n)
  then have i: "i < length xs" "length as = length xs" by (simp_all add: rep_def)
  have "drop i xs = xs ! i # drop (Suc i) xs" using i by (simp add: Cons_nth_drop_Suc)
  then show ?case
    using Suc i rep_nth [OF Suc.prems(1) i(1)] by (subst find_loop.simps) (simp add: ptr_at_def [of as i])
qed

lemma rep_invoke_loop: "rep ll as xs \<Longrightarrow> i \<le> length xs \<Longrightarrow> ll_invoke_loop ll (ptr_at as i) = Some (drop i xs)"
proof (induction "length xs - i" arbitrary: i)
  case 0
  then have "ptr_at as i = None" by (auto simp: rep_def ptr_at_def)
  then show ?case using 0 by (subst ll_invoke_loop.simps) simp
next
  case (Suc n)
  then have i: "i < length xs" "length as = length xs" by (simp_all add: rep_def)
  have "drop i xs = xs ! i # drop (Suc i) xs" using i by (simp add: Cons_nth_drop_Suc)
  then show ?case
    using Suc i rep_nth [OF Suc.prems(1) i(1)] by (subst ll_invoke_loop.simps) (simp add: ptr_at_def [of as i])
qed

section \<open>Clients\<close>

text \<open>
  A client works on a list and on at most one enumerator, which it gives up before it changes the list in
  another way.
\<close>

datatype 'v ll_op = Insert_First 'v | Insert_Last 'v | Remove_First | Remove_Last | Get_First | Get_Last | Get_Count
  | Remove 'v | Find_First "'v \<Rightarrow> bool" | Invoke
  | Enum_Create | Enum_Reset | Enum_Next | Enum_Insert_Before 'v | Enum_Remove_At

datatype 'v ll_result = R_None | R_Item "'v option" | R_Count int | R_Values "'v list"

definition ll_step :: "'v malloc \<Rightarrow> 'v ll_op \<Rightarrow> 'v linked_list \<times> enumerator option \<Rightarrow>
    ('v ll_result \<times> 'v linked_list \<times> enumerator option) option" where
  "ll_step malloc oper st = (case (oper, st) of
     (Insert_First v, (ll, _)) \<Rightarrow> do { ll \<leftarrow> ll_insert_first malloc ll v; Some (R_None, ll, None) }
   | (Insert_Last v, (ll, _)) \<Rightarrow> do { ll \<leftarrow> ll_insert_last malloc ll v; Some (R_None, ll, None) }
   | (Remove_First, (ll, _)) \<Rightarrow> do { (r, ll) \<leftarrow> ll_remove_first ll; Some (R_Item r, ll, None) }
   | (Remove_Last, (ll, _)) \<Rightarrow> do { (r, ll) \<leftarrow> ll_remove_last ll; Some (R_Item r, ll, None) }
   | (Get_First, (ll, en)) \<Rightarrow> do { r \<leftarrow> ll_get_first ll; Some (R_Item r, ll, en) }
   | (Get_Last, (ll, en)) \<Rightarrow> do { r \<leftarrow> ll_get_last ll; Some (R_Item r, ll, en) }
   | (Get_Count, (ll, en)) \<Rightarrow> Some (R_Count (ll_get_count ll), ll, en)
   | (Remove v, (ll, _)) \<Rightarrow> do { (n, ll) \<leftarrow> ll_remove ll v None; Some (R_Count n, ll, None) }
   | (Find_First m, (ll, en)) \<Rightarrow> do { r \<leftarrow> ll_find_first ll (Some m) None; Some (R_Item r, ll, en) }
   | (Invoke, (ll, en)) \<Rightarrow> do { vs \<leftarrow> ll_invoke_function ll; Some (R_Values vs, ll, en) }
   | (Enum_Create, (ll, _)) \<Rightarrow> Some (R_None, ll, Some (ll_create_enumerator ll))
   | (Enum_Reset, (ll, en)) \<Rightarrow> Some (R_None, ll, map_option (reset_enumerator ll) en)
   | (Enum_Next, (ll, Some en)) \<Rightarrow> do { (r, en) \<leftarrow> ll_enumerate ll en; Some (R_Item r, ll, Some en) }
   | (Enum_Insert_Before v, (ll, Some en)) \<Rightarrow> do { ll \<leftarrow> ll_insert_before malloc ll en v; Some (R_None, ll, Some en) }
   | (Enum_Remove_At, (ll, Some en)) \<Rightarrow> do { (en, ll) \<leftarrow> ll_remove_at ll en; Some (R_None, ll, Some en) }
   | (_, (ll, None)) \<Rightarrow> Some (R_None, ll, None))"

text \<open>
  The same on lists.  An enumerator is a position and whether the item there is yet to be returned.
\<close>

definition list_step :: "'v ll_op \<Rightarrow> 'v list \<times> (nat \<times> bool) option \<Rightarrow> 'v ll_result \<times> 'v list \<times> (nat \<times> bool) option" where
  "list_step oper st = (case (oper, st) of
     (Insert_First v, (xs, _)) \<Rightarrow> (R_None, v # xs, None)
   | (Insert_Last v, (xs, _)) \<Rightarrow> (R_None, xs @ [v], None)
   | (Remove_First, (xs, _)) \<Rightarrow> (R_Item (if xs = [] then None else Some (hd xs)), tl xs, None)
   | (Remove_Last, (xs, _)) \<Rightarrow> (R_Item (if xs = [] then None else Some (last xs)), butlast xs, None)
   | (Get_First, (xs, en)) \<Rightarrow> (R_Item (if xs = [] then None else Some (hd xs)), xs, en)
   | (Get_Last, (xs, en)) \<Rightarrow> (R_Item (if xs = [] then None else Some (last xs)), xs, en)
   | (Get_Count, (xs, en)) \<Rightarrow> (R_Count (int (length xs)), xs, en)
   | (Remove v, (xs, _)) \<Rightarrow> (R_Count (int (count_list xs v)), removeAll v xs, None)
   | (Find_First m, (xs, en)) \<Rightarrow> (R_Item (find m xs), xs, en)
   | (Invoke, (xs, en)) \<Rightarrow> (R_Values xs, xs, en)
   | (Enum_Create, (xs, _)) \<Rightarrow> (R_None, xs, Some (0, True))
   | (Enum_Reset, (xs, en)) \<Rightarrow> (R_None, xs, map_option (\<lambda>_. (0, True)) en)
   | (Enum_Next, (xs, Some (i, at_cur))) \<Rightarrow>
       (let i = (if at_cur \<or> i = length xs then i else i + 1)
        in (R_Item (if i < length xs then Some (xs ! i) else None), xs, Some (i, False)))
   | (Enum_Insert_Before v, (xs, Some (i, at_cur))) \<Rightarrow> (R_None, take i xs @ v # drop i xs, Some (i + 1, at_cur))
   | (Enum_Remove_At, (xs, Some (i, at_cur))) \<Rightarrow>
       (if i < length xs then (R_None, take i xs @ drop (i + 1) xs, Some (i, True)) else (R_None, xs, Some (i, at_cur)))
   | (_, (xs, None)) \<Rightarrow> (R_None, xs, None))"

primrec ll_run :: "'v malloc \<Rightarrow> 'v ll_op list \<Rightarrow> 'v linked_list \<times> enumerator option \<Rightarrow> 'v ll_result list option" where
  "ll_run malloc [] st = Some []"
| "ll_run malloc (oper # opers) st = do { (r, st) \<leftarrow> ll_step malloc oper st; rs \<leftarrow> ll_run malloc opers st; Some (r # rs) }"

primrec list_run :: "'v ll_op list \<Rightarrow> 'v list \<times> (nat \<times> bool) option \<Rightarrow> 'v ll_result list" where
  "list_run [] st = []"
| "list_run (oper # opers) st = (let (r, st) = list_step oper st in r # list_run opers st)"

definition en_rep :: "addr list \<Rightarrow> enumerator option \<Rightarrow> (nat \<times> bool) option \<Rightarrow> bool" where
  "en_rep as en pos = (case (en, pos) of
     (None, None) \<Rightarrow> True
   | (Some e, Some (i, at_cur)) \<Rightarrow> i \<le> length as \<and> en_current e = ptr_at as i \<and> en_at_current e = at_cur
   | _ \<Rightarrow> False)"

definition ll_sim :: "'v linked_list \<times> enumerator option \<Rightarrow> 'v list \<times> (nat \<times> bool) option \<Rightarrow> bool" where
  "ll_sim c a \<longleftrightarrow> (\<exists>as. rep (fst c) as (fst a) \<and> en_rep as (snd c) (snd a))"

lemma en_rep_None [simp]: "en_rep as None None"
  by (simp add: en_rep_def)

lemma sim_result:
  "ll_step malloc oper (ll, en) = Some (r, ll', en') \<Longrightarrow> list_step oper (xs, pos) = (r, xs', pos') \<Longrightarrow> rep ll' as xs' \<Longrightarrow>
   en_rep as en' pos' \<Longrightarrow> \<exists>r c' a'. ll_step malloc oper (ll, en) = Some (r, c') \<and> list_step oper (xs, pos) = (r, a') \<and> ll_sim c' a'"
  unfolding ll_sim_def by (intro exI [of _ r] exI [of _ "(ll', en')"] exI [of _ "(xs', pos')"]) auto

lemma sim_enumerate:
  assumes r: "rep ll as xs" and e: "i \<le> length xs" "en_current en = ptr_at as i"
  defines "i' \<equiv> if en_at_current en \<or> i = length xs then i else i + 1"
  obtains en' where "ll_enumerate ll en = Some (if i' < length xs then Some (xs ! i') else None, en')"
    "i' \<le> length xs" "en_current en' = ptr_at as i'" "\<not> en_at_current en'"
proof -
  have len: "length as = length xs" using r by (simp add: rep_def)
  have "do_enumerate ll e = Some (if j < length xs then Some (xs ! j) else None)" if "en_current e = ptr_at as j" for e j
    using that rep_nth [OF r, of j] len by (auto simp: do_enumerate_def ptr_at_def)
  note d = this
  show ?thesis
  proof (cases "en_at_current en")
    case True
    then show ?thesis
      using that [of "en\<lparr>en_at_current := False\<rparr>"] d [of en i] e by (simp add: ll_enumerate_def enumerate_current_def i'_def)
  next
    case False
    let ?en = "en\<lparr>en_current := ptr_at as i'\<rparr>"
    have "enumerate_next ll en = Some (if i' < length xs then Some (xs ! i') else None, ?en)"
    proof (cases "i = length xs")
      case True
      then have "en_current en = None" "i' = i" "en = ?en" using e(2) len by (simp_all add: ptr_at_def i'_def)
      then show ?thesis using d [of en i] e(2) True by (simp add: enumerate_next_def)
    next
      case i: False
      then have "ll_heap ll (as ! i) = Some \<lparr>value = xs ! i, previous = ptr_before as i, nxt = ptr_at as (Suc i)\<rparr>" "i' = Suc i"
        "en_current en = Some (as ! i)" using rep_nth [OF r, of i] e False len by (simp_all add: i'_def ptr_at_def)
      then show ?thesis using d [of ?en i'] by (simp add: enumerate_next_def)
    qed
    then show ?thesis using that [of ?en] False e(1) by (simp add: ll_enumerate_def i'_def)
  qed
qed

lemma sim_enum_next:
  assumes r: "rep ll as xs" and c: "i \<le> length xs" "en_current c = ptr_at as i"
  shows "\<exists>r c' a'. ll_step malloc Enum_Next (ll, Some c) = Some (r, c') \<and>
    list_step Enum_Next (xs, Some (i, en_at_current c)) = (r, a') \<and> ll_sim c' a'"
proof -
  have b: "length as = length xs" using r by (simp add: rep_def)
  note sr = sim_result [of malloc Enum_Next ll "Some c" _ _ _ xs "Some (i, en_at_current c)"]
  obtain c' where "ll_enumerate ll c = Some (if (if en_at_current c \<or> i = length xs then i else i + 1) < length xs
        then Some (xs ! (if en_at_current c \<or> i = length xs then i else i + 1)) else None, c')"
      "(if en_at_current c \<or> i = length xs then i else i + 1) \<le> length xs"
      "en_current c' = ptr_at as (if en_at_current c \<or> i = length xs then i else i + 1)" "\<not> en_at_current c'"
    by (rule sim_enumerate [OF r c])
  then show ?thesis using r b by (intro sr) (auto simp: ll_step_def list_step_def en_rep_def Let_def)
qed

lemma sim_enum_insert:
  assumes m: "fresh_malloc malloc" and r: "rep ll as xs" and c: "i \<le> length xs" "en_current c = ptr_at as i"
  shows "\<exists>r c' a'. ll_step malloc (Enum_Insert_Before v) (ll, Some c) = Some (r, c') \<and>
    list_step (Enum_Insert_Before v) (xs, Some (i, en_at_current c)) = (r, a') \<and> ll_sim c' a'"
proof -
  have b: "length as = length xs" using r by (simp add: rep_def)
  note sr = sim_result [of malloc "Enum_Insert_Before v" ll "Some c" _ _ _ xs "Some (i, en_at_current c)"]
  obtain ll' where "ll_insert_before malloc ll c v = Some ll'" "rep ll' (ins i (malloc (ll_heap ll)) as) (ins i v xs)"
    by (rule rep_insert_before [OF m r c])
  moreover have "ptr_at as i = ptr_at (ins i (malloc (ll_heap ll)) as) (Suc i)" using c(1) b by (auto simp: ptr_at_def nth_ins)
  ultimately show ?thesis using c b by (intro sr) (auto simp: ll_step_def list_step_def en_rep_def ins_def)
qed

lemma sim_enum_remove:
  assumes r: "rep ll as xs" and c: "i \<le> length xs" "en_current c = ptr_at as i"
  shows "\<exists>r c' a'. ll_step malloc Enum_Remove_At (ll, Some c) = Some (r, c') \<and>
    list_step Enum_Remove_At (xs, Some (i, en_at_current c)) = (r, a') \<and> ll_sim c' a'"
proof -
  have b: "length as = length xs" using r by (simp add: rep_def)
  note sr = sim_result [of malloc Enum_Remove_At ll "Some c" _ _ _ xs "Some (i, en_at_current c)"]
  show ?thesis
  proof (cases "i < length xs")
    case True
    obtain ll' where ll': "remove_element ll (as ! i) = Some (ptr_at as (Suc i), ll')" "rep ll' (del i as) (del i xs)"
      by (rule rep_remove_element [OF r True])
    have "ll_remove_at ll c = Some (c\<lparr>en_current := ptr_at as (Suc i), en_at_current := True\<rparr>, ll')"
      using c(2) True b rep_nth [OF r True] ll'(1) by (simp add: ll_remove_at_def ptr_at_def [of as i])
    then show ?thesis
      using True ll'(2) b ptr_at_del [of i as] by (intro sr) (auto simp: ll_step_def list_step_def en_rep_def del_def)
  next
    case False
    then have "en_current c = None" using c(2) b by (simp add: ptr_at_def)
    then show ?thesis using c False r b by (intro sr) (auto simp: ll_step_def list_step_def ll_remove_at_def en_rep_def)
  qed
qed

lemma ll_step_sim:
  assumes m: "fresh_malloc malloc" and "ll_sim (ll, en) (xs, pos)"
  shows "\<exists>r c' a'. ll_step malloc oper (ll, en) = Some (r, c') \<and> list_step oper (xs, pos) = (r, a') \<and> ll_sim c' a'"
proof -
  from assms(2) obtain as where r: "rep ll as xs" and e: "en_rep as en pos" by (auto simp: ll_sim_def)
  have b: "length as = length xs" "ll_first ll = ptr_at as 0" "ll_count ll = int (length xs)" using r by (simp_all add: rep_def)
  note sr = sim_result [of malloc oper ll en _ _ _ xs pos]
  have en: "en = None \<and> pos = None \<or> (\<exists>c i. en = Some c \<and> pos = Some (i, en_at_current c) \<and> i \<le> length xs \<and> en_current c = ptr_at as i)"
    using e b(1) by (auto simp: en_rep_def split: option.splits)
  show ?thesis
  proof (cases oper)
    case (Insert_First v)
    obtain ll' where "ll_insert_first malloc ll v = Some ll'" "rep ll' (malloc (ll_heap ll) # as) (v # xs)" by (rule rep_insert_first [OF m r])
    then show ?thesis using Insert_First by (intro sr) (auto simp: ll_step_def list_step_def)
  next
    case (Insert_Last v)
    obtain ll' where "ll_insert_last malloc ll v = Some ll'" "rep ll' (as @ [malloc (ll_heap ll)]) (xs @ [v])" by (rule rep_insert_last [OF m r])
    then show ?thesis using Insert_Last by (intro sr) (auto simp: ll_step_def list_step_def)
  next
    case Remove_First
    show ?thesis
    proof (cases "xs = []")
      case True
      then show ?thesis using Remove_First r rep_ends(1) [OF r] by (intro sr [of _ _ None]) (auto simp: ll_step_def list_step_def ll_remove_first_def)
    next
      case False
      obtain ll' as' where "ll_remove_first ll = Some (Some (hd xs), ll')" "rep ll' as' (tl xs)" by (rule rep_remove_first [OF r False])
      then show ?thesis using Remove_First False by (intro sr) (auto simp: ll_step_def list_step_def)
    qed
  next
    case Remove_Last
    show ?thesis
    proof (cases "xs = []")
      case True
      then show ?thesis using Remove_Last r rep_ends(2) [OF r] by (intro sr [of _ _ None]) (auto simp: ll_step_def list_step_def ll_remove_last_def)
    next
      case False
      obtain ll' as' where "ll_remove_last ll = Some (Some (last xs), ll')" "rep ll' as' (butlast xs)" by (rule rep_remove_last [OF r False])
      then show ?thesis using Remove_Last False by (intro sr) (auto simp: ll_step_def list_step_def)
    qed
  next
    case (Remove v)
    obtain ll' as' where "ll_remove ll v None = Some (int (length (filter (\<lambda>x. x = v) xs)), ll')" "rep ll' as' (filter (\<lambda>x. x \<noteq> v) xs)"
      using rep_remove_loop [OF r, of 0 "\<lambda>x. x = v" 0] b(2) by (auto simp: ll_remove_def)
    moreover have "filter (\<lambda>x. x \<noteq> v) xs = removeAll v xs" by (induction xs) auto
    moreover have "length (filter (\<lambda>x. x = v) xs) = count_list xs v" by (induction xs) auto
    ultimately show ?thesis using Remove by (intro sr) (auto simp: ll_step_def list_step_def)
  next
    case Get_First
    then show ?thesis using rep_ends(1) [OF r] r e by (intro sr) (auto simp: ll_step_def list_step_def)
  next
    case Get_Last
    then show ?thesis using rep_ends(2) [OF r] r e by (intro sr) (auto simp: ll_step_def list_step_def)
  next
    case Get_Count
    then show ?thesis using b(3) r e by (intro sr) (auto simp: ll_step_def list_step_def ll_get_count_def)
  next
    case (Find_First p)
    then show ?thesis using rep_find_loop [OF r, of 0] b(2) r e by (intro sr) (auto simp: ll_step_def list_step_def ll_find_first_def)
  next
    case Invoke
    then show ?thesis using rep_invoke_loop [OF r, of 0] b(2) r e by (intro sr) (auto simp: ll_step_def list_step_def ll_invoke_function_def)
  next
    case Enum_Create
    then show ?thesis using b(2) r by (intro sr) (auto simp: ll_step_def list_step_def en_rep_def ll_create_enumerator_def)
  next
    case Enum_Reset
    then show ?thesis using b(2) r en by (intro sr) (auto simp: ll_step_def list_step_def en_rep_def reset_enumerator_def)
  next
    case Enum_Next
    show ?thesis using en
    proof (elim disjE exE conjE)
      fix c i
      assume "en = Some c" "pos = Some (i, en_at_current c)" "i \<le> length xs" "en_current c = ptr_at as i"
      then show ?thesis using sim_enum_next [OF r] Enum_Next by simp
    qed (use Enum_Next r in \<open>intro sr, auto simp: ll_step_def list_step_def\<close>)
  next
    case (Enum_Insert_Before v)
    show ?thesis using en
    proof (elim disjE exE conjE)
      fix c i
      assume "en = Some c" "pos = Some (i, en_at_current c)" "i \<le> length xs" "en_current c = ptr_at as i"
      then show ?thesis using sim_enum_insert [OF m r] Enum_Insert_Before by simp
    qed (use Enum_Insert_Before r in \<open>intro sr, auto simp: ll_step_def list_step_def\<close>)
  next
    case Enum_Remove_At
    show ?thesis using en
    proof (elim disjE exE conjE)
      fix c i
      assume "en = Some c" "pos = Some (i, en_at_current c)" "i \<le> length xs" "en_current c = ptr_at as i"
      then show ?thesis using sim_enum_remove [OF r] Enum_Remove_At by simp
    qed (use Enum_Remove_At r in \<open>intro sr, auto simp: ll_step_def list_step_def\<close>)
  qed
qed

lemma ll_run_sim: "fresh_malloc malloc \<Longrightarrow> ll_sim c a \<Longrightarrow> ll_run malloc opers c = Some (list_run opers a)"
proof (induction opers arbitrary: c a)
  case (Cons oper opers)
  obtain r c' a' where "ll_step malloc oper c = Some (r, c')" "list_step oper a = (r, a')" "ll_sim c' a'"
    using ll_step_sim [of malloc "fst c" "snd c" "fst a" "snd a" oper] Cons.prems by auto
  then show ?case using Cons.IH [OF Cons.prems(1)] by simp
qed simp



end
