(* ===== verification/Blocking_Queue.thy ===== *)
theory Blocking_Queue
  imports Linked_List
begin

text \<open>
  The queue of \<open>collections/blocking_queue.c\<close> on the linked list: items are inserted at the front and taken from the back.
  The interface of a FIFO queue is a locale that the packet processor and the event relay rely on.

  \<open>dequeue\<close> waits while the queue is empty.  Each round of its loop is a step \<open>try_dequeue\<close> under the mutex that either takes an
  item or has the thread wait for a signal (the inner \<open>None\<close>).
\<close>

record 'v blocking_queue =
  bq_list :: "'v linked_list"

definition blocking_queue_create :: "'v blocking_queue" where
  "blocking_queue_create = \<lparr>bq_list = linked_list_create\<rparr>"

definition enqueue :: "'v malloc \<Rightarrow> 'v blocking_queue \<Rightarrow> 'v \<Rightarrow> 'v blocking_queue option" where
  "enqueue malloc this item = do {
     l \<leftarrow> ll_insert_first malloc (bq_list this) item;
     Some (this\<lparr>bq_list := l\<rparr>)
   }"

definition try_dequeue :: "'v blocking_queue \<Rightarrow> ('v option \<times> 'v blocking_queue) option" where
  "try_dequeue this = do {
     (item, l) \<leftarrow> ll_remove_last (bq_list this);
     Some (item, this\<lparr>bq_list := l\<rparr>)
   }"

section \<open>Queues\<close>

datatype 'v queue_op = Enqueue 'v | Dequeue

text \<open>
  The steps of any number of threads on a queue, in the order they get the mutex: the items the dequeuing threads took, \<open>None\<close>
  for a step after which a thread waits.
\<close>

primrec queue_run :: "('q \<Rightarrow> 'v \<Rightarrow> 'q option) \<Rightarrow> ('q \<Rightarrow> ('v option \<times> 'q) option) \<Rightarrow> 'v queue_op list \<Rightarrow> 'q \<Rightarrow>
    ('v option list \<times> 'q) option" where
  "queue_run enq deq [] q = Some ([], q)"
| "queue_run enq deq (oper # opers) q = (case oper of
     Enqueue v \<Rightarrow> do { q \<leftarrow> enq q v; queue_run enq deq opers q }
   | Dequeue \<Rightarrow> do { (r, q) \<leftarrow> deq q; (rs, q) \<leftarrow> queue_run enq deq opers q; Some (r # rs, q) })"

definition enqueued :: "'v queue_op list \<Rightarrow> 'v list" where
  "enqueued opers = [v. Enqueue v \<leftarrow> opers]"

definition taken :: "'v option list \<Rightarrow> 'v list" where
  "taken rs = [v. Some v \<leftarrow> rs]"

primrec fifo_run :: "'v queue_op list \<Rightarrow> 'v list \<Rightarrow> 'v option list \<times> 'v list" where
  "fifo_run [] xs = ([], xs)"
| "fifo_run (oper # opers) xs = (case oper of
     Enqueue v \<Rightarrow> fifo_run opers (xs @ [v])
   | Dequeue \<Rightarrow> (case xs of
       [] \<Rightarrow> (let (rs, ys) = fifo_run opers [] in (None # rs, ys))
     | x # xs \<Rightarrow> (let (rs, ys) = fifo_run opers xs in (Some x # rs, ys))))"

lemma fifo_run_order: "fifo_run opers xs = (rs, ys) \<Longrightarrow> taken rs @ ys = xs @ enqueued opers"
proof (induction opers arbitrary: xs rs)
  case (Cons oper opers)
  show ?case
  proof (cases oper)
    case (Enqueue v)
    then show ?thesis using Cons by (simp add: enqueued_def)
  next
    case Dequeue
    then show ?thesis
      using Cons by (cases xs) (auto simp: taken_def enqueued_def Let_def split: prod.splits)
  qed
qed (simp add: taken_def enqueued_def)

locale fifo_queue =
  fixes create :: 'q and enq :: "'q \<Rightarrow> 'v \<Rightarrow> 'q option" and deq :: "'q \<Rightarrow> ('v option \<times> 'q) option"
    and holds :: "'q \<Rightarrow> 'v list \<Rightarrow> bool"
  assumes create_holds: "holds create []"
    and enq_holds: "holds q xs \<Longrightarrow> \<exists>q'. enq q v = Some q' \<and> holds q' (xs @ [v])"
    and deq_empty: "holds q [] \<Longrightarrow> \<exists>q'. deq q = Some (None, q') \<and> holds q' []"
    and deq_holds: "holds q (x # xs) \<Longrightarrow> \<exists>q'. deq q = Some (Some x, q') \<and> holds q' xs"
begin

lemma queue_run_fifo:
  "holds q xs \<Longrightarrow> \<exists>q'. queue_run enq deq opers q = Some (fst (fifo_run opers xs), q') \<and> holds q' (snd (fifo_run opers xs))"
proof (induction opers arbitrary: q xs)
  case (Cons oper opers)
  show ?case
  proof (cases oper)
    case (Enqueue v)
    then show ?thesis using enq_holds [OF Cons.prems, of v] Cons.IH by auto
  next
    case Dequeue
    show ?thesis
    proof (cases xs)
      case Nil
      then obtain q1 where "deq q = Some (None, q1)" "holds q1 []" using deq_empty Cons.prems by blast
      then show ?thesis using Cons.IH [of q1 "[]"] Nil Dequeue by (auto simp: split_beta Let_def)
    next
      case (Cons y ys)
      then obtain q1 where "deq q = Some (Some y, q1)" "holds q1 ys" using deq_holds Cons.prems by blast
      then show ?thesis using Cons.IH [of q1 ys] Cons Dequeue by (auto simp: split_beta Let_def)
    qed
  qed
qed simp

lemma fifo:
  obtains rs q rest where "queue_run enq deq opers create = Some (rs, q)" "rs = fst (fifo_run opers [])"
    "taken rs @ rest = enqueued opers"
  using queue_run_fifo [OF create_holds, of opers] fifo_run_order [of opers "[]"] by (cases "fifo_run opers []") auto

end

section \<open>The queue on the linked list\<close>

definition bq_holds :: "'v blocking_queue \<Rightarrow> 'v list \<Rightarrow> bool" where
  "bq_holds q xs \<longleftrightarrow> (\<exists>as. rep (bq_list q) as (rev xs))"

locale heap_allocator =
  fixes malloc :: "'v malloc"
  assumes fresh: "fresh_malloc malloc"

sublocale heap_allocator \<subseteq> bq: fifo_queue blocking_queue_create "enqueue malloc" try_dequeue bq_holds
proof
  show "bq_holds blocking_queue_create []"
    by (auto simp: bq_holds_def blocking_queue_create_def rep_def linked_list_create_def ptr_at_def ptr_before_def)
next
  fix q :: "'v blocking_queue" and xs v
  assume "bq_holds q xs"
  then obtain as where "rep (bq_list q) as (rev xs)" by (auto simp: bq_holds_def)
  then obtain l where "ll_insert_first malloc (bq_list q) v = Some l" "rep l (malloc (ll_heap (bq_list q)) # as) (v # rev xs)"
    by (rule rep_insert_first [OF fresh])
  then show "\<exists>q'. enqueue malloc q v = Some q' \<and> bq_holds q' (xs @ [v])" by (auto simp: enqueue_def bq_holds_def)
next
  fix q :: "'v blocking_queue"
  assume h: "bq_holds q []"
  then obtain as where "rep (bq_list q) as []" by (auto simp: bq_holds_def)
  then have "try_dequeue q = Some (None, q)" using rep_ends(2) [of "bq_list q" as "[]"] by (simp add: try_dequeue_def ll_remove_last_def)
  with h show "\<exists>q'. try_dequeue q = Some (None, q') \<and> bq_holds q' []" by blast
next
  fix q :: "'v blocking_queue" and x xs
  assume "bq_holds q (x # xs)"
  then obtain as where "rep (bq_list q) as (rev (x # xs))" by (auto simp: bq_holds_def)
  then obtain l as' where "ll_remove_last (bq_list q) = Some (Some (last (rev (x # xs))), l)" "rep l as' (butlast (rev (x # xs)))"
    by (rule rep_remove_last) simp
  then show "\<exists>q'. try_dequeue q = Some (Some x, q') \<and> bq_holds q' xs" by (auto simp: try_dequeue_def bq_holds_def)
qed

context heap_allocator
begin

lemma queue_fifo: "\<exists>q rest. queue_run (enqueue malloc) try_dequeue opers blocking_queue_create = Some (fst (fifo_run opers []), q) \<and>
    taken (fst (fifo_run opers [])) @ rest = enqueued opers"
  using bq.fifo [of opers] by metis

end

text \<open>An allocator: the first address that is free.\<close>

definition first_free :: "'v malloc" where
  "first_free h = (LEAST a. h a = None)"

interpretation first_free: heap_allocator first_free
proof
  have "h (LEAST a. h a = None) = None" if "finite (dom h)" for h :: "nat \<rightharpoonup> 'a element"
    by (rule LeastI_ex) (use ex_new_if_finite [OF infinite_UNIV_nat that] in \<open>auto simp: dom_def\<close>)
  then show "fresh_malloc (first_free :: 'a malloc)" by (simp add: fresh_malloc_def first_free_def)
qed



end
