(* ===== verification/Event_Relay.thy ===== *)
theory Event_Relay
  imports Ipsec_Sa Blocking_Queue
begin

text \<open>
  The relay of events (\<open>libipsec/ipsec_event_relay.c\<close>): the SAs and the processor put events on a queue, and a job takes them off and calls the
  registered listeners.  Listeners are identified by their address; their two callbacks may be missing.
\<close>

record ipsec_event_listener =
  l_expire :: "nat option"
  l_acquire :: "nat option"

record ipsec_event_relay =
  listeners :: "(nat \<times> ipsec_event_listener) list"
  event_queue :: "ipsec_event blocking_queue"

text \<open>How a run of a job ends: \<open>Fault\<close> stands for an invalid memory access or a loop without end, \<open>Blocks\<close> for a thread that waits.\<close>

datatype 'x run = Done 'x | Blocks | Fault

datatype listener_call = Expire_Callback nat byte u32 host bool | Acquire_Callback nat u32

definition ipsec_event_relay_create :: ipsec_event_relay where
  "ipsec_event_relay_create = \<lparr>listeners = [], event_queue = blocking_queue_create\<rparr>"

definition relay_expire :: "ipsec_event malloc \<Rightarrow> ipsec_event_relay \<Rightarrow> byte \<Rightarrow> u32 \<Rightarrow> host \<Rightarrow> bool \<Rightarrow> ipsec_event_relay option" where
  "relay_expire malloc this protocol spi d hard =
     map_option (\<lambda>q. this\<lparr>event_queue := q\<rparr>) (enqueue malloc (event_queue this) (IPSEC_EVENT_EXPIRE protocol spi d hard))"

definition relay_acquire :: "ipsec_event malloc \<Rightarrow> ipsec_event_relay \<Rightarrow> u32 \<Rightarrow> ipsec_event_relay option" where
  "relay_acquire malloc this reqid = map_option (\<lambda>q. this\<lparr>event_queue := q\<rparr>) (enqueue malloc (event_queue this) (IPSEC_EVENT_ACQUIRE reqid))"

definition register_listener :: "ipsec_event_relay \<Rightarrow> nat \<Rightarrow> ipsec_event_listener \<Rightarrow> ipsec_event_relay" where
  "register_listener this p listener = this\<lparr>listeners := listeners this @ [(p, listener)]\<rparr>"

definition unregister_listener :: "ipsec_event_relay \<Rightarrow> nat \<Rightarrow> ipsec_event_relay" where
  "unregister_listener this p = this\<lparr>listeners := filter (\<lambda>(q, _). q \<noteq> p) (listeners this)\<rparr>"

definition call_listener :: "ipsec_event \<Rightarrow> ipsec_event_listener \<Rightarrow> listener_call list" where
  "call_listener event current = (case event of
     IPSEC_EVENT_EXPIRE protocol spi d hard \<Rightarrow> (case l_expire current of Some cb \<Rightarrow> [Expire_Callback cb protocol spi d hard] | None \<Rightarrow> [])
   | IPSEC_EVENT_ACQUIRE reqid \<Rightarrow> (case l_acquire current of Some cb \<Rightarrow> [Acquire_Callback cb reqid] | None \<Rightarrow> []))"

definition handle_events :: "ipsec_event_relay \<Rightarrow> (ipsec_event_relay \<times> listener_call list) run" where
  "handle_events this =
     (case try_dequeue (event_queue this) of
        None \<Rightarrow> Fault
      | Some (None, q) \<Rightarrow> Blocks
      | Some (Some event, q) \<Rightarrow> Done (this\<lparr>event_queue := q\<rparr>, concat (map (\<lambda>(_, current). call_listener event current) (listeners this))))"

text \<open>
  A queued event reaches every listener, in the order they registered, once all events queued before it have been handled.
\<close>

lemma handle_events_in_order:
  assumes "bq_holds (event_queue this) (event # events)"
  shows "\<exists>this'. handle_events this = Done (this', concat (map (\<lambda>(_, current). call_listener event current) (listeners this))) \<and>
    listeners this' = listeners this \<and> bq_holds (event_queue this') events"
  using first_free.bq.deq_holds [OF assms] by (auto simp: handle_events_def)

end
