(* ===== verification/Ipsec_Processor.thy ===== *)
theory Ipsec_Processor
  imports Ipsec_Policy Sa_Threads Event_Relay
begin

text \<open>
  The packet processor (\<open>libipsec/ipsec_processor.c\<close>), which moves packets between its two queues and the registered callbacks through
  the SA and policy managers, and the state of the library (\<open>libipsec/ipsec.c\<close>) it works on.

  Each run of a job is a function: it ends (\<open>Done\<close>) with a new state and the actions it takes, it waits for a packet or an SA
  (\<open>Blocks\<close>; theory \<open>Sa_Threads\<close> shows what becomes of threads that wait), or it would not go on because of an invalid memory access
  or a loop without end (\<open>Fault\<close>).  Callbacks are identified by their address and called with the registered data pointer.  Events that are raised are actions, the calls
  of \<open>expire\<close> and \<open>acquire\<close> of the relay (theory \<open>Event_Relay\<close>).
\<close>

section \<open>State\<close>

record ipsec_processor =
  inbound_queue :: "esp_packet blocking_queue"
  outbound_queue :: "ip_packet blocking_queue"
  inbound_cb :: "nat option"
  inbound_data :: nat
  outbound_cb :: "nat option"
  outbound_data :: nat

record ('a, 'r) ipsec =
  ipsec_sas :: "('a, 'r) sa_mgr"
  ipsec_policies :: ipsec_policy_mgr
  ipsec_events :: ipsec_event_relay
  processor :: ipsec_processor

datatype action =
    Inbound_Callback nat nat "ip_packet option"
  | Outbound_Callback nat nat esp_packet bool
  | Manager effect

definition ipsec_processor_create :: ipsec_processor where
  "ipsec_processor_create = \<lparr>inbound_queue = blocking_queue_create, outbound_queue = blocking_queue_create,
     inbound_cb = None, inbound_data = 0, outbound_cb = None, outbound_data = 0\<rparr>"

text \<open>The integrity check of the library, if there is one, decides whether it is initialized.\<close>

definition libipsec_init :: "bool option \<Rightarrow> ('a, 'r) ipsec option" where
  "libipsec_init integrity = (if integrity = Some False then None
     else Some \<lparr>ipsec_sas = ipsec_sa_mgr_create, ipsec_policies = ipsec_policy_mgr_create,
       ipsec_events = ipsec_event_relay_create, processor = ipsec_processor_create\<rparr>)"

definition register_inbound :: "ipsec_processor \<Rightarrow> nat \<Rightarrow> nat \<Rightarrow> ipsec_processor" where
  "register_inbound this cb data = this\<lparr>inbound_cb := Some cb, inbound_data := data\<rparr>"

definition unregister_inbound :: "ipsec_processor \<Rightarrow> nat \<Rightarrow> ipsec_processor" where
  "unregister_inbound this cb = (if inbound_cb this = Some cb then this\<lparr>inbound_cb := None\<rparr> else this)"

definition register_outbound :: "ipsec_processor \<Rightarrow> nat \<Rightarrow> nat \<Rightarrow> ipsec_processor" where
  "register_outbound this cb data = this\<lparr>outbound_cb := Some cb, outbound_data := data\<rparr>"

definition unregister_outbound :: "ipsec_processor \<Rightarrow> nat \<Rightarrow> ipsec_processor" where
  "unregister_outbound this cb = (if outbound_cb this = Some cb then this\<lparr>outbound_cb := None\<rparr> else this)"

definition queue_inbound :: "esp_packet malloc \<Rightarrow> ipsec_processor \<Rightarrow> esp_packet \<Rightarrow> ipsec_processor option" where
  "queue_inbound malloc this pkt = map_option (\<lambda>q. this\<lparr>inbound_queue := q\<rparr>) (enqueue malloc (inbound_queue this) pkt)"

definition queue_outbound :: "ip_packet malloc \<Rightarrow> ipsec_processor \<Rightarrow> ip_packet \<Rightarrow> ipsec_processor option" where
  "queue_outbound malloc this pkt = map_option (\<lambda>q. this\<lparr>outbound_queue := q\<rparr>) (enqueue malloc (outbound_queue this) pkt)"

section \<open>Inbound packets\<close>

definition deliver_inbound :: "ipsec_processor \<Rightarrow> esp_packet \<Rightarrow> action list" where
  "deliver_inbound this pkt = (case inbound_cb this of
     Some cb \<Rightarrow> [Inbound_Callback cb (inbound_data this) (fst (extract_payload pkt))] | None \<Rightarrow> [])"

text \<open>The switch over the next header.\<close>

definition inbound_policy :: "('a, 'r) ipsec \<Rightarrow> esp_packet \<Rightarrow> ip_packet \<Rightarrow> u32 \<Rightarrow> action list" where
  "inbound_policy ips pkt ip reqid =
     (let nh = esp_get_next_header pkt
      in if nh = IPPROTO_IPIP \<or> nh = IPPROTO_IPV6
         then (case find_by_packet (ipsec_policies ips) ip True reqid of Some policy \<Rightarrow> deliver_inbound (processor ips) pkt | None \<Rightarrow> [])
         else [])"

definition set_sa :: "nat \<Rightarrow> 'a ipsec_sa \<Rightarrow> ('a, 'r) sa_mgr \<Rightarrow> ('a, 'r) sa_mgr" where
  "set_sa p sa = upd_entry p (\<lambda>e. e\<lparr>e_sa := sa\<rparr>)"

text \<open>The end of a run that has checked out an SA.\<close>

definition checked_in :: "('a, 'r) ipsec \<Rightarrow> ('a, 'r) sa_mgr \<Rightarrow> nat \<Rightarrow> action list \<Rightarrow> action list \<Rightarrow> (('a, 'r) ipsec \<times> action list) run" where
  "checked_in ips m p before later = (let (m, es) = checkin m p in Done (ips\<lparr>ipsec_sas := m\<rparr>, before @ map Manager es @ later))"

definition inbound_sa :: "'a aead_ops \<Rightarrow> int \<Rightarrow> ('a, 'r) ipsec \<Rightarrow> esp_packet \<Rightarrow> ('a, 'r) sa_mgr \<Rightarrow> nat \<Rightarrow> (('a, 'r) ipsec \<times> action list) run" where
  "inbound_sa ops now ips pkt m p =
     (case get_entry m p of None \<Rightarrow> Fault | Some entry \<Rightarrow>
      let sa = e_sa entry in
      if \<not> is_inbound sa then checked_in ips m p [] []
      else let (st, pkt, ctx) = esp_decrypt ops pkt (get_esp_context sa);
               sa = sa\<lparr>sa_context := ctx\<rparr>
           in if st \<noteq> SUCCESS then checked_in ips (set_sa p sa m) p [] []
              else (case esp_get_payload pkt of None \<Rightarrow> Fault | Some ip \<Rightarrow>
                let (sa, evs) = update_usestats now sa (of_nat (length (get_encoding ip)))
                in checked_in ips (set_sa p sa m) p (map (\<lambda>e. Manager (Raise e)) evs) (inbound_policy ips pkt ip (sa_get_reqid sa))))"

text \<open>A packet without destination would be compared through a null pointer with an SA of its SPI.\<close>

definition inbound_packet :: "'a aead_ops \<Rightarrow> int \<Rightarrow> ('a, 'r) ipsec \<Rightarrow> esp_packet \<Rightarrow> (('a, 'r) ipsec \<times> action list) run" where
  "inbound_packet ops now ips pkt =
     (case parse_header pkt of None \<Rightarrow> Done (ips, []) | Some spi \<Rightarrow>
     (case esp_get_destination pkt of
        None \<Rightarrow> if find (\<lambda>e. sa_get_spi (e_sa e) = spi) (sas (ipsec_sas ips)) \<noteq> None then Fault else Done (ips, [])
      | Some d \<Rightarrow> (case checkout_by_spi (ipsec_sas ips) spi d of
          (Returned None, m, es) \<Rightarrow> Done (ips\<lparr>ipsec_sas := m\<rparr>, map Manager es)
        | (Returned (Some p), m, es) \<Rightarrow> inbound_sa ops now ips pkt m p
        | _ \<Rightarrow> Blocks)))"

definition process_inbound :: "'a aead_ops \<Rightarrow> int \<Rightarrow> ('a, 'r) ipsec \<Rightarrow> (('a, 'r) ipsec \<times> action list) run" where
  "process_inbound ops now ips =
     (case try_dequeue (inbound_queue (processor ips)) of
        None \<Rightarrow> Fault
      | Some (None, q) \<Rightarrow> Blocks
      | Some (Some pkt, q) \<Rightarrow> inbound_packet ops now (ips\<lparr>processor := (processor ips)\<lparr>inbound_queue := q\<rparr>\<rparr>) pkt)"

section \<open>Outbound packets\<close>

definition send_outbound :: "ipsec_processor \<Rightarrow> esp_packet \<Rightarrow> bool \<Rightarrow> action list" where
  "send_outbound this pkt encap = (case outbound_cb this of
     Some cb \<Rightarrow> [Outbound_Callback cb (outbound_data this) pkt encap] | None \<Rightarrow> [])"

definition outbound_sa :: "(nat \<Rightarrow> byte) \<Rightarrow> 'a aead_ops \<Rightarrow> int \<Rightarrow> ('a, 'r) ipsec \<Rightarrow> ip_packet \<Rightarrow> ('a, 'r) sa_mgr \<Rightarrow> nat \<Rightarrow>
    (('a, 'r) ipsec \<times> action list) run" where
  "outbound_sa mem ops now ips pkt m p =
     (case get_entry m p of None \<Rightarrow> Fault | Some entry \<Rightarrow>
      let sa = e_sa entry;
          esp = esp_packet_create_from_payload (Some (sa_get_source sa)) (Some (sa_get_destination sa)) (Some pkt)
      in case esp_encrypt mem ops esp (get_esp_context sa) (sa_get_spi sa) of None \<Rightarrow> Fault | Some (st, esp, ctx) \<Rightarrow>
      let sa = sa\<lparr>sa_context := ctx\<rparr>
      in if st \<noteq> SUCCESS then checked_in ips (set_sa p sa m) p [] []
         else let (sa, evs) = update_usestats now sa (of_nat (length (get_encoding pkt)));
                  encap = sa_get_encap sa
              in checked_in ips (set_sa p sa m) p (map (\<lambda>e. Manager (Raise e)) evs) (send_outbound (processor ips) esp encap))"

definition outbound_packet :: "(nat \<Rightarrow> byte) \<Rightarrow> 'a aead_ops \<Rightarrow> int \<Rightarrow> ('a, 'r) ipsec \<Rightarrow> ip_packet \<Rightarrow> (('a, 'r) ipsec \<times> action list) run" where
  "outbound_packet mem ops now ips pkt =
     (case find_by_packet (ipsec_policies ips) pkt False 0 of None \<Rightarrow> Done (ips, []) | Some policy \<Rightarrow>
     (case checkout_by_reqid now (ipsec_sas ips) (pol_get_reqid policy) False True of
        (Returned (None, acquire), m, es) \<Rightarrow>
          Done (ips\<lparr>ipsec_sas := m\<rparr>, map Manager es @
            (if acquire = Some True then [Manager (Raise (IPSEC_EVENT_ACQUIRE (pol_get_reqid policy)))] else []))
      | (Returned (Some p, _), m, es) \<Rightarrow> outbound_sa mem ops now ips pkt m p
      | _ \<Rightarrow> Blocks))"

definition process_outbound :: "(nat \<Rightarrow> byte) \<Rightarrow> 'a aead_ops \<Rightarrow> int \<Rightarrow> ('a, 'r) ipsec \<Rightarrow> (('a, 'r) ipsec \<times> action list) run" where
  "process_outbound mem ops now ips =
     (case try_dequeue (outbound_queue (processor ips)) of
        None \<Rightarrow> Fault
      | Some (None, q) \<Rightarrow> Blocks
      | Some (Some pkt, q) \<Rightarrow> outbound_packet mem ops now (ips\<lparr>processor := (processor ips)\<lparr>outbound_queue := q\<rparr>\<rparr>) pkt)"

section \<open>Checked-out SAs\<close>

lemma upd_entry_upd_entry:
  assumes "\<And>e. e_ptr (g e) = e_ptr e"
  shows "upd_entry p f (upd_entry p g m) = upd_entry p (\<lambda>e. f (g e)) m"
  by (simp add: upd_entry_def comp_def assms cong: if_cong)

lemma upd_entry_cong: "(\<And>e. e \<in> set (sas m) \<Longrightarrow> e_ptr e = p \<Longrightarrow> f e = g e) \<Longrightarrow> upd_entry p f m = upd_entry p g m"
  by (simp add: upd_entry_def cong: if_cong)

lemma get_entry_upd_entry:
  assumes "\<And>e. e_ptr (f e) = e_ptr e"
  shows "get_entry (upd_entry p f m) p = map_option f (get_entry m p)"
proof -
  have "find (\<lambda>e. e_ptr e = p) (map (\<lambda>e. if e_ptr e = p then f e else e) es) = map_option f (find (\<lambda>e. e_ptr e = p) es)" for es
    by (induction es) (auto simp: assms)
  then show ?thesis by (simp add: get_entry_def upd_entry_def)
qed

text \<open>An entry that a thread can check out.\<close>

definition available :: "('a, 'r) sa_mgr \<Rightarrow> 'a sa_entry \<Rightarrow> bool" where
  "available m e \<longleftrightarrow> distinct (map e_ptr (sas m)) \<and> e \<in> set (sas m) \<and> \<not> locked e \<and> \<not> awaits_deletion e"

definition lock :: "nat \<Rightarrow> ('a, 'r) sa_mgr \<Rightarrow> ('a, 'r) sa_mgr" where
  "lock p = upd_entry p (\<lambda>e. e\<lparr>locked := True\<rparr>)"

lemma unique_entry: "distinct (map e_ptr (sas m)) \<Longrightarrow> e \<in> set (sas m) \<Longrightarrow> e' \<in> set (sas m) \<Longrightarrow> e_ptr e' = e_ptr e \<Longrightarrow> e' = e"
  by (metis distinct_map inj_onD)

lemma get_entry_unique: "distinct (map e_ptr (sas m)) \<Longrightarrow> e \<in> set (sas m) \<Longrightarrow> get_entry m (e_ptr e) = Some e"
proof -
  assume a: "distinct (map e_ptr (sas m))" "e \<in> set (sas m)"
  then have "get_entry m (e_ptr e) \<noteq> None" by (auto simp: get_entry_def find_None_iff)
  then obtain e' where "get_entry m (e_ptr e) = Some e'" by blast
  then show ?thesis using get_entry_mem [of m "e_ptr e" e'] unique_entry [OF a] by simp
qed

lemma get_entry_lock: "available m e \<Longrightarrow> get_entry (lock (e_ptr e) m) (e_ptr e) = Some (e\<lparr>locked := True\<rparr>)"
  by (simp add: lock_def get_entry_upd_entry available_def get_entry_unique)

lemma checkin_lock:
  assumes "available m e"
  shows "checkin (lock (e_ptr e) m) (e_ptr e) = (m, [Signal (e_ptr e)])"
    "checkin (set_sa (e_ptr e) sa (lock (e_ptr e) m)) (e_ptr e) = (set_sa (e_ptr e) sa m, [Signal (e_ptr e)])"
proof -
  let ?p = "e_ptr e"
  have u: "\<not> locked e'" if "e' \<in> set (sas m)" "e_ptr e' = ?p" for e'
    using unique_entry [of m e e'] that assms by (auto simp: available_def)
  have "release ?p (lock ?p m) = upd_entry ?p (\<lambda>e. e) m"
    unfolding release_def lock_def by (subst upd_entry_upd_entry, simp) (rule upd_entry_cong, use u in simp)
  moreover have "upd_entry ?p (\<lambda>e. e) m = m" by (simp add: upd_entry_def)
  ultimately show "checkin (lock ?p m) ?p = (m, [Signal ?p])" by (simp add: checkin_def get_entry_lock [OF assms])
  have "release ?p (set_sa ?p sa (lock ?p m)) = set_sa ?p sa m"
    unfolding release_def lock_def set_sa_def
    by (subst upd_entry_upd_entry, simp, subst upd_entry_upd_entry, simp) (rule upd_entry_cong, use u in simp)
  moreover have "get_entry (set_sa ?p sa (lock ?p m)) ?p = Some (e\<lparr>locked := True, e_sa := sa\<rparr>)"
    by (simp add: set_sa_def get_entry_upd_entry get_entry_lock [OF assms])
  ultimately show "checkin (set_sa ?p sa (lock ?p m)) ?p = (set_sa ?p sa m, [Signal ?p])" by (simp add: checkin_def)
qed

lemma wait_for_entry_available:
  "available m e \<Longrightarrow> wait_for_entry m e = (Returned True, lock (e_ptr e) m, [])"
  by (simp add: wait_for_entry_def available_def lock_def)

text \<open>What a run does with an available SA: the lock is as before, and only the SA has changed.\<close>

definition raised :: "ipsec_event list \<Rightarrow> nat \<Rightarrow> action list" where
  "raised evs p = map (\<lambda>e. Manager (Raise e)) evs @ [Manager (Signal p)]"

lemma inbound_sa_available:
  assumes "available m e"
  shows "inbound_sa ops now ips pkt (lock (e_ptr e) m) (e_ptr e) =
    (if \<not> sa_inbound (e_sa e) then Done (ips\<lparr>ipsec_sas := m\<rparr>, raised [] (e_ptr e))
     else case esp_decrypt ops pkt (sa_context (e_sa e)) of (st, pkt, ctx) \<Rightarrow>
       if st \<noteq> SUCCESS then Done (ips\<lparr>ipsec_sas := set_sa (e_ptr e) ((e_sa e)\<lparr>sa_context := ctx\<rparr>) m\<rparr>, raised [] (e_ptr e))
       else case esp_payload pkt of None \<Rightarrow> Fault | Some ip \<Rightarrow>
         case update_usestats now ((e_sa e)\<lparr>sa_context := ctx\<rparr>) (of_nat (length (get_encoding ip))) of (sa, evs) \<Rightarrow>
           Done (ips\<lparr>ipsec_sas := set_sa (e_ptr e) sa m\<rparr>, raised evs (e_ptr e) @ inbound_policy ips pkt ip (sa_reqid sa)))"
  unfolding inbound_sa_def get_entry_lock [OF assms]
  by (simp add: checked_in_def checkin_lock [OF assms] sa_defs raised_def esp_get_payload_def Let_def split_beta split: option.splits)

lemma outbound_sa_available:
  assumes "available m e"
  shows "outbound_sa mem ops now ips ip (lock (e_ptr e) m) (e_ptr e) =
    (case esp_encrypt mem ops (esp_packet_create_from_payload (Some (sa_src (e_sa e))) (Some (sa_dst (e_sa e))) (Some ip)) (sa_context (e_sa e)) (sa_spi (e_sa e)) of
       None \<Rightarrow> Fault | Some (st, esp, ctx) \<Rightarrow>
       if st \<noteq> SUCCESS then Done (ips\<lparr>ipsec_sas := set_sa (e_ptr e) ((e_sa e)\<lparr>sa_context := ctx\<rparr>) m\<rparr>, raised [] (e_ptr e))
       else case update_usestats now ((e_sa e)\<lparr>sa_context := ctx\<rparr>) (of_nat (length (get_encoding ip))) of (sa, evs) \<Rightarrow>
         Done (ips\<lparr>ipsec_sas := set_sa (e_ptr e) sa m\<rparr>, raised evs (e_ptr e) @ send_outbound (processor ips) esp (sa_encap sa)))"
  unfolding outbound_sa_def get_entry_lock [OF assms]
  by (simp add: checked_in_def checkin_lock [OF assms] sa_defs raised_def Let_def split_beta split: option.splits)

lemma checkout_by_spi_cases:
  assumes "distinct (map e_ptr (sas m))"
  obtains (none) "\<And>p m' es. checkout_by_spi m spi d \<noteq> (Returned (Some p), m', es)"
    | (entry) e where "available m e" "match_by_spi_dst (e_sa e) spi d" "checkout_by_spi m spi d = (Returned (Some (e_ptr e)), lock (e_ptr e) m, [])"
proof (cases "find (\<lambda>e. match_by_spi_dst (e_sa e) spi d) (sas m)")
  case None
  then show ?thesis using none by (simp add: checkout_by_spi_def)
next
  case (Some e)
  then have e: "e \<in> set (sas m)" "match_by_spi_dst (e_sa e) spi d" by (auto simp: find_Some_iff)
  show ?thesis
  proof (cases "locked e \<or> awaits_deletion e")
    case True
    then show ?thesis using none Some by (auto simp: checkout_by_spi_def wait_for_entry_def and_then_def checkout_by_spi_body_def)
  next
    case False
    then have a: "available m e" using assms e(1) by (simp add: available_def)
    show ?thesis
      by (rule entry [OF a e(2)]) (simp add: checkout_by_spi_def Some wait_for_entry_available [OF a] and_then_def checkout_by_spi_body_def)
  qed
qed

lemma set_sa_locks: "e \<in> set (sas m) \<Longrightarrow> distinct (map e_ptr (sas m)) \<Longrightarrow> locks (sas (set_sa (e_ptr e) sa m)) = locks (sas m)"
  using upd_entry_locks [of "\<lambda>e. e\<lparr>e_sa := sa\<rparr>" id m "e_ptr e" "view e"] locks_entry [of "sas m" e]
  by (simp add: set_sa_def view_def set_locks_def fun_upd_idem)

lemma inbound_policy_callback:
  assumes "Inbound_Callback cb data pl \<in> set (inbound_policy ips pkt ip reqid)" "esp_payload pkt = Some ip"
  shows "\<exists>policy. find_by_packet (ipsec_policies ips) ip True reqid = Some policy \<and> inbound_cb (processor ips) = Some cb \<and>
    data = inbound_data (processor ips) \<and> pl = Some ip \<and> inbound_policy ips pkt ip reqid = [Inbound_Callback cb data pl]"
proof (cases "esp_get_next_header pkt = IPPROTO_IPIP \<or> esp_get_next_header pkt = IPPROTO_IPV6")
  case True
  then have i: "inbound_policy ips pkt ip reqid =
      (case find_by_packet (ipsec_policies ips) ip True reqid of Some policy \<Rightarrow> deliver_inbound (processor ips) pkt | None \<Rightarrow> [])"
    by (simp only: inbound_policy_def Let_def if_True)
  then show ?thesis using assms
    by (cases "find_by_packet (ipsec_policies ips) ip True reqid"; cases "inbound_cb (processor ips)")
      (simp_all add: deliver_inbound_def extract_payload_def)
next
  case False
  then show ?thesis using assms(1) by (simp only: inbound_policy_def Let_def if_False) simp
qed

lemma inbound_packet_delivers:
  assumes "distinct (map e_ptr (sas (ipsec_sas ips)))" "inbound_packet ops now ips pkt = Done (ips', acts)" "Inbound_Callback cb data pl \<in> set acts"
  obtains e spi d ip policy pkt' ctx' evs where "available (ipsec_sas ips) e" "parse_header pkt = Some spi" "esp_get_destination pkt = Some d"
    "match_by_spi_dst (e_sa e) spi d" "sa_inbound (e_sa e)" "esp_decrypt ops pkt (sa_context (e_sa e)) = (SUCCESS, pkt', ctx')"
    "esp_payload pkt' = Some ip" "find_by_packet (ipsec_policies ips) ip True (sa_reqid (e_sa e)) = Some policy"
    "inbound_cb (processor ips) = Some cb" "data = inbound_data (processor ips)" "pl = Some ip"
    "acts = raised evs (e_ptr e) @ [Inbound_Callback cb data pl]" "locks (sas (ipsec_sas ips')) = locks (sas (ipsec_sas ips))"
proof -
  have nr: "Inbound_Callback cb data pl \<notin> set (raised evs p)" for evs p by (auto simp: raised_def)
  obtain spi d where h: "parse_header pkt = Some spi" "esp_get_destination pkt = Some d"
    using assms(2,3) by (auto simp: inbound_packet_def split: option.splits if_splits)
  obtain e where e: "available (ipsec_sas ips) e" "match_by_spi_dst (e_sa e) spi d"
      "inbound_sa ops now ips pkt (lock (e_ptr e) (ipsec_sas ips)) (e_ptr e) = Done (ips', acts)"
    using assms(1)
  proof (cases rule: checkout_by_spi_cases [where spi = spi and d = d])
    case none
    then show ?thesis using assms(2,3) h by (auto simp: inbound_packet_def split: prod.splits outcome.splits option.splits)
  next
    case (entry e)
    then show ?thesis using that [of e] assms(2) h by (simp add: inbound_packet_def)
  qed
  obtain st pkt' ctx where x: "esp_decrypt ops pkt (sa_context (e_sa e)) = (st, pkt', ctx)" by (cases "esp_decrypt ops pkt (sa_context (e_sa e))")
  define sa0 where "sa0 = (e_sa e)\<lparr>sa_context := ctx\<rparr>"
  have si: "sa_inbound (e_sa e)" "st = SUCCESS"
    using e(3) x assms(3) nr unfolding inbound_sa_available [OF e(1)] by (auto split: if_splits)
  then obtain ip where ip: "esp_payload pkt' = Some ip" using e(3) x unfolding inbound_sa_available [OF e(1)] by (cases "esp_payload pkt'") simp_all
  obtain sa evs where u: "update_usestats now sa0 (of_nat (length (get_encoding ip))) = (sa, evs)"
    by (cases "update_usestats now sa0 (of_nat (length (get_encoding ip)))")
  have r: "ips' = ips\<lparr>ipsec_sas := set_sa (e_ptr e) sa (ipsec_sas ips)\<rparr>" "acts = raised evs (e_ptr e) @ inbound_policy ips pkt' ip (sa_reqid sa)"
    using e(3) x si ip u unfolding inbound_sa_available [OF e(1)] sa0_def by simp_all
  have q: "sa_reqid sa = sa_reqid (e_sa e)" using arg_cong [OF u, of "\<lambda>r. sa_reqid (fst r)"] by (simp add: sa0_def)
  have "Inbound_Callback cb data pl \<in> set (inbound_policy ips pkt' ip (sa_reqid sa))" using assms(3) r(2) nr by auto
  from inbound_policy_callback [OF this ip, unfolded q] obtain policy where p:
      "find_by_packet (ipsec_policies ips) ip True (sa_reqid (e_sa e)) = Some policy" "inbound_cb (processor ips) = Some cb"
      "data = inbound_data (processor ips)" "pl = Some ip" "inbound_policy ips pkt' ip (sa_reqid sa) = [Inbound_Callback cb data pl]"
    using q by metis
  have l: "locks (sas (ipsec_sas ips')) = locks (sas (ipsec_sas ips))" using set_sa_locks [of e "ipsec_sas ips" sa] e(1) r(1) by (simp add: available_def)
  show ?thesis by (rule that [OF e(1) h e(2) si(1) x [unfolded si(2)] ip p(1-4) r(2) [unfolded p(5)] l])
qed


section \<open>From one end to the other\<close>

context aead_spec
begin

lemma esp_decrypt_genuine:
  assumes "keyed (aead c) k" "well_formed ip" "esp_genuine (enc k) bs ivs spi seq ip (esp_get_data p)" "verify_seqno c seq"
  shows "parse_header p = Some spi"
    "\<exists>c'. esp_decrypt ops p c = (SUCCESS, p\<lparr>esp_payload := Some ip, esp_next_header := payload_header ip\<rparr>, c')"
proof -
  let ?pt = "esp_plaintext bs ivs (get_encoding ip) (payload_header ip)"
  have ip: "ip_packet_create (get_encoding ip) = Some ip" using assms(2) by (simp add: well_formed_def)
  obtain iv where iv: "length iv = ivs" "esp_get_data p = htoun32 (ntohl spi) @ htoun32 seq @ iv @ enc k ?pt (htoun32 (ntohl spi) @ htoun32 seq) iv"
    using assms(3) by (auto simp: esp_genuine_def esp_header_def)
  show "parse_header p = Some spi" unfolding parse_header_def iv(2) by (simp add: bio_reader_create_def)
  have "length (esp_get_data p) = 8 + ivs + length ?pt + icvs" unfolding iv(2) using iv(1) length_enc by simp
  then have "length (esp_get_data p) < 2 ^ 18"
    using small(1,2) length_ip_packet_create [OF ip] esp_padding_bounds [OF bs_bounds(1), of ivs "length (get_encoding ip)"] bs_bounds(2)
    by (simp add: length_esp_plaintext)
  then have "length (esp_get_data p) < maxlen" using small(3) by linarith
  from esp_decrypt_authentic [OF assms(1) this iv(1) esp_plaintext_aligned(1) [OF bs_bounds(1) align] iv(2)]
  show "\<exists>c'. esp_decrypt ops p c = (SUCCESS, p\<lparr>esp_payload := Some ip, esp_next_header := payload_header ip\<rparr>, c')"
    using remove_padding_plaintext [OF bs_bounds ip, of "p\<lparr>esp_payload := None\<rparr>" ivs "payload_header ip"] assms(4) by fastforce
qed

lemma esp_encrypt_genuine:
  assumes "keyed (aead c) k" "can_iv (aead c) n" "next_seqno c = Some (seq, c1)" "n < unat seq" "well_formed ip"
  shows "\<exists>p c'. esp_encrypt mem ops (esp_packet_create_from_payload s d (Some ip)) c spi = Some (SUCCESS, p, c') \<and>
    esp_get_source p = s \<and> esp_get_destination p = d \<and> esp_genuine (enc k) bs ivs spi seq ip (esp_get_data p)"
proof -
  let ?p = "esp_packet_create_from_payload s d (Some ip)"
  have p: "encoded_payload ?p = get_encoding ip" "esp_next_header ?p = payload_header ip" "pk_source (esp_pkt ?p) = s" "pk_destination (esp_pkt ?p) = d"
    by (simp_all add: encoded_payload_def esp_packet_create_from_payload_def esp_packet_create_internal_def payload_header_def packet_create_from_data_def Let_def)
  have "length (get_encoding ip) \<le> 65575" using length_ip_packet_create assms(5) unfolding well_formed_def by blast
  then have "length (encoded_payload ?p) + 133 < maxlen" using small(3) p(1) by simp
  from esp_encrypt_ok [OF assms(1-4) this, of mem spi] obtain iv a where e: "length iv = ivs"
    "esp_encrypt mem ops ?p c spi = Some (SUCCESS, esp_set_data (esp_set_data ?p []) (esp_header spi seq @ iv @
       enc k (esp_plaintext bs ivs (get_encoding ip) (payload_header ip)) (esp_header spi seq) iv), c1\<lparr>aead := a\<rparr>)"
    unfolding p by blast
  then show ?thesis using p(3,4)
    by (auto simp: esp_genuine_def esp_get_data_def esp_set_data_def esp_get_source_def esp_get_destination_def pkt_defs)
qed

end

text \<open>A packet for which the outbound end has a policy and an available SA, and for which the inbound end has.\<close>

definition can_send :: "('a, 'r) ipsec \<Rightarrow> ip_packet \<Rightarrow> 'a sa_entry \<Rightarrow> bool" where
  "can_send ips ip e \<longleftrightarrow> available (ipsec_sas ips) e \<and> outbound_cb (processor ips) \<noteq> None \<and>
     (case find_by_packet (ipsec_policies ips) ip False 0 of None \<Rightarrow> False
      | Some policy \<Rightarrow> find (\<lambda>e. match_by_reqid (e_sa e) (pol_get_reqid policy) False) (sas (ipsec_sas ips)) = Some e)"

definition can_receive :: "('a, 'r) ipsec \<Rightarrow> u32 \<Rightarrow> host \<Rightarrow> ip_packet \<Rightarrow> 'a sa_entry \<Rightarrow> bool" where
  "can_receive ips spi d ip e \<longleftrightarrow> available (ipsec_sas ips) e \<and> inbound_cb (processor ips) \<noteq> None \<and> sa_inbound (e_sa e) \<and>
     find (\<lambda>e. match_by_spi_dst (e_sa e) spi d) (sas (ipsec_sas ips)) = Some e \<and>
     find_by_packet (ipsec_policies ips) ip True (sa_reqid (e_sa e)) \<noteq> None"

lemma process_outbound_sends:
  assumes "can_send ips ip e" "bq_holds (outbound_queue (processor ips)) (ip # rest)"
    "esp_encrypt mem ops (esp_packet_create_from_payload (Some (sa_src (e_sa e))) (Some (sa_dst (e_sa e))) (Some ip)) (sa_context (e_sa e)) (sa_spi (e_sa e)) =
      Some (SUCCESS, esp, ctx)"
  shows "\<exists>ips' evs cb. outbound_cb (processor ips) = Some cb \<and> process_outbound mem ops now ips =
    Done (ips', raised evs (e_ptr e) @ [Outbound_Callback cb (outbound_data (processor ips)) esp (sa_encap (e_sa e))])"
proof -
  obtain q where q: "try_dequeue (outbound_queue (processor ips)) = Some (Some ip, q)" using first_free.bq.deq_holds [OF assms(2)] by blast
  obtain cb policy where s: "available (ipsec_sas ips) e" "outbound_cb (processor ips) = Some cb" "find_by_packet (ipsec_policies ips) ip False 0 = Some policy"
      "find (\<lambda>e. match_by_reqid (e_sa e) (pol_get_reqid policy) False) (sas (ipsec_sas ips)) = Some e"
    using assms(1) by (auto simp: can_send_def split: option.splits)
  define ips1 where "ips1 = ips\<lparr>processor := (processor ips)\<lparr>outbound_queue := q\<rparr>\<rparr>"
  obtain sa evs where u: "update_usestats now ((e_sa e)\<lparr>sa_context := ctx\<rparr>) (of_nat (length (get_encoding ip))) = (sa, evs)"
    by (cases "update_usestats now ((e_sa e)\<lparr>sa_context := ctx\<rparr>) (of_nat (length (get_encoding ip)))")
  have n: "sa_encap sa = sa_encap (e_sa e)" using arg_cong [OF u, of "\<lambda>r. sa_encap (fst r)"] by simp
  have "checkout_by_reqid now (ipsec_sas ips) (pol_get_reqid policy) False True = (Returned (Some (e_ptr e), None), lock (e_ptr e) (ipsec_sas ips), [])"
    by (simp add: checkout_by_reqid_def s(4) wait_for_entry_available [OF s(1)] and_then_def checkout_by_reqid_body_def)
  then have "process_outbound mem ops now ips = outbound_sa mem ops now ips1 ip (lock (e_ptr e) (ipsec_sas ips)) (e_ptr e)"
    using q s(3) by (simp add: process_outbound_def outbound_packet_def ips1_def)
  also have "\<dots> = Done (ips1\<lparr>ipsec_sas := set_sa (e_ptr e) sa (ipsec_sas ips)\<rparr>, raised evs (e_ptr e) @ send_outbound (processor ips1) esp (sa_encap sa))"
    unfolding outbound_sa_available [OF s(1)] assms(3) by (simp add: u)
  finally show ?thesis using s(2) n by (auto simp: send_outbound_def ips1_def)
qed

lemma process_inbound_delivers:
  assumes "can_receive ips spi d ip e" "bq_holds (inbound_queue (processor ips)) (pkt # rest)" "parse_header pkt = Some spi" "esp_get_destination pkt = Some d"
    "esp_decrypt ops pkt (sa_context (e_sa e)) = (SUCCESS, pkt', ctx)" "esp_payload pkt' = Some ip" "esp_next_header pkt' = payload_header ip"
  shows "\<exists>ips' evs cb. inbound_cb (processor ips) = Some cb \<and> process_inbound ops now ips =
    Done (ips', raised evs (e_ptr e) @ [Inbound_Callback cb (inbound_data (processor ips)) (Some ip)])"
proof -
  obtain q where q: "try_dequeue (inbound_queue (processor ips)) = Some (Some pkt, q)" using first_free.bq.deq_holds [OF assms(2)] by blast
  obtain cb policy where s: "available (ipsec_sas ips) e" "inbound_cb (processor ips) = Some cb" "sa_inbound (e_sa e)"
      "find (\<lambda>e. match_by_spi_dst (e_sa e) spi d) (sas (ipsec_sas ips)) = Some e" "find_by_packet (ipsec_policies ips) ip True (sa_reqid (e_sa e)) = Some policy"
    using assms(1) by (auto simp: can_receive_def)
  define ips1 where "ips1 = ips\<lparr>processor := (processor ips)\<lparr>inbound_queue := q\<rparr>\<rparr>"
  obtain sa evs where u: "update_usestats now ((e_sa e)\<lparr>sa_context := ctx\<rparr>) (of_nat (length (get_encoding ip))) = (sa, evs)"
    by (cases "update_usestats now ((e_sa e)\<lparr>sa_context := ctx\<rparr>) (of_nat (length (get_encoding ip)))")
  have n: "sa_reqid sa = sa_reqid (e_sa e)" using arg_cong [OF u, of "\<lambda>r. sa_reqid (fst r)"] by simp
  have "checkout_by_spi (ipsec_sas ips) spi d = (Returned (Some (e_ptr e)), lock (e_ptr e) (ipsec_sas ips), [])"
    by (simp add: checkout_by_spi_def s(4) wait_for_entry_available [OF s(1)] and_then_def checkout_by_spi_body_def)
  then have "process_inbound ops now ips = inbound_sa ops now ips1 pkt (lock (e_ptr e) (ipsec_sas ips)) (e_ptr e)"
    using q assms(3,4) by (simp add: process_inbound_def inbound_packet_def ips1_def)
  also have "\<dots> = Done (ips1\<lparr>ipsec_sas := set_sa (e_ptr e) sa (ipsec_sas ips)\<rparr>, raised evs (e_ptr e) @ inbound_policy ips1 pkt' ip (sa_reqid sa))"
    unfolding inbound_sa_available [OF s(1)] assms(5) by (simp add: u s(3) assms(6))
  moreover have "inbound_policy ips1 pkt' ip (sa_reqid sa) = [Inbound_Callback cb (inbound_data (processor ips)) (Some ip)]"
    using s(2,5) n assms(6,7)
    by (simp add: inbound_policy_def esp_get_next_header_def payload_header_def deliver_inbound_def extract_payload_def ips1_def)
  ultimately show ?thesis using s(2) by auto
qed

text \<open>
  C40.  End to end: an IP packet that is queued at one end, with a policy and an available outbound SA that has sequence
  numbers left, is encrypted and given to the outbound callback.  Whenever its bytes arrive at an end with the corresponding inbound SA,
  whose window has not seen the number, and a policy for it, exactly this IP packet is given to the inbound callback, also when other packets
  have been processed before and whatever memory the packet was built in contained.
\<close>

theorem tunnel_delivers:
  fixes sender :: "((chapoly_aead, 'c, 's, 'r) esp_aead, 'g) ipsec" and receiver :: "((chapoly_aead, 'c, 's, 'r) esp_aead, 'g) ipsec"
  assumes "can_send sender ip e" "bq_holds (outbound_queue (processor sender)) (ip # xs)" "well_formed ip"
    "native_keyed chapoly_keyed (aead (sa_context (e_sa e))) key" "native_can_iv chapoly_can_iv (aead (sa_context (e_sa e))) n"
    "next_seqno (sa_context (e_sa e)) = Some (seq, ctx)" "n < unat seq"
    "can_receive receiver (sa_spi (e_sa e)) d ip f" "native_keyed chapoly_keyed (aead (sa_context (e_sa f))) key" "verify_seqno (sa_context (e_sa f)) seq"
  shows "\<exists>sender' evs cb esp. outbound_cb (processor sender) = Some cb \<and> process_outbound mem (esp_aead_ops (chapoly_crypto salt cops cc sops cs gb rng)) now sender =
      Done (sender', raised evs (e_ptr e) @ [Outbound_Callback cb (outbound_data (processor sender)) esp (sa_encap (e_sa e))]) \<and>
    esp_get_source esp = Some (sa_src (e_sa e)) \<and> esp_get_destination esp = Some (sa_dst (e_sa e)) \<and>
    (\<forall>q pkt ys now. bq_holds q (pkt # ys) \<and> esp_get_data pkt = esp_get_data esp \<and> esp_get_destination pkt = Some d \<longrightarrow>
      (\<exists>receiver' evs' cb'. inbound_cb (processor receiver) = Some cb' \<and>
        process_inbound (esp_aead_ops (chapoly_crypto salt cops cc sops cs gb rng)) now (receiver\<lparr>processor := (processor receiver)\<lparr>inbound_queue := q\<rparr>\<rparr>) =
          Done (receiver', raised evs' (e_ptr f) @ [Inbound_Callback cb' (inbound_data (processor receiver)) (Some ip)])))"
proof -
  obtain esp c' where x: "esp_encrypt mem (esp_aead_ops (chapoly_crypto salt cops cc sops cs gb rng)) (esp_packet_create_from_payload (Some (sa_src (e_sa e))) (Some (sa_dst (e_sa e))) (Some ip))
      (sa_context (e_sa e)) (sa_spi (e_sa e)) = Some (SUCCESS, esp, c')" and s: "esp_get_source esp = Some (sa_src (e_sa e))"
      "esp_get_destination esp = Some (sa_dst (e_sa e))" and g: "esp_genuine (chapoly_enc key) 1 8 (sa_spi (e_sa e)) seq ip (esp_get_data esp)"
    using esp_chapoly.esp_encrypt_genuine [OF assms(4-7,3)] by blast
  from process_outbound_sends [OF assms(1,2) x, of now] obtain sender' evs cb where o: "outbound_cb (processor sender) = Some cb"
      "process_outbound mem (esp_aead_ops (chapoly_crypto salt cops cc sops cs gb rng)) now sender = Done (sender', raised evs (e_ptr e) @ [Outbound_Callback cb (outbound_data (processor sender)) esp (sa_encap (e_sa e))])"
    by blast
  have "\<exists>receiver' evs' cb'. inbound_cb (processor receiver) = Some cb' \<and>
        process_inbound (esp_aead_ops (chapoly_crypto salt cops cc sops cs gb rng)) now (receiver\<lparr>processor := (processor receiver)\<lparr>inbound_queue := q\<rparr>\<rparr>) =
          Done (receiver', raised evs' (e_ptr f) @ [Inbound_Callback cb' (inbound_data (processor receiver)) (Some ip)])"
    if p: "bq_holds q (pkt # ys)" "esp_get_data pkt = esp_get_data esp" "esp_get_destination pkt = Some d" for q pkt ys now
  proof -
    let ?r = "receiver\<lparr>processor := (processor receiver)\<lparr>inbound_queue := q\<rparr>\<rparr>"
    have g': "esp_genuine (chapoly_enc key) 1 8 (sa_spi (e_sa e)) seq ip (esp_get_data pkt)" using g p(2) by simp
    have c: "can_receive ?r (sa_spi (e_sa e)) d ip f" using assms(8) by (simp add: can_receive_def)
    obtain c'' where "esp_decrypt (esp_aead_ops (chapoly_crypto salt cops cc sops cs gb rng)) pkt (sa_context (e_sa f)) = (SUCCESS, pkt\<lparr>esp_payload := Some ip, esp_next_header := payload_header ip\<rparr>, c'')"
      using esp_chapoly.esp_decrypt_genuine(2) [OF assms(9,3) g' assms(10)] by blast
    from process_inbound_delivers [OF c _ esp_chapoly.esp_decrypt_genuine(1) [OF assms(9,3) g' assms(10)] p(3) this, of ys now] p(1)
    show ?thesis by simp
  qed
  then show ?thesis using o s by blast
qed

section \<open>An example\<close>

definition example_queue :: "'v \<Rightarrow> 'v blocking_queue" where
  "example_queue v = the (enqueue first_free blocking_queue_create v)"

definition example_ipsec :: "bool \<Rightarrow> ((chapoly_aead, unit, chunk, unit) esp_aead, u32) ipsec" where
  "example_ipsec inb = \<lparr>ipsec_sas = example_mgr inb False 0, ipsec_policies = example_policies (if inb then POLICY_IN else POLICY_OUT),
     ipsec_events = ipsec_event_relay_create,
     processor = register_outbound (register_inbound (ipsec_processor_create\<lparr>outbound_queue := example_queue example_ip\<rparr>) 7 0) 8 0\<rparr>"

definition example_arrival :: esp_packet where
  "example_arrival = esp_packet_create_from_packet (packet_create_from_data (Some (example_v4 1 0)) (Some (example_v4 2 0))
     (esp_header 5 1 @ replicate 8 1 @ chapoly_enc (replicate 36 5) (esp_plaintext 1 8 example_bytes (payload_header example_ip)) (esp_header 5 1) (replicate 8 1)))"

definition example_receiver :: "((chapoly_aead, unit, chunk, unit) esp_aead, u32) ipsec" where
  "example_receiver = (example_ipsec True)\<lparr>processor := (processor (example_ipsec True))\<lparr>inbound_queue := example_queue example_arrival\<rparr>\<rparr>"

lemma example_queue_holds: "bq_holds (example_queue v) [v]"
  using first_free.bq.enq_holds [OF first_free.bq.create_holds, of v] by (auto simp: example_queue_def)

lemma example_ends:
  "can_send (example_ipsec False) example_ip (create_entry 1 (example_sa False))"
  "can_receive (example_ipsec True) 5 (example_v4 2 0) example_ip (create_entry 1 (example_sa True))"
proof -
  have "ip_equals (example_v4 2 0) (example_v4 2 0)" by code_simp
  then have s: "match_by_spi_dst (example_sa True) 5 (example_v4 2 0)" by (simp add: match_by_spi_dst_def example_sa_def)
  have "map_option pol_get_reqid (find_by_packet (example_policies POLICY_OUT) example_ip False 0) = Some 1" by code_simp
  then obtain pol where o: "find_by_packet (example_policies POLICY_OUT) example_ip False 0 = Some pol" "pol_get_reqid pol = 1" by blast
  have i: "find_by_packet (example_policies POLICY_IN) example_ip True 1 \<noteq> None" by code_simp
  show "can_send (example_ipsec False) example_ip (create_entry 1 (example_sa False))"
    using o by (simp add: can_send_def available_def example_ipsec_def example_mgr_def create_entry_def register_outbound_def register_inbound_def
        match_by_reqid_def example_sa_def)
  show "can_receive (example_ipsec True) 5 (example_v4 2 0) example_ip (create_entry 1 (example_sa True))"
    using i s by (simp add: can_receive_def available_def example_ipsec_def example_mgr_def create_entry_def register_outbound_def register_inbound_def)
      (simp add: example_sa_def)
qed

lemma example_sa_ok:
  "native_keyed chapoly_keyed (aead (sa_context (example_sa inb))) (replicate 36 5)"
  "native_can_iv chapoly_can_iv (aead (sa_context (example_sa inb))) 0"
  "next_seqno (sa_context (example_sa False)) = Some (1, (sa_context (example_sa False))\<lparr>last_seqno := 1\<rparr>)"
  "verify_seqno (sa_context (example_sa True)) 1"
  by (simp_all add: example_sa_def esp_context_init_def native_keyed_def native_can_iv_def chapoly_example_ok next_seqno_def verify_seqno_def)

lemma example_arrival_genuine:
  "esp_genuine (chapoly_enc (replicate 36 5)) 1 8 5 1 example_ip (esp_get_data example_arrival)"
  "esp_get_destination example_arrival = Some (example_v4 2 0)"
  by (auto simp: esp_genuine_def example_arrival_def esp_get_data_def esp_get_destination_def esp_packet_create_from_packet_def
      esp_packet_create_internal_def pkt_defs get_encoding_def example_ip_def intro!: exI [of _ "replicate 8 1"])

lemma example_delivers:
  "\<exists>ips' evs. process_inbound (esp_aead_ops example_crypto) 0 example_receiver = Done (ips', raised evs 1 @ [Inbound_Callback 7 0 (Some example_ip)])"
proof -
  have r: "can_receive example_receiver 5 (example_v4 2 0) example_ip (create_entry 1 (example_sa True))"
    using example_ends(2) by (simp add: can_receive_def example_receiver_def)
  have q: "bq_holds (inbound_queue (processor example_receiver)) [example_arrival]" using example_queue_holds by (simp add: example_receiver_def)
  have c: "native_keyed chapoly_keyed (aead (sa_context (e_sa (create_entry 1 (example_sa True))))) (replicate 36 5)"
    "verify_seqno (sa_context (e_sa (create_entry 1 (example_sa True)))) 1" using example_sa_ok by (simp_all add: create_entry_def)
  note d = esp_chapoly.esp_decrypt_genuine [OF c(1) well_formed_example example_arrival_genuine(1) c(2)]
  obtain c' where "esp_decrypt (esp_aead_ops example_crypto) example_arrival (sa_context (e_sa (create_entry 1 (example_sa True)))) =
      (SUCCESS, example_arrival\<lparr>esp_payload := Some example_ip, esp_next_header := payload_header example_ip\<rparr>, c')"
    using d(2) unfolding example_crypto_def by blast
  from process_inbound_delivers [OF r q d(1) example_arrival_genuine(2) this, of 0]
  show ?thesis by (auto simp: example_receiver_def example_ipsec_def register_outbound_def register_inbound_def ipsec_processor_create_def create_entry_def)
qed


theorem tunnel_delivers_witness:
  "\<exists>sender' evs esp receiver' evs'. process_outbound (\<lambda>_. 0) (esp_aead_ops example_crypto) 0 (example_ipsec False) =
      Done (sender', raised evs 1 @ [Outbound_Callback 8 0 esp False]) \<and> esp_get_destination esp = Some (example_v4 2 0) \<and>
    process_inbound (esp_aead_ops example_crypto) 0
        ((example_ipsec True)\<lparr>processor := (processor (example_ipsec True))\<lparr>inbound_queue := example_queue esp\<rparr>\<rparr>) =
      Done (receiver', raised evs' 1 @ [Inbound_Callback 7 0 (Some example_ip)])"
proof -
  have q: "bq_holds (outbound_queue (processor (example_ipsec False))) [example_ip]"
    using example_queue_holds by (simp add: example_ipsec_def register_outbound_def register_inbound_def)
  have e: "e_sa (create_entry 1 (example_sa inb)) = example_sa inb" "e_ptr (create_entry 1 (example_sa inb)) = 1" for inb by (simp_all add: create_entry_def)
  have s: "sa_spi (example_sa False) = 5" "sa_dst (example_sa False) = example_v4 2 0" "sa_encap (example_sa False) = False" by (simp_all add: example_sa_def)
  have c: "outbound_cb (processor (example_ipsec False)) = Some 8" "outbound_data (processor (example_ipsec False)) = 0"
    "inbound_cb (processor (example_ipsec True)) = Some 7" "inbound_data (processor (example_ipsec True)) = 0"
    by (simp_all add: example_ipsec_def register_outbound_def register_inbound_def ipsec_processor_create_def)
  have "0 < unat (1 :: u32)" by simp
  note t = tunnel_delivers [where salt = "Some (replicate 8 1)" and cops = example_crypter and cc = "\<lambda>_ _. None" and sops = example_signer and
    cs = "\<lambda>_. None" and gb = "\<lambda>r _. (None, r)" and rng = None and mem = "\<lambda>_. 0" and now = 0, OF example_ends(1) q well_formed_example, unfolded e s c, OF example_sa_ok(1-3) this example_ends(2), unfolded e c, OF example_sa_ok(1,4), folded example_crypto_def]
  obtain sender' evs esp cb where "Some 8 = Some cb" and o: "process_outbound (\<lambda>_. 0) (esp_aead_ops example_crypto) 0 (example_ipsec False) =
      Done (sender', raised evs 1 @ [Outbound_Callback cb 0 esp False])" "esp_get_destination esp = Some (example_v4 2 0)"
    and i: "\<forall>q pkt ys now. bq_holds q (pkt # ys) \<and> esp_get_data pkt = esp_get_data esp \<and> esp_get_destination pkt = Some (example_v4 2 0) \<longrightarrow>
      (\<exists>receiver' evs' cb'. Some 7 = Some cb' \<and> process_inbound (esp_aead_ops example_crypto) now
          ((example_ipsec True)\<lparr>processor := (processor (example_ipsec True))\<lparr>inbound_queue := q\<rparr>\<rparr>) =
        Done (receiver', raised evs' 1 @ [Inbound_Callback cb' 0 (Some example_ip)]))"
    using t by (elim exE conjE) (rule that)
  from i [rule_format, of "example_queue esp" esp "[]" 0] example_queue_holds [of esp] o(2) have "\<exists>receiver' evs'. process_inbound (esp_aead_ops example_crypto) 0
        ((example_ipsec True)\<lparr>processor := (processor (example_ipsec True))\<lparr>inbound_queue := example_queue esp\<rparr>\<rparr>) =
      Done (receiver', raised evs' 1 @ [Inbound_Callback 7 0 (Some example_ip)])" by auto
  then show ?thesis using o \<open>Some 8 = Some cb\<close> by auto
qed

end
