(* ===== verification/Spec2Isabelle.thy ===== *)
theory Spec2Isabelle
  imports Ipsec_Processor
begin

text \<open>
  Verification of the IPsec data plane of the strongSwan engine that GRoute runs its IKEv2
  connections on.
\<close>

end
